(* ===== verification/Prelude.thy ===== *)
theory Prelude
  imports
    Main
    "HOL-Library.AList"
    "HOL-Library.Char_ord"
    "HOL-Library.List_Lexorder"
    "HOL-Library.Product_Lexorder"
    "HOL-Library.Multiset"
    "HOL-Library.Sublist"
begin

text \<open>
  Shared vocabulary of the development: the Python values the recorder's code works on and the
  generic facts about them that several components use.

  \<^item> Python's unbounded integers are \<^typ>\<open>int\<close>, its strings \<^typ>\<open>string\<close>; the order on strings is
    the lexicographic order of \<^verbatim>\<open>List_Lexorder\<close>, which is Python's for the ASCII identifiers here.
  \<^item> A dict whose order matters is an association list in insertion order: \<^verbatim>\<open>d[k] = v\<close> is
    \<^verbatim>\<open>AList.update\<close> (keeps the position of a present key, appends a new one), \<^verbatim>\<open>d.get(k)\<close> is
    \<^verbatim>\<open>map_of\<close>, \<^verbatim>\<open>d.setdefault(k, v)\<close> is \<open>setdefault\<close>; \<^verbatim>\<open>dict.fromkeys(xs)\<close> is \<open>dedup\<close>.
  \<^item> A Python set of comparable values that the code sorts before use is a list, and
    \<^verbatim>\<open>sorted(set(xs))\<close> is \<open>sorted_set\<close>.
  \<^item> A JSON or attribute value is a \<open>json\<close>.
\<close>

named_theorems range_simps \<open>membership in the integer ranges the components keep\<close>
named_theorems frame_simps \<open>fields an operation leaves unchanged\<close>

type_synonym source_key = "string \<times> int"
type_synonym int_range = "int \<times> int"

datatype json =
    JNull
  | JBool bool
  | JInt int
  | JFloat string
  | JStr string
  | JList "json list"
  | JObj "(string \<times> json) list"

subsection \<open>Dictionaries in insertion order\<close>

definition setdefault :: "('k \<times> 'v) list \<Rightarrow> 'k \<Rightarrow> 'v \<Rightarrow> ('k \<times> 'v) list" where
  "setdefault d k v = (case map_of d k of None \<Rightarrow> d @ [(k, v)] | Some _ \<Rightarrow> d)"

lemma map_of_setdefault:
  "map_of (setdefault d k v) = (map_of d)(k \<mapsto> (case map_of d k of None \<Rightarrow> v | Some w \<Rightarrow> w))"
proof (rule ext)
  fix x
  show "map_of (setdefault d k v) x =
    ((map_of d)(k \<mapsto> (case map_of d k of None \<Rightarrow> v | Some w \<Rightarrow> w))) x"
    by (cases "map_of d x") (auto simp: setdefault_def map_add_def split: option.splits)
qed

lemma keys_setdefault [simp]: "set (map fst (setdefault d k v)) = insert k (set (map fst d))"
  by (auto simp: setdefault_def split: option.splits dest: map_of_SomeD intro: rev_image_eqI)

lemma distinct_setdefault [simp, intro]:
  "distinct (map fst d) \<Longrightarrow> distinct (map fst (setdefault d k v))"
  by (auto simp: setdefault_def map_of_eq_None_iff split: option.splits)

lemma mem_keys_iff: "k \<in> fst ` set d \<longleftrightarrow> (\<exists>v. map_of d k = Some v)"
  by (metis map_of_eq_None_iff not_None_eq)

lemma map_of_SomeI: "distinct (map fst d) \<Longrightarrow> (k, v) \<in> set d \<Longrightarrow> map_of d k = Some v"
  by (rule map_of_is_SomeI)

lemma map_of_sort_key:
  assumes "distinct (map fst d)"
  shows "map_of (sort_key f d) = map_of d"
proof (rule map_of_eqI)
  show "set (map fst (sort_key f d)) = set (map fst d)"
    by simp
  have dist: "distinct (map fst (sort_key f d))"
    using assms by (metis distinct_map distinct_sort set_sort)
  show "\<forall>k\<in>set (map fst (sort_key f d)). map_of (sort_key f d) k = map_of d k"
  proof
    fix k assume "k \<in> set (map fst (sort_key f d))"
    then obtain v where "(k, v) \<in> set d" by auto
    then show "map_of (sort_key f d) k = map_of d k"
      using dist assms by (simp add: map_of_is_SomeI)
  qed
qed

text \<open>\<^verbatim>\<open>d[k]\<close> of a \<^verbatim>\<open>defaultdict\<close> (or of a dict filled on demand), changed in place.\<close>

definition get_or :: "('k \<times> 'v) list \<Rightarrow> 'k \<Rightarrow> 'v \<Rightarrow> 'v" where
  "get_or d k v = (case map_of d k of None \<Rightarrow> v | Some w \<Rightarrow> w)"

definition upd_at :: "('k \<times> 'v) list \<Rightarrow> 'k \<Rightarrow> 'v \<Rightarrow> ('v \<Rightarrow> 'v) \<Rightarrow> ('k \<times> 'v) list" where
  "upd_at d k v f = AList.update k (f (get_or d k v)) d"

lemma map_of_upd_at: "map_of (upd_at d k v f) = (map_of d)(k \<mapsto> f (get_or d k v))"
  by (simp add: upd_at_def update_conv')

lemma get_or_upd_at: "get_or (upd_at d k v f) k' w = (if k' = k then f (get_or d k v) else get_or d k' w)"
  by (simp add: get_or_def map_of_upd_at)

lemma keys_upd_at [simp]: "fst ` set (upd_at d k v f) = insert k (fst ` set d)"
  by (simp add: upd_at_def dom_update flip: dom_map_of_conv_image_fst) (auto simp: update_conv')

lemma distinct_upd_at [simp]: "distinct (map fst d) \<Longrightarrow> distinct (map fst (upd_at d k v f))"
  by (simp add: upd_at_def distinct_update)

lemma upd_at_same: "map_of d k = Some w \<Longrightarrow> f w = w \<Longrightarrow> upd_at d k v f = d"
  by (simp add: upd_at_def get_or_def update_Some_unfold) (induction d, auto)

text \<open>A Python set of values, in insertion order.\<close>

definition add_new :: "'a \<Rightarrow> 'a list \<Rightarrow> 'a list" where
  "add_new x xs = (if x \<in> set xs then xs else xs @ [x])"

lemma set_add_new [simp]: "set (add_new x xs) = insert x (set xs)"
  by (auto simp: add_new_def)

lemma add_new_same [simp]: "x \<in> set xs \<Longrightarrow> add_new x xs = xs"
  by (simp add: add_new_def)

lemma distinct_add_new [simp]: "distinct xs \<Longrightarrow> distinct (add_new x xs)"
  by (simp add: add_new_def)

lemma add_new_neq_Nil [simp]: "add_new x xs \<noteq> []"
  by (auto simp: add_new_def)

text \<open>\<^verbatim>\<open>dict.fromkeys(xs)\<close>: the distinct elements in order of their first occurrence.\<close>

primrec dedup :: "'a list \<Rightarrow> 'a list" where
  "dedup [] = []"
| "dedup (x # xs) = x # filter (\<lambda>y. y \<noteq> x) (dedup xs)"

lemma set_dedup [simp]: "set (dedup xs) = set xs"
  by (induction xs) auto

lemma distinct_dedup [simp]: "distinct (dedup xs)"
  by (induction xs) auto

lemma dedup_eq_Nil [simp]: "dedup xs = [] \<longleftrightarrow> xs = []"
  by (cases xs) auto

lemma dedup_distinct [simp]: "distinct xs \<Longrightarrow> dedup xs = xs"
proof (induction xs)
  case (Cons x xs)
  then have "filter (\<lambda>y. y \<noteq> x) xs = xs"
    by (auto simp: filter_id_conv)
  with Cons show ?case by simp
qed simp

subsection \<open>Sorted sets\<close>

definition sorted_set :: "'a::linorder list \<Rightarrow> 'a list" where
  "sorted_set xs = sort (remdups xs)"

lemma set_sorted_set [simp]: "set (sorted_set xs) = set xs"
  by (simp add: sorted_set_def)

lemma sorted_sorted_set [simp]: "sorted (sorted_set xs)"
  by (simp add: sorted_set_def)

lemma distinct_sorted_set [simp]: "distinct (sorted_set xs)"
  by (simp add: sorted_set_def)

lemma strict_sorted_sorted_set: "sorted_wrt (<) (sorted_set xs)"
  by (simp add: strict_sorted_iff)

lemma sorted_set_cong: "set xs = set ys \<Longrightarrow> sorted_set xs = sorted_set ys"
  by (rule sorted_distinct_set_unique) simp_all

lemma sorted_set_eq_Nil [simp]: "sorted_set xs = [] \<longleftrightarrow> xs = []"
  by (metis set_empty set_sorted_set)

subsection \<open>Lists\<close>

lemma sort_key_eq_Nil: "sort_key f xs = [] \<longleftrightarrow> xs = []"
  by (metis set_empty set_sort)

lemma concat_map_NilD: "concat (map f xs) = [] \<Longrightarrow> x \<in> set xs \<Longrightarrow> f x = []"
  by (induction xs) auto

lemma filter_eq_Nil_iff: "filter P xs = [] \<longleftrightarrow> (\<forall>x\<in>set xs. \<not> P x)"
  by (induction xs) auto

lemma concat_eq_Nil_iff: "concat xss = [] \<longleftrightarrow> (\<forall>xs\<in>set xss. xs = [])"
  by (induction xss) auto

lemma takeWhile_append_dropWhile_filter:
  "sorted_wrt (\<lambda>x y. P y \<longrightarrow> P x) xs \<Longrightarrow> takeWhile P xs = filter P xs"
  by (induction xs) (auto simp: filter_empty_conv)

subsection \<open>Decimal numbers\<close>

text \<open>\<^verbatim>\<open>f"{n}"\<close> of a natural number and of an integer, and \<^verbatim>\<open>int(s)\<close> of a digit string.\<close>

definition digit_char :: "nat \<Rightarrow> char" where
  "digit_char n = char_of (48 + n)"

definition digit_value :: "char \<Rightarrow> nat" where
  "digit_value c = of_char c - 48"

fun nat_str :: "nat \<Rightarrow> string" where
  "nat_str n = (if n < 10 then [digit_char n] else nat_str (n div 10) @ [digit_char (n mod 10)])"

declare nat_str.simps [simp del]

definition str_nat :: "string \<Rightarrow> nat" where
  "str_nat s = foldl (\<lambda>n c. 10 * n + digit_value c) 0 s"

definition int_str :: "int \<Rightarrow> string" where
  "int_str i = (if i < 0 then CHR ''-'' # nat_str (nat (- i)) else nat_str (nat i))"

lemma digit_value_char [simp]: "n < 10 \<Longrightarrow> digit_value (digit_char n) = n"
  by (simp add: digit_value_def digit_char_def of_char_of)

lemma str_nat_snoc [simp]: "str_nat (s @ [c]) = 10 * str_nat s + digit_value c"
  by (simp add: str_nat_def)

lemma str_nat_nat_str [simp]: "str_nat (nat_str n) = n"
proof (induction n rule: nat_str.induct)
  case (1 n)
  show ?case
  proof (cases "n < 10")
    case True
    then show ?thesis
      by (simp add: nat_str.simps [of n] str_nat_def)
  next
    case False
    with 1 have "str_nat (nat_str (n div 10)) = n div 10" by simp
    with False show ?thesis
      by (simp add: nat_str.simps [of n])
  qed
qed

lemma nat_str_inject [simp]: "nat_str m = nat_str n \<longleftrightarrow> m = n"
  by (metis str_nat_nat_str)

end
