(* ===== verification/Report.thy ===== *)
theory Report
  imports Prelude
begin

text \<open>
  The gap model and the verdict rule of the offline verifier
  (\<^verbatim>\<open>sdk/python/src/fabric/reconstruct/_report.py\<close>): integrity gaps, their deterministic order, the
  verdict of a list of gaps and checks, the chain verdicts of spec 056 and the run's attribution
  summary. The lemmas show what each verdict says about the gaps behind it, that evidence can only
  lower a verdict, and that the reported order depends on the set of gaps only up to key ties.
\<close>

subsection \<open>Gaps\<close>

datatype gap_type =
    Sequence_gap | Loss | Tail_unverified | Missing_object | Digest_mismatch | Truncated
  | Unparsed_exchange | Prefix_break | Unmatched_tool_call | Unresolved_previous_response
  | Source_unauthenticated | Segment_missing | Segment_conflict | Post_terminal_activity
  | Run_unterminated | Run_open | Seal_mismatch | Unsealed_segment | Unsealed_epoch
  | Manifest_gap | Clock_uncertain

primrec gap_type_str :: "gap_type \<Rightarrow> string" where
  "gap_type_str Sequence_gap = ''sequence_gap''"
| "gap_type_str Loss = ''loss''"
| "gap_type_str Tail_unverified = ''tail_unverified''"
| "gap_type_str Missing_object = ''missing_object''"
| "gap_type_str Digest_mismatch = ''digest_mismatch''"
| "gap_type_str Truncated = ''truncated''"
| "gap_type_str Unparsed_exchange = ''unparsed_exchange''"
| "gap_type_str Prefix_break = ''prefix_break''"
| "gap_type_str Unmatched_tool_call = ''unmatched_tool_call''"
| "gap_type_str Unresolved_previous_response = ''unresolved_previous_response''"
| "gap_type_str Source_unauthenticated = ''source_unauthenticated''"
| "gap_type_str Segment_missing = ''segment_missing''"
| "gap_type_str Segment_conflict = ''segment_conflict''"
| "gap_type_str Post_terminal_activity = ''post_terminal_activity''"
| "gap_type_str Run_unterminated = ''run_unterminated''"
| "gap_type_str Run_open = ''run_open''"
| "gap_type_str Seal_mismatch = ''seal_mismatch''"
| "gap_type_str Unsealed_segment = ''unsealed_segment''"
| "gap_type_str Unsealed_epoch = ''unsealed_epoch''"
| "gap_type_str Manifest_gap = ''manifest_gap''"
| "gap_type_str Clock_uncertain = ''clock_uncertain''"

datatype effect = Info | Partial | Unverified

primrec effect_str :: "effect \<Rightarrow> string" where
  "effect_str Info = ''info''"
| "effect_str Partial = ''partial''"
| "effect_str Unverified = ''unverified''"

datatype side = Request | Response

primrec side_str :: "side \<Rightarrow> string" where
  "side_str Request = ''request''"
| "side_str Response = ''response''"

datatype check = Passed | Failed | Skipped | Not_applicable

datatype verdict =
  Complete_for_declared_scope | Complete_for_observed_scopes | V_partial | V_unverified

record gap =
  gap_type :: gap_type
  gap_effect :: effect
  gap_exchange_id :: "string option"
  gap_source_id :: "string option"
  gap_source_epoch :: "int option"
  gap_first_sequence :: "int option"
  gap_last_sequence :: "int option"
  gap_tool_call_id :: "string option"
  gap_previous_response_id :: "string option"
  gap_object_role :: "side option"
  gap_reason :: "string option"
  gap_segment_id :: "string option"

text \<open>\<^verbatim>\<open>Gap(gap_type, effect)\<close> with every optional field at its default.\<close>

definition mk_gap :: "gap_type \<Rightarrow> effect \<Rightarrow> gap" where
  "mk_gap t e = \<lparr>gap_type = t, gap_effect = e, gap_exchange_id = None, gap_source_id = None,
     gap_source_epoch = None, gap_first_sequence = None, gap_last_sequence = None,
     gap_tool_call_id = None, gap_previous_response_id = None, gap_object_role = None,
     gap_reason = None, gap_segment_id = None\<rparr>"

lemma mk_gap_simps [simp]:
  "gap_type (mk_gap t e) = t" "gap_effect (mk_gap t e) = e"
  "gap_exchange_id (mk_gap t e) = None" "gap_source_id (mk_gap t e) = None"
  "gap_source_epoch (mk_gap t e) = None" "gap_first_sequence (mk_gap t e) = None"
  "gap_last_sequence (mk_gap t e) = None" "gap_tool_call_id (mk_gap t e) = None"
  "gap_previous_response_id (mk_gap t e) = None" "gap_object_role (mk_gap t e) = None"
  "gap_reason (mk_gap t e) = None" "gap_segment_id (mk_gap t e) = None"
  by (simp_all add: mk_gap_def)

subsection \<open>Serialisation\<close>

definition lower_alpha :: "char \<Rightarrow> bool" where
  "lower_alpha c \<longleftrightarrow> CHR ''a'' \<le> c \<and> c \<le> CHR ''z''"

definition decimal_digit :: "char \<Rightarrow> bool" where
  "decimal_digit c \<longleftrightarrow> CHR ''0'' \<le> c \<and> c \<le> CHR ''9''"

text \<open>
  \<^verbatim>\<open>_REASON_RE.match\<close>: a lower-case letter and at most 63 word characters. The pattern ends in
  \<^verbatim>\<open>$\<close>, which with \<^verbatim>\<open>match\<close> also accepts one trailing newline.
\<close>

definition reason_word :: "string \<Rightarrow> bool" where
  "reason_word s = (case s of [] \<Rightarrow> False
     | c # cs \<Rightarrow> lower_alpha c \<and> length cs \<le> 63 \<and>
         list_all (\<lambda>d. lower_alpha d \<or> decimal_digit d \<or> d = CHR ''_'') cs)"

definition reason_re :: "string \<Rightarrow> bool" where
  "reason_re s \<longleftrightarrow> reason_word s \<or> (s \<noteq> [] \<and> last s = CHR 0x0A \<and> reason_word (butlast s))"

definition opt_field :: "string \<Rightarrow> ('a \<Rightarrow> json) \<Rightarrow> 'a option \<Rightarrow> (string \<times> json) list" where
  "opt_field k enc v = (case v of None \<Rightarrow> [] | Some x \<Rightarrow> [(k, enc x)])"

definition gap_to_json :: "gap \<Rightarrow> (string \<times> json) list" where
  "gap_to_json g =
     [(''gap_type'', JStr (gap_type_str (gap_type g))), (''effect'', JStr (effect_str (gap_effect g)))] @
     opt_field ''exchange_id'' JStr (gap_exchange_id g) @
     opt_field ''source_id'' JStr (gap_source_id g) @
     opt_field ''source_epoch'' JInt (gap_source_epoch g) @
     opt_field ''first_sequence'' JInt (gap_first_sequence g) @
     opt_field ''last_sequence'' JInt (gap_last_sequence g) @
     opt_field ''tool_call_id'' JStr (gap_tool_call_id g) @
     opt_field ''previous_response_id'' JStr (gap_previous_response_id g) @
     opt_field ''object_role'' (\<lambda>r. JStr (side_str r)) (gap_object_role g) @
     opt_field ''segment_id'' JStr (gap_segment_id g) @
     opt_field ''reason'' JStr
       (case gap_reason g of None \<Rightarrow> None | Some r \<Rightarrow> if r \<noteq> [] \<and> reason_re r then Some r else None)"

subsection \<open>Deterministic order\<close>

definition or_str :: "string option \<Rightarrow> string" where
  "or_str v = (case v of None \<Rightarrow> '''' | Some s \<Rightarrow> s)"

definition or_neg1 :: "int option \<Rightarrow> int" where
  "or_neg1 v = (case v of None \<Rightarrow> -1 | Some i \<Rightarrow> i)"

type_synonym gap_key =
  "string \<times> int \<times> string \<times> int \<times> int \<times> string \<times> string \<times> string \<times> string \<times> string \<times> string \<times> string"

definition gap_sort_key :: "(string \<rightharpoonup> int) \<Rightarrow> gap \<Rightarrow> gap_key" where
  "gap_sort_key order_of g =
     (gap_type_str (gap_type g),
      (case gap_exchange_id g of None \<Rightarrow> -1
        | Some x \<Rightarrow> if x = [] then -1 else or_neg1 (order_of x)),
      or_str (gap_source_id g), or_neg1 (gap_source_epoch g), or_neg1 (gap_first_sequence g),
      (case gap_object_role g of None \<Rightarrow> '''' | Some r \<Rightarrow> side_str r),
      or_str (gap_tool_call_id g), or_str (gap_reason g), effect_str (gap_effect g),
      or_str (gap_exchange_id g), or_str (gap_previous_response_id g), or_str (gap_segment_id g))"

definition sort_gaps :: "gap list \<Rightarrow> (string \<rightharpoonup> int) \<Rightarrow> gap list" where
  "sort_gaps gaps order_of = sort_key (gap_sort_key order_of) (dedup gaps)"

lemma set_sort_gaps [simp]: "set (sort_gaps gaps order_of) = set gaps"
  by (simp add: sort_gaps_def)

lemma distinct_sort_gaps [simp]: "distinct (sort_gaps gaps order_of)"
  by (simp add: sort_gaps_def)

lemma sorted_sort_gaps: "sorted (map (gap_sort_key order_of) (sort_gaps gaps order_of))"
  by (simp add: sort_gaps_def)

text \<open>Gaps with distinct keys are reported in one order, whatever order they were found in.\<close>

lemma sort_gaps_set_determined:
  assumes "set xs = set ys" and "inj_on (gap_sort_key f) (set xs)"
  shows "sort_gaps xs f = sort_gaps ys f"
proof -
  have inj: "inj_on (gap_sort_key f) (set (sort_gaps xs f) \<union> set (sort_gaps ys f))"
    using assms by simp
  have "map (gap_sort_key f) (sort_gaps xs f) = map (gap_sort_key f) (sort_gaps ys f)"
  proof (rule sorted_distinct_set_unique)
    show "sorted (map (gap_sort_key f) (sort_gaps xs f))"
      and "sorted (map (gap_sort_key f) (sort_gaps ys f))"
      by (rule sorted_sort_gaps)+
    show "distinct (map (gap_sort_key f) (sort_gaps xs f))"
      and "distinct (map (gap_sort_key f) (sort_gaps ys f))"
      using assms by (simp_all add: distinct_map)
    show "set (map (gap_sort_key f) (sort_gaps xs f)) = set (map (gap_sort_key f) (sort_gaps ys f))"
      using assms(1) by simp
  qed
  then show ?thesis using inj by (rule map_inj_on)
qed

subsection \<open>Verdicts\<close>

definition verdict_for :: "gap list \<Rightarrow> (string \<times> check) list \<Rightarrow> verdict" where
  "verdict_for gaps checks =
     (let effects = gap_effect ` set gaps in
      if Partial \<in> effects then V_partial
      else if Unverified \<in> effects \<or> Skipped \<in> snd ` set checks then V_unverified
      else Complete_for_declared_scope)"

definition run_verdict :: "verdict \<Rightarrow> bool \<Rightarrow> verdict" where
  "run_verdict v scoped =
     (if scoped \<and> v = Complete_for_declared_scope then Complete_for_observed_scopes else v)"

definition complete_verdicts :: "verdict set" where
  "complete_verdicts = {Complete_for_declared_scope, Complete_for_observed_scopes}"

definition gap_counts :: "gap list \<Rightarrow> (string \<times> int) list" where
  "gap_counts gaps =
     sort_key fst
       (foldl (\<lambda>counts g. let t = gap_type_str (gap_type g) in
          AList.update t ((case map_of counts t of None \<Rightarrow> 0 | Some n \<Rightarrow> n) + 1) counts) [] gaps)"


subsection \<open>Chain verdicts (spec 056)\<close>

datatype chain_verdict = Chain_complete | Chain_partial | Chain_unverified | Chain_not_observed

text \<open>A chain object; the \<^verbatim>\<open>reasons\<close> key is absent when there is none.\<close>

record chain_entry =
  chain_verdict :: chain_verdict
  chain_reasons :: "string list option"

definition chain_names :: "string list" where
  "chain_names = [''decisions'', ''actions'', ''effects'', ''corroboration'']"

definition chain :: "string list \<Rightarrow> chain_entry" where
  "chain reasons =
     (let found = dedup reasons in
      if found \<noteq> [] then \<lparr>chain_verdict = Chain_partial, chain_reasons = Some found\<rparr>
      else \<lparr>chain_verdict = Chain_complete, chain_reasons = None\<rparr>)"

definition not_observed :: "string option \<Rightarrow> chain_entry" where
  "not_observed reason =
     \<lparr>chain_verdict = Chain_not_observed,
      chain_reasons = (case reason of None \<Rightarrow> None | Some r \<Rightarrow> if r = [] then None else Some [r])\<rparr>"

definition skipped_reasons :: "string \<Rightarrow> string" where
  "skipped_reasons name =
     (if name = ''bytes'' then ''not_configured''
      else if name = ''stitching'' then ''unparsed_exchange'' else ''not_configured'')"

primrec chain_of_verdict :: "verdict \<Rightarrow> chain_verdict" where
  "chain_of_verdict Complete_for_declared_scope = Chain_complete"
| "chain_of_verdict Complete_for_observed_scopes = Chain_complete"
| "chain_of_verdict V_partial = Chain_partial"
| "chain_of_verdict V_unverified = Chain_unverified"

definition decisions_chain :: "gap list \<Rightarrow> (string \<times> check) list \<Rightarrow> chain_entry" where
  "decisions_chain gaps checks =
     (let v = verdict_for gaps checks in
      if v = Complete_for_declared_scope
      then \<lparr>chain_verdict = Chain_complete, chain_reasons = None\<rparr>
      else
        let reasons = map (\<lambda>g. gap_type_str (gap_type g)) (filter (\<lambda>g. gap_effect g \<noteq> Info) gaps);
            named = (if reasons = []
                     then map (\<lambda>(name, st). skipped_reasons name) (filter (\<lambda>(name, st). st = Skipped) checks)
                     else reasons)
        in \<lparr>chain_verdict = chain_of_verdict v, chain_reasons = Some (dedup named)\<rparr>)"

definition chained_run_verdict :: "verdict \<Rightarrow> (string \<times> chain_entry) list \<Rightarrow> verdict" where
  "chained_run_verdict v cs =
     (let states = chain_verdict ` snd ` set cs in
      if Chain_partial \<in> states then V_partial
      else if Chain_unverified \<in> states \<and> v \<in> complete_verdicts then V_unverified
      else v)"

subsection \<open>The attribution summary\<close>

definition attribution_bases :: "string list" where
  "attribution_bases = [''reported'', ''output_match'', ''sequence_bracket'', ''process_anchor'',
     ''process_lineage'', ''sandbox_report'', ''none'']"

definition list_max :: nat where "list_max = 64"

definition link_states :: "string list" where
  "link_states = [''resolved'', ''ambiguous'', ''unresolved'']"

definition link_counts :: "(string \<times> int) list" where
  "link_counts = map (\<lambda>s. (s, 0)) link_states"

definition get_count :: "(string \<times> int) list \<Rightarrow> string \<Rightarrow> int" where
  "get_count d k = (case map_of d k of None \<Rightarrow> 0 | Some n \<Rightarrow> n)"

record attribution =
  att_links :: "(string \<times> (string \<times> int) list) list"
  att_unattributed_count :: int
  att_unattributed :: "(string \<times> string) list"
  att_not_observed :: "(string \<times> int) list"
  att_output_match :: "(string \<times> string) list"
  att_unexplained_count :: int
  att_unexplained :: "string list"
  att_lineage_truncated :: "int option"

definition attribution_json ::
  "(string \<times> (string \<times> int) list) list \<Rightarrow> (string \<times> string) list \<Rightarrow> (string \<times> int) list \<Rightarrow>
   (string \<times> string) list \<Rightarrow> string list \<Rightarrow> int option \<Rightarrow> int \<Rightarrow> attribution" where
  "attribution_json counts unattributed effects_not_observed om unexplained unexplained_count truncated =
     \<lparr>att_links =
        concat (map (\<lambda>basis. case map_of counts basis of None \<Rightarrow> []
          | Some c \<Rightarrow> [(basis, map (\<lambda>st. (st, get_count c st)) link_states)]) attribution_bases),
      att_unattributed_count = int (length unattributed),
      att_unattributed = take list_max unattributed,
      att_not_observed = map (\<lambda>r. (r, get_count effects_not_observed r))
        [''channel_disabled'', ''no_effect_channel'', ''none_in_window''],
      att_output_match = om,
      att_unexplained_count =
        (case unexplained_count of None \<Rightarrow> int (length unexplained) | Some n \<Rightarrow> n),
      att_unexplained = take list_max unexplained,
      att_lineage_truncated = (if truncated \<noteq> 0 then Some truncated else None)\<rparr>"

record host_event =
  he_event_id :: string
  he_source :: string
  he_event_class :: string
  he_pid :: int
  he_time_ns :: int
  he_reason :: string

definition unattributed_host_reasons :: "string list" where
  "unattributed_host_reasons = [''other_process'', ''out_of_scope'', ''no_run'']"

record unattributed_host =
  uh_count :: int
  uh_reasons :: "(string \<times> int) list"
  uh_events :: "host_event list"

definition unattributed_host_json :: "host_event list \<Rightarrow> unattributed_host" where
  "unattributed_host_json events =
     \<lparr>uh_count = int (length events),
      uh_reasons = map (\<lambda>r. (r, int (length (filter (\<lambda>e. he_reason e = r) events))))
        unattributed_host_reasons,
      uh_events = take list_max events\<rparr>"

subsection \<open>Facts about verdicts\<close>

text \<open>The strength of a verdict: partial is the weakest statement, declared scope the strongest.\<close>

primrec verdict_rank :: "verdict \<Rightarrow> nat" where
  "verdict_rank V_partial = 0"
| "verdict_rank V_unverified = 1"
| "verdict_rank Complete_for_observed_scopes = 2"
| "verdict_rank Complete_for_declared_scope = 3"

lemma verdict_rank_inj: "verdict_rank v = verdict_rank w \<Longrightarrow> v = w"
  by (cases v; cases w) simp_all

instantiation verdict :: linorder
begin

definition less_eq_verdict :: "verdict \<Rightarrow> verdict \<Rightarrow> bool" where
  "less_eq_verdict v w \<longleftrightarrow> verdict_rank v \<le> verdict_rank w"

definition less_verdict :: "verdict \<Rightarrow> verdict \<Rightarrow> bool" where
  "less_verdict v w \<longleftrightarrow> verdict_rank v < verdict_rank w"

instance
  by standard (auto simp: less_eq_verdict_def less_verdict_def dest: verdict_rank_inj)

end

lemma verdict_le_simps [simp]:
  "V_partial \<le> v" "v \<le> Complete_for_declared_scope"
  "V_unverified \<le> v \<longleftrightarrow> v \<noteq> V_partial"
  by (cases v; simp add: less_eq_verdict_def)+

lemma effect_in_image: "e \<in> gap_effect ` set gaps \<longleftrightarrow> (\<exists>g\<in>set gaps. gap_effect g = e)"
  by force

lemma effect_Info_iff: "gap_effect g = Info \<longleftrightarrow> gap_effect g \<noteq> Partial \<and> gap_effect g \<noteq> Unverified"
  by (cases "gap_effect g") auto

lemma verdict_for_complete_iff:
  "verdict_for gaps checks = Complete_for_declared_scope \<longleftrightarrow>
     (\<forall>g\<in>set gaps. gap_effect g = Info) \<and> Skipped \<notin> snd ` set checks"
  by (auto simp: verdict_for_def Let_def effect_in_image effect_Info_iff)

lemma verdict_for_partial_iff:
  "verdict_for gaps checks = V_partial \<longleftrightarrow> (\<exists>g\<in>set gaps. gap_effect g = Partial)"
  by (simp add: verdict_for_def Let_def effect_in_image)

lemma verdict_for_unverified_iff:
  "verdict_for gaps checks = V_unverified \<longleftrightarrow>
     (\<forall>g\<in>set gaps. gap_effect g \<noteq> Partial) \<and>
     ((\<exists>g\<in>set gaps. gap_effect g = Unverified) \<or> Skipped \<in> snd ` set checks)"
  by (simp add: verdict_for_def Let_def effect_in_image)

lemma verdict_for_not_observed [simp]: "verdict_for gaps checks \<noteq> Complete_for_observed_scopes"
  by (simp add: verdict_for_def Let_def)

lemmas verdict_for_iffs =
  verdict_for_complete_iff verdict_for_partial_iff verdict_for_unverified_iff

lemma verdict_for_antimono:
  assumes "gap_effect ` set gaps \<subseteq> gap_effect ` set gaps'"
    and "snd ` set checks \<subseteq> snd ` set checks'"
  shows "verdict_for gaps' checks' \<le> verdict_for gaps checks"
  using assms by (auto simp: verdict_for_def Let_def less_eq_verdict_def)

lemma verdict_for_effects:
  "gap_effect ` set gaps = gap_effect ` set gaps' \<Longrightarrow> verdict_for gaps checks = verdict_for gaps' checks"
  by (simp add: verdict_for_def)

lemma verdict_for_sort_gaps [simp]:
  "verdict_for (sort_gaps gaps f) checks = verdict_for gaps checks"
  by (rule verdict_for_effects) simp

lemma run_verdict_le: "run_verdict v scoped \<le> v"
  by (cases v; cases scoped) (auto simp: run_verdict_def less_eq_verdict_def)

lemma run_verdict_complete_iff:
  "run_verdict (verdict_for gaps checks) scoped \<in> complete_verdicts \<longleftrightarrow>
     verdict_for gaps checks = Complete_for_declared_scope"
  using verdict_for_not_observed [of gaps checks]
  by (cases "verdict_for gaps checks") (auto simp: run_verdict_def complete_verdicts_def)

lemma chained_run_verdict_le: "chained_run_verdict v cs \<le> v"
  by (cases v) (auto simp: chained_run_verdict_def Let_def complete_verdicts_def less_eq_verdict_def)

lemma chained_run_verdict_complete_iff:
  "chained_run_verdict v cs \<in> complete_verdicts \<longleftrightarrow>
     v \<in> complete_verdicts \<and>
     (\<forall>c\<in>snd ` set cs. chain_verdict c \<noteq> Chain_partial \<and> chain_verdict c \<noteq> Chain_unverified)"
proof -
  have "s \<in> chain_verdict ` snd ` set cs \<longleftrightarrow> (\<exists>c\<in>snd ` set cs. chain_verdict c = s)" for s
    by force
  then show ?thesis
    by (auto simp: chained_run_verdict_def Let_def complete_verdicts_def)
qed

lemma decisions_chain_verdict:
  "chain_verdict (decisions_chain gaps checks) = chain_of_verdict (verdict_for gaps checks)"
  by (simp add: decisions_chain_def Let_def)

text \<open>A decisions chain names at least one reason exactly when it is not complete.\<close>

lemma decisions_chain_reasons:
  "(\<exists>r rs. chain_reasons (decisions_chain gaps checks) = Some (r # rs)) \<longleftrightarrow>
     verdict_for gaps checks \<noteq> Complete_for_declared_scope"
proof (cases "verdict_for gaps checks = Complete_for_declared_scope")
  case False
  let ?rs = "map (\<lambda>g. gap_type_str (gap_type g)) (filter (\<lambda>g. gap_effect g \<noteq> Info) gaps)"
  let ?sk = "map (\<lambda>(name, st). skipped_reasons name) (filter (\<lambda>(name, st). st = Skipped) checks)"
  have "dedup (if ?rs = [] then ?sk else ?rs) \<noteq> []"
    using False by (auto simp: verdict_for_complete_iff filter_empty_conv)
  then obtain r rs where "dedup (if ?rs = [] then ?sk else ?rs) = r # rs"
    by (cases "dedup (if ?rs = [] then ?sk else ?rs)") auto
  with False have "chain_reasons (decisions_chain gaps checks) = Some (r # rs)"
    by (simp add: decisions_chain_def Let_def)
  with False show ?thesis by blast
qed (simp add: decisions_chain_def)

lemma decisions_chain_not_observed: "chain_verdict (decisions_chain gaps checks) \<noteq> Chain_not_observed"
  by (cases "verdict_for gaps checks") (simp_all add: decisions_chain_verdict)

subsection \<open>Facts about counts\<close>

lemma inj_gap_type_str: "inj gap_type_str"
proof (rule injI)
  fix s t :: gap_type
  assume "gap_type_str s = gap_type_str t"
  then show "s = t" by (cases s; cases t) simp_all
qed

lemma update_count_fold:
  "map_of (foldl (\<lambda>counts g. AList.update (f g)
      ((case map_of counts (f g) of None \<Rightarrow> 0 | Some n \<Rightarrow> n) + 1) counts) d gs) t =
     (let n = length (filter (\<lambda>g. f g = t) gs) in
      if n = 0 then map_of d t
      else Some ((case map_of d t of None \<Rightarrow> 0 | Some m \<Rightarrow> m) + int n))"
proof (induction gs arbitrary: d)
  case (Cons g gs)
  then show ?case
    by (auto simp: Let_def update_conv' split: option.splits)
qed simp

lemma distinct_count_fold:
  "distinct (map fst d) \<Longrightarrow> distinct (map fst (foldl (\<lambda>counts g. AList.update (f g) (h counts g) counts) d gs))"
  by (induction gs arbitrary: d) (simp_all add: distinct_update)

lemma map_of_gap_counts:
  "map_of (gap_counts gaps) (gap_type_str t) =
     (let n = length (filter (\<lambda>g. gap_type g = t) gaps) in if n = 0 then None else Some (int n))"
proof -
  let ?f = "\<lambda>g. gap_type_str (gap_type g)"
  let ?h = "\<lambda>counts g. (case map_of counts (?f g) of None \<Rightarrow> 0 | Some n \<Rightarrow> n) + (1::int)"
  let ?d = "foldl (\<lambda>counts g. AList.update (?f g) (?h counts g) counts) [] gaps"
  have "distinct (map fst ?d)"
    by (rule distinct_count_fold [where f = ?f and h = ?h]) simp
  then have "map_of (gap_counts gaps) = map_of ?d"
    by (simp add: gap_counts_def Let_def map_of_sort_key)
  then show ?thesis
    by (simp add: update_count_fold [where f = ?f] Let_def inj_eq [OF inj_gap_type_str])
qed

lemma sorted_gap_counts: "sorted (map fst (gap_counts gaps))"
  by (simp add: gap_counts_def)

subsection \<open>Properties\<close>



text \<open>
  C28. Evidence never improves a verdict: with every gap effect and check state of one report also
  present in another, the second verdict is at most the first in the order partial, unverified,
  complete for the observed scopes, complete; and neither the run's scoping nor its chains raise it.
\<close>

theorem verdict_never_improves:
  assumes "gap_effect ` set gaps \<subseteq> gap_effect ` set gaps'" and "snd ` set checks \<subseteq> snd ` set checks'"
  shows "verdict_for gaps' checks' \<le> verdict_for gaps checks \<and>
    chained_run_verdict (run_verdict (verdict_for gaps' checks') scoped) cs \<le> verdict_for gaps checks"
proof
  show le: "verdict_for gaps' checks' \<le> verdict_for gaps checks" using assms by (rule verdict_for_antimono)
  have "chained_run_verdict (run_verdict (verdict_for gaps' checks') scoped) cs \<le> verdict_for gaps' checks'"
    by (rule order_trans [OF chained_run_verdict_le run_verdict_le])
  with le show "chained_run_verdict (run_verdict (verdict_for gaps' checks') scoped) cs \<le> verdict_for gaps checks"
    by (rule order_trans [rotated])
qed

theorem verdict_never_improves_witness:
  "verdict_for [mk_gap Loss Partial, mk_gap Prefix_break Info] [(''bytes'', Passed)] \<le>
     verdict_for [mk_gap Prefix_break Info] [(''bytes'', Passed)] \<and>
   verdict_for [mk_gap Prefix_break Info] [(''bytes'', Passed)] = Complete_for_declared_scope"
  using verdict_never_improves [of "[mk_gap Prefix_break Info]" "[mk_gap Loss Partial, mk_gap Prefix_break Info]"
      "[(''bytes'', Passed)]" "[(''bytes'', Passed)]"]
  by (simp add: verdict_for_def)

text \<open>
  C29. A run's verdict with its chains is complete exactly when the decision verdict is complete and no
  chain is partial or unverified; the decision chain itself mirrors the verdict and names at least one
  reason exactly when the verdict is not complete.
\<close>

theorem chained_verdict_meaning:
  "(chained_run_verdict (run_verdict (verdict_for gaps checks) scoped) cs \<in> complete_verdicts \<longleftrightarrow>
      verdict_for gaps checks = Complete_for_declared_scope \<and>
      (\<forall>c\<in>snd ` set cs. chain_verdict c \<noteq> Chain_partial \<and> chain_verdict c \<noteq> Chain_unverified)) \<and>
   chain_verdict (decisions_chain gaps checks) = chain_of_verdict (verdict_for gaps checks) \<and>
   ((\<exists>r rs. chain_reasons (decisions_chain gaps checks) = Some (r # rs)) \<longleftrightarrow>
      verdict_for gaps checks \<noteq> Complete_for_declared_scope)"
  unfolding chained_run_verdict_complete_iff run_verdict_complete_iff decisions_chain_verdict decisions_chain_reasons
  by simp

theorem chained_verdict_meaning_witness:
  "chained_run_verdict (run_verdict (verdict_for [] [(''bytes'', Passed)]) True)
     [(''effects'', \<lparr>chain_verdict = Chain_not_observed, chain_reasons = None\<rparr>)] \<in> complete_verdicts"
  using chained_verdict_meaning [of "[]" "[(''bytes'', Passed)]" True
      "[(''effects'', \<lparr>chain_verdict = Chain_not_observed, chain_reasons = None\<rparr>)]"]
  by (simp add: verdict_for_def)



end
