(* ===== verification/StitchCheck.thy ===== *)
theory StitchCheck
  imports Report
begin

text \<open>
  Thread stitching and tool-call matching within one run
  (\<^verbatim>\<open>sdk/python/src/fabric/reconstruct/_stitch_check.py\<close>). The verifier gives each exchange of a run as
  a \<open>stitch_view\<close>; \<open>stitch_run\<close> assigns threads, continuation links and stitching gaps. A dict read
  with a missing key (\<^verbatim>\<open>KeyError\<close>) is \<open>None\<close>; \<open>stitch_run_returns\<close> shows it never happens. The
  lemmas show that the threads partition the exchanges, that a continuation link names an earlier
  exchange justified by the stored digests, and what each tool-call gap says.
\<close>

record stitch_view =
  sv_exchange_id :: string
  sv_api :: string
  sv_parsed :: bool
  sv_request :: "string list"
  sv_continuation :: "string list"
  sv_consumed :: "string list"
  sv_emitted :: "string list"
  sv_response_id :: "string option"
  sv_previous_response_id :: "string option"

record stitch_result =
  sr_threads :: "(string \<times> string list) list"
  sr_continues :: "(string \<times> string) list"
  sr_thread_of :: "(string \<times> string) list"
  sr_gaps :: "gap list"

definition empty_result :: stitch_result where
  "empty_result = \<lparr>sr_threads = [], sr_continues = [], sr_thread_of = [], sr_gaps = []\<rparr>"

definition thread_name :: "nat \<Rightarrow> string" where
  "thread_name n = ''thread-'' @ nat_str n"

definition new_thread :: "stitch_result \<Rightarrow> string \<Rightarrow> stitch_result" where
  "new_thread r x =
     (let t = thread_name (length (sr_threads r)) in
      r\<lparr>sr_threads := sr_threads r @ [(t, [x])], sr_thread_of := AList.update x t (sr_thread_of r)\<rparr>)"

definition join :: "stitch_result \<Rightarrow> string \<Rightarrow> string \<Rightarrow> bool \<Rightarrow> stitch_result option" where
  "join r x earlier continues =
     (case map_of (sr_thread_of r) earlier of
        None \<Rightarrow> None
      | Some t \<Rightarrow> Some
          (r\<lparr>sr_threads := map (\<lambda>(c, ms). if c = t then (c, ms @ [x]) else (c, ms)) (sr_threads r),
             sr_thread_of := AList.update x t (sr_thread_of r),
             sr_continues := (if continues then AList.update x earlier (sr_continues r)
                              else sr_continues r)\<rparr>))"

fun common_prefix :: "string list \<Rightarrow> string list \<Rightarrow> nat" where
  "common_prefix (l # ls) (r # rs) = (if l \<noteq> r then 0 else Suc (common_prefix ls rs))"
| "common_prefix _ _ = 0"

definition embeddings_api :: string where
  "embeddings_api = ''openai.embeddings''"

definition better :: "stitch_view \<Rightarrow> stitch_view option \<Rightarrow> stitch_view \<Rightarrow> stitch_view option" where
  "better view best c =
     (let n = length (sv_continuation c) in
      if take n (sv_request view) = sv_continuation c \<and>
         (case best of None \<Rightarrow> True | Some b \<Rightarrow> n \<ge> length (sv_continuation b))
      then Some c else best)"

definition best_candidate :: "stitch_view \<Rightarrow> stitch_view list \<Rightarrow> stitch_view option" where
  "best_candidate view candidates = foldl (better view) None candidates"

definition closer ::
  "stitch_view \<Rightarrow> (stitch_view option \<times> nat) \<Rightarrow> stitch_view \<Rightarrow> (stitch_view option \<times> nat)" where
  "closer view acc c =
     (let shared = common_prefix (sv_continuation c) (sv_request view) in
      if shared \<ge> 1 \<and> shared \<ge> snd acc then (Some c, shared) else acc)"

definition closest_candidate :: "stitch_view \<Rightarrow> stitch_view list \<Rightarrow> stitch_view option" where
  "closest_candidate view candidates = fst (foldl (closer view) (None, 0) candidates)"

definition place ::
  "stitch_view \<Rightarrow> stitch_view list \<Rightarrow> (string \<times> string) list \<Rightarrow> stitch_result \<Rightarrow> stitch_result option" where
  "place view candidates by_response_id result =
     (let x = sv_exchange_id view in
      if \<not> sv_parsed view \<or> sv_api view = embeddings_api then Some (new_thread result x)
      else case sv_previous_response_id view of
        Some p \<Rightarrow>
          (case map_of by_response_id p of
             None \<Rightarrow> Some (new_thread (result\<lparr>sr_gaps := sr_gaps result @
               [(mk_gap Unresolved_previous_response Partial)
                  \<lparr>gap_exchange_id := Some x, gap_previous_response_id := Some p\<rparr>]\<rparr>) x)
           | Some previous \<Rightarrow> join result x previous True)
      | None \<Rightarrow>
          (case best_candidate view candidates of
             Some b \<Rightarrow> join result x (sv_exchange_id b) True
           | None \<Rightarrow>
               (case closest_candidate view candidates of
                  None \<Rightarrow> Some (new_thread result x)
                | Some c \<Rightarrow> join (result\<lparr>sr_gaps := sr_gaps result @
                    [(mk_gap Prefix_break Info)
                       \<lparr>gap_exchange_id := Some x, gap_reason := Some ''history_rewritten''\<rparr>]\<rparr>)
                    x (sv_exchange_id c) False)))"

subsection \<open>Tool-call matching\<close>

record tool_state =
  ts_gaps :: "gap list"
  ts_emitted :: "(string \<times> string) list"
  ts_carried :: "string set"
  ts_matched :: "string set"
  ts_blind :: bool

definition tool_start :: tool_state where
  "tool_start = \<lparr>ts_gaps = [], ts_emitted = [], ts_carried = {}, ts_matched = {}, ts_blind = False\<rparr>"

definition tool_gap :: "effect \<Rightarrow> string \<Rightarrow> string \<Rightarrow> string \<Rightarrow> gap" where
  "tool_gap e x c reason = (mk_gap Unmatched_tool_call e)
     \<lparr>gap_exchange_id := Some x, gap_tool_call_id := Some c, gap_reason := Some reason\<rparr>"

definition consume :: "nat \<Rightarrow> string \<Rightarrow> tool_state \<Rightarrow> string \<Rightarrow> tool_state" where
  "consume index x st c =
     (if c \<in> fst ` set (ts_emitted st) then st\<lparr>ts_matched := insert c (ts_matched st)\<rparr>
      else if c \<notin> ts_carried st \<and> \<not> ts_blind st
      then st\<lparr>ts_gaps := ts_gaps st @
        [if index = 0 then tool_gap Info x c ''consumed_before_run''
         else tool_gap Partial x c ''consumed_not_emitted'']\<rparr>
      else st)"

definition tool_view :: "tool_state \<Rightarrow> nat \<times> stitch_view \<Rightarrow> tool_state" where
  "tool_view st iv =
     (case iv of (index, view) \<Rightarrow>
        let x = sv_exchange_id view;
            st1 = foldl (consume index x) st (sv_consumed view)
        in st1\<lparr>ts_carried := ts_carried st1 \<union> set (sv_consumed view),
               ts_blind := ts_blind st1 \<or> \<not> sv_parsed view,
               ts_emitted := foldl (\<lambda>d c. setdefault d c x) (ts_emitted st1) (sv_emitted view)\<rparr>)"

definition tool_call_gaps :: "stitch_view list \<Rightarrow> gap list" where
  "tool_call_gaps views =
     (let st = foldl tool_view tool_start (enumerate 0 views) in
      ts_gaps st @ map (\<lambda>(c, x). tool_gap Info x c ''emitted_not_consumed'')
        (filter (\<lambda>(c, x). c \<notin> ts_matched st) (ts_emitted st)))"

subsection \<open>One run\<close>

type_synonym stitch_state = "stitch_view list \<times> (string \<times> string) list \<times> stitch_result"

definition is_candidate :: "stitch_view \<Rightarrow> bool" where
  "is_candidate view \<longleftrightarrow> sv_parsed view \<and> sv_continuation view \<noteq> [] \<and> sv_api view \<noteq> embeddings_api"

fun stitch_loop :: "stitch_view list \<Rightarrow> stitch_state \<Rightarrow> stitch_state option" where
  "stitch_loop [] st = Some st"
| "stitch_loop (view # views) (candidates, by_response_id, result) =
     (case place view candidates by_response_id result of
        None \<Rightarrow> None
      | Some result' \<Rightarrow> stitch_loop views
          (if is_candidate view then candidates @ [view] else candidates,
           case sv_response_id view of None \<Rightarrow> by_response_id
             | Some r \<Rightarrow> AList.update r (sv_exchange_id view) by_response_id,
           result'))"

definition stitch_run :: "stitch_view list \<Rightarrow> stitch_result option" where
  "stitch_run views =
     (case stitch_loop views ([], [], empty_result) of
        None \<Rightarrow> None
      | Some (candidates, by_response_id, result) \<Rightarrow>
          Some (result\<lparr>sr_gaps := sr_gaps result @ tool_call_gaps views\<rparr>))"

subsection \<open>Candidates\<close>

definition fits :: "stitch_view \<Rightarrow> stitch_view \<Rightarrow> bool" where
  "fits view c \<longleftrightarrow> prefix (sv_continuation c) (sv_request view)"

lemma take_length_eq_prefix: "take (length ys) xs = ys \<longleftrightarrow> prefix ys xs"
  by (metis append_eq_conv_conj prefix_def take_is_prefix)

lemma best_candidate_Nil [simp]: "best_candidate view [] = None"
  by (simp add: best_candidate_def)

lemma best_candidate_snoc:
  "best_candidate view (cs @ [c]) =
     (if fits view c \<and> (case best_candidate view cs of None \<Rightarrow> True
          | Some b \<Rightarrow> length (sv_continuation c) \<ge> length (sv_continuation b))
      then Some c else best_candidate view cs)"
  by (simp add: best_candidate_def better_def fits_def Let_def take_length_eq_prefix)

lemma best_candidate_spec:
  "case best_candidate view cs of
     None \<Rightarrow> \<forall>c\<in>set cs. \<not> fits view c
   | Some b \<Rightarrow> b \<in> set cs \<and> fits view b \<and>
       (\<forall>c\<in>set cs. fits view c \<longrightarrow> length (sv_continuation c) \<le> length (sv_continuation b))"
proof (induction cs rule: rev_induct)
  case (snoc c cs)
  then show ?case
    by (fastforce simp: best_candidate_snoc split: option.splits)
qed simp

lemma closest_candidate_in: "closest_candidate view cs = Some c \<Longrightarrow> c \<in> set cs"
proof -
  have "fst (foldl (closer view) (None, 0) cs) = Some c \<Longrightarrow> c \<in> set cs"
    by (induction cs arbitrary: c rule: rev_induct) (auto simp: closer_def Let_def split: if_splits)
  then show "closest_candidate view cs = Some c \<Longrightarrow> c \<in> set cs"
    by (simp add: closest_candidate_def)
qed

subsection \<open>Threads\<close>

definition threads_wf :: "string list \<Rightarrow> stitch_result \<Rightarrow> bool" where
  "threads_wf ids r \<longleftrightarrow>
     map fst (sr_threads r) = map thread_name [0..<length (sr_threads r)] \<and>
     mset (concat (map snd (sr_threads r))) = mset ids \<and>
     (\<forall>x t. map_of (sr_thread_of r) x = Some t \<longleftrightarrow>
        (\<exists>ms. (t, ms) \<in> set (sr_threads r) \<and> x \<in> set ms))"

lemma thread_name_inject [simp]: "thread_name m = thread_name n \<longleftrightarrow> m = n"
  by (simp add: thread_name_def)

lemma threads_wf_distinct_names: "threads_wf ids r \<Longrightarrow> distinct (map fst (sr_threads r))"
  by (auto simp: threads_wf_def distinct_map inj_on_def)

lemma threads_wf_members: "threads_wf ids r \<Longrightarrow> (\<Union>m\<in>set (sr_threads r). set (snd m)) = set ids"
  unfolding threads_wf_def by (metis mset_eq_setD set_concat set_map image_image)

lemma threads_wf_dom: "threads_wf ids r \<Longrightarrow> x \<in> set ids \<longleftrightarrow> (\<exists>t. map_of (sr_thread_of r) x = Some t)"
  by (subst threads_wf_members [symmetric]) (force simp: threads_wf_def)+

lemma threads_wf_gaps [simp]: "threads_wf ids (r\<lparr>sr_gaps := g\<rparr>) = threads_wf ids r"
  by (simp add: threads_wf_def)

lemma threads_wf_empty: "threads_wf [] empty_result"
  by (simp add: threads_wf_def empty_result_def)

lemma new_thread_wf:
  assumes "threads_wf ids r" and "x \<notin> set ids"
  shows "threads_wf (ids @ [x]) (new_thread r x)"
proof -
  let ?n = "length (sr_threads r)"
  have names: "map fst (sr_threads r) = map thread_name [0..<?n]"
    and conc: "mset (concat (map snd (sr_threads r))) = mset ids"
    and own: "\<And>y t. map_of (sr_thread_of r) y = Some t \<longleftrightarrow>
        (\<exists>ms. (t, ms) \<in> set (sr_threads r) \<and> y \<in> set ms)"
    using assms(1) by (auto simp: threads_wf_def)
  have fresh: "thread_name ?n \<notin> fst ` set (sr_threads r)"
    using arg_cong [OF names, of set] by auto
  have absent: "x \<notin> set ms" if "(t, ms) \<in> set (sr_threads r)" for t ms
    using threads_wf_members [OF assms(1)] assms(2) that by force
  show ?thesis
    unfolding threads_wf_def
  proof (intro conjI allI)
    show "map fst (sr_threads (new_thread r x)) = map thread_name [0..<length (sr_threads (new_thread r x))]"
      using names by (simp add: new_thread_def Let_def)
    show "mset (concat (map snd (sr_threads (new_thread r x)))) = mset (ids @ [x])"
      using conc by (simp add: new_thread_def Let_def)
    show "(map_of (sr_thread_of (new_thread r x)) y = Some t) =
        (\<exists>ms. (t, ms) \<in> set (sr_threads (new_thread r x)) \<and> y \<in> set ms)" for y t
      using own [of y t] absent fresh by (auto simp: new_thread_def Let_def update_conv')
  qed
qed

lemma mset_concat_append_at:
  assumes "distinct (map fst ts)" and "t \<in> fst ` set ts"
  shows "mset (concat (map snd (map (\<lambda>(c, ms). if c = t then (c, ms @ [x]) else (c, ms)) ts))) =
     mset (concat (map snd ts)) + {#x#}"
  using assms
proof (induction ts)
  case (Cons p ts)
  obtain c ms where p: "p = (c, ms)" by (cases p)
  show ?case
  proof (cases "c = t")
    case True
    with Cons.prems(1) p have "map (\<lambda>(c, ms). if c = t then (c, ms @ [x]) else (c, ms)) ts = ts"
      by (intro map_idI) (auto simp: rev_image_eqI)
    with True p show ?thesis by simp
  next
    case False
    with Cons p show ?thesis by simp
  qed
qed simp

lemma join_wf:
  assumes wf: "threads_wf ids r" and "x \<notin> set ids" and "e \<in> set ids"
  obtains r' where "join r x e b = Some r'" and "threads_wf (ids @ [x]) r'"
proof -
  obtain t where t: "map_of (sr_thread_of r) e = Some t"
    using wf assms(3) by (auto simp: threads_wf_dom)
  define f where "f = (\<lambda>(c, ms). if c = t then (c, ms @ [x]) else (c :: string, ms))"
  obtain r' where r': "join r x e b = Some r'" and ths: "sr_threads r' = map f (sr_threads r)"
    and own': "sr_thread_of r' = AList.update x t (sr_thread_of r)"
    using t by (auto simp: join_def f_def)
  have names: "map fst (sr_threads r) = map thread_name [0..<length (sr_threads r)]"
    and conc: "mset (concat (map snd (sr_threads r))) = mset ids"
    and own: "\<And>y s. map_of (sr_thread_of r) y = Some s \<longleftrightarrow>
        (\<exists>ms. (s, ms) \<in> set (sr_threads r) \<and> y \<in> set ms)"
    using wf by (auto simp: threads_wf_def)
  have fst_f: "fst (f p) = fst p" for p
    by (simp add: f_def split: prod.splits)
  have t_in: "t \<in> fst ` set (sr_threads r)"
    using t own by force
  have absent: "x \<notin> set ms" if "(s, ms) \<in> set (sr_threads r)" for s ms
    using threads_wf_members [OF wf] assms(2) that by force
  have mem: "(s, ms) \<in> set (sr_threads r') \<longleftrightarrow>
      (\<exists>ms0. (s, ms0) \<in> set (sr_threads r) \<and> ms = (if s = t then ms0 @ [x] else ms0))" for s ms
    by (auto simp: ths f_def image_iff Bex_def split_paired_Ex)
  have "threads_wf (ids @ [x]) r'"
    unfolding threads_wf_def
  proof (intro conjI allI)
    show "map fst (sr_threads r') = map thread_name [0..<length (sr_threads r')]"
      using names by (simp add: ths fst_f comp_def)
    show "mset (concat (map snd (sr_threads r'))) = mset (ids @ [x])"
      using mset_concat_append_at [OF threads_wf_distinct_names [OF wf] t_in, of x] conc
      by (simp add: ths f_def)
    show "(map_of (sr_thread_of r') y = Some s) = (\<exists>ms. (s, ms) \<in> set (sr_threads r') \<and> y \<in> set ms)" for y s
    proof (cases "y = x")
      case True
      have "(\<exists>ms. (s, ms) \<in> set (sr_threads r') \<and> x \<in> set ms) \<longleftrightarrow> s = t"
        using absent t_in by (fastforce simp: mem split: if_splits)
      with True show ?thesis by (auto simp: own' update_conv')
    next
      case False
      have "(\<exists>ms. (s, ms) \<in> set (sr_threads r') \<and> y \<in> set ms) \<longleftrightarrow>
          (\<exists>ms. (s, ms) \<in> set (sr_threads r) \<and> y \<in> set ms)"
        using False by (cases "s = t") (fastforce simp: mem)+
      with False own show ?thesis by (simp add: own' update_conv')
    qed
  qed
  with r' that show ?thesis by blast
qed

subsection \<open>The stitching loop\<close>

text \<open>
  \<open>justified pre v u\<close>: the record supports reading \<open>v\<close> as the continuation of \<open>u\<close>. With a
  previous response id, \<open>u\<close> produced that response; otherwise \<open>u\<close>'s request plus response is the
  longest one among the exchanges \<open>pre\<close> before \<open>v\<close> that begins \<open>v\<close>'s own request.
\<close>

definition justified :: "stitch_view list \<Rightarrow> stitch_view \<Rightarrow> stitch_view \<Rightarrow> bool" where
  "justified pre v u \<longleftrightarrow>
     (case sv_previous_response_id v of
        Some p \<Rightarrow> sv_response_id u = Some p
      | None \<Rightarrow> is_candidate u \<and> fits v u \<and>
          (\<forall>w\<in>set pre. is_candidate w \<and> fits v w \<longrightarrow>
             length (sv_continuation w) \<le> length (sv_continuation u)))"

definition links_ok :: "stitch_view list \<Rightarrow> stitch_result \<Rightarrow> bool" where
  "links_ok views r \<longleftrightarrow>
     (\<forall>x y. map_of (sr_continues r) x = Some y \<longrightarrow>
        (\<exists>pre v post u. views = pre @ v # post \<and> sv_exchange_id v = x \<and> u \<in> set pre \<and>
           sv_exchange_id u = y \<and> justified pre v u \<and>
           map_of (sr_thread_of r) x = map_of (sr_thread_of r) y))"

definition stitch_inv :: "stitch_view list \<Rightarrow> stitch_state \<Rightarrow> bool" where
  "stitch_inv views st \<longleftrightarrow>
     (case st of (candidates, by_response_id, r) \<Rightarrow>
        candidates = filter is_candidate views \<and>
        (\<forall>p x. map_of by_response_id p = Some x \<longrightarrow>
           (\<exists>v\<in>set views. sv_response_id v = Some p \<and> sv_exchange_id v = x)) \<and>
        threads_wf (map sv_exchange_id views) r \<and> links_ok views r)"

lemma links_ok_gaps [simp]: "links_ok views (r\<lparr>sr_gaps := g\<rparr>) = links_ok views r"
  by (simp add: links_ok_def)

lemma links_ok_extend:
  assumes "links_ok views r" and "sv_exchange_id v \<notin> sv_exchange_id ` set views"
    and "sr_continues r' = sr_continues r"
    and "\<And>x. x \<noteq> sv_exchange_id v \<Longrightarrow> map_of (sr_thread_of r') x = map_of (sr_thread_of r) x"
  shows "links_ok (views @ [v]) r'"
  unfolding links_ok_def
proof (intro allI impI)
  fix x y
  assume "map_of (sr_continues r') x = Some y"
  then obtain pre w post u where d: "views = pre @ w # post" "sv_exchange_id w = x" "u \<in> set pre"
      "sv_exchange_id u = y" "justified pre w u" "map_of (sr_thread_of r) x = map_of (sr_thread_of r) y"
    using assms(1,3) by (fastforce simp: links_ok_def)
  then have "x \<in> sv_exchange_id ` set views" "y \<in> sv_exchange_id ` set views" by auto
  then have "x \<noteq> sv_exchange_id v" "y \<noteq> sv_exchange_id v"
    using assms(2) by blast+
  with d assms(4) have "views @ [v] = pre @ w # (post @ [v])"
    and "map_of (sr_thread_of r') x = map_of (sr_thread_of r') y" by simp_all
  with d show "\<exists>pre v' post u. views @ [v] = pre @ v' # post \<and> sv_exchange_id v' = x \<and> u \<in> set pre \<and>
      sv_exchange_id u = y \<and> justified pre v' u \<and> map_of (sr_thread_of r') x = map_of (sr_thread_of r') y"
    by blast
qed

lemma links_ok_new_thread:
  "links_ok views r \<Longrightarrow> sv_exchange_id v \<notin> sv_exchange_id ` set views \<Longrightarrow>
     links_ok (views @ [v]) (new_thread r (sv_exchange_id v))"
  by (rule links_ok_extend) (simp_all add: new_thread_def Let_def update_conv')

lemma links_ok_join_plain:
  "links_ok views r \<Longrightarrow> sv_exchange_id v \<notin> sv_exchange_id ` set views \<Longrightarrow>
     join r (sv_exchange_id v) e False = Some r' \<Longrightarrow> links_ok (views @ [v]) r'"
  by (rule links_ok_extend [of views r]) (auto simp: join_def update_conv' split: option.splits)

lemma links_ok_join:
  assumes "links_ok views r" and new: "sv_exchange_id v \<notin> sv_exchange_id ` set views"
    and j: "join r (sv_exchange_id v) (sv_exchange_id u) True = Some r'"
    and u: "u \<in> set views" and "justified views v u"
  shows "links_ok (views @ [v]) r'"
proof -
  let ?x = "sv_exchange_id v"
  obtain t where t: "map_of (sr_thread_of r) (sv_exchange_id u) = Some t"
    and c': "sr_continues r' = AList.update ?x (sv_exchange_id u) (sr_continues r)"
    and o': "sr_thread_of r' = AList.update ?x t (sr_thread_of r)"
    using j by (auto simp: join_def split: option.splits)
  have "links_ok (views @ [v]) (r'\<lparr>sr_continues := sr_continues r\<rparr>)"
    using assms(1) new by (rule links_ok_extend) (simp_all add: o' update_conv')
  moreover have "map_of (sr_thread_of r') ?x = map_of (sr_thread_of r') (sv_exchange_id u)"
    using t u new by (auto simp: o' update_conv')
  ultimately show ?thesis
    using u assms(5) by (fastforce simp: links_ok_def c' update_conv')
qed

text \<open>Placing one exchange: it never fails, and it keeps the threads and the links right.\<close>

lemma place_inv:
  assumes inv: "stitch_inv views (cs, byr, r)" and new: "sv_exchange_id v \<notin> sv_exchange_id ` set views"
  shows "\<exists>r'. place v cs byr r = Some r' \<and>
    threads_wf (map sv_exchange_id (views @ [v])) r' \<and> links_ok (views @ [v]) r'" (is "\<exists>r'. ?P r'")
proof -
  let ?x = "sv_exchange_id v"
  have cs: "cs = filter is_candidate views"
    and byr: "\<And>p y. map_of byr p = Some y \<Longrightarrow> \<exists>w\<in>set views. sv_response_id w = Some p \<and> sv_exchange_id w = y"
    and wf: "threads_wf (map sv_exchange_id views) r" and links: "links_ok views r"
    using inv by (auto simp: stitch_inv_def)
  have fresh: "?x \<notin> set (map sv_exchange_id views)" using new by simp
  have mine: "\<exists>r'. ?P r'" if "place v cs byr r = Some (new_thread (r\<lparr>sr_gaps := g\<rparr>) ?x)" for g
    using that new_thread_wf [of _ "r\<lparr>sr_gaps := g\<rparr>" ?x] links_ok_new_thread [of views "r\<lparr>sr_gaps := g\<rparr>" v]
      wf links new fresh by simp
  have joined: "\<exists>r'. ?P r'"
    if p: "place v cs byr r = join (r\<lparr>sr_gaps := g\<rparr>) ?x (sv_exchange_id u) b" and u: "u \<in> set views"
      and jst: "b \<Longrightarrow> justified views v u" for g u b
  proof -
    obtain r' where r': "join (r\<lparr>sr_gaps := g\<rparr>) ?x (sv_exchange_id u) b = Some r'"
      and "threads_wf (map sv_exchange_id views @ [?x]) r'"
      using join_wf [of "map sv_exchange_id views" "r\<lparr>sr_gaps := g\<rparr>" ?x "sv_exchange_id u" b] wf fresh u
      by auto
    moreover have "links_ok (views @ [v]) r'"
      using r' links new u jst links_ok_join [of views "r\<lparr>sr_gaps := g\<rparr>" v u r']
        links_ok_join_plain [of views "r\<lparr>sr_gaps := g\<rparr>" v "sv_exchange_id u" r'] by (cases b) auto
    ultimately show ?thesis using p by auto
  qed
  consider (own) "\<not> sv_parsed v \<or> sv_api v = embeddings_api"
    | (prev) p where "sv_parsed v" "sv_api v \<noteq> embeddings_api" "sv_previous_response_id v = Some p"
    | (digest) "sv_parsed v" "sv_api v \<noteq> embeddings_api" "sv_previous_response_id v = None"
    by (cases "sv_previous_response_id v") auto
  then show ?thesis
  proof cases
    case own
    then show ?thesis using mine [of "sr_gaps r"] by (auto simp: place_def Let_def)
  next
    case (prev p)
    show ?thesis
    proof (cases "map_of byr p")
      case None
      then show ?thesis using prev mine by (simp add: place_def Let_def)
    next
      case (Some y)
      then obtain w where "w \<in> set views" "sv_response_id w = Some p" "sv_exchange_id w = y"
        using byr by blast
      then show ?thesis
        using prev Some joined [of "sr_gaps r" w True] by (simp add: place_def Let_def justified_def)
    qed
  next
    case digest
    show ?thesis
    proof (cases "best_candidate v cs")
      case (Some b)
      with best_candidate_spec [where view = v and cs = cs] have "b \<in> set views" "justified views v b"
        using digest by (auto simp: cs justified_def)
      then show ?thesis
        using digest Some joined [of "sr_gaps r" b True] by (simp add: place_def Let_def)
    next
      case None
      show ?thesis
      proof (cases "closest_candidate v cs")
        case None
        then show ?thesis
          using digest \<open>best_candidate v cs = None\<close> mine [of "sr_gaps r"] by (simp add: place_def Let_def)
      next
        case (Some c)
        then have "c \<in> set views" using closest_candidate_in cs by fastforce
        then show ?thesis
          using digest Some \<open>best_candidate v cs = None\<close> joined [of _ c False] by (simp add: place_def Let_def)
      qed
    qed
  qed
qed

lemma stitch_loop_inv:
  assumes "stitch_inv pre st" and "distinct (map sv_exchange_id (pre @ views))"
  shows "\<exists>st'. stitch_loop views st = Some st' \<and> stitch_inv (pre @ views) st'"
  using assms
proof (induction views arbitrary: pre st)
  case Nil
  then show ?case by simp
next
  case (Cons v views)
  obtain cs byr r where st: "st = (cs, byr, r)" by (cases st)
  obtain r' where r': "place v cs byr r = Some r'"
    "threads_wf (map sv_exchange_id (pre @ [v])) r'" "links_ok (pre @ [v]) r'"
    using place_inv [of pre cs byr r v] Cons.prems st by auto
  let ?st = "(if is_candidate v then cs @ [v] else cs,
    case sv_response_id v of None \<Rightarrow> byr | Some p \<Rightarrow> AList.update p (sv_exchange_id v) byr, r')"
  have "stitch_inv (pre @ [v]) ?st"
    using Cons.prems(1) r' by (auto simp: stitch_inv_def st update_conv' split: option.splits if_splits)
  then have "\<exists>st'. stitch_loop views ?st = Some st' \<and> stitch_inv ((pre @ [v]) @ views) st'"
    using Cons.prems(2) by (intro Cons.IH) simp_all
  then show ?case using r' by (simp add: st)
qed

lemma stitch_run_inv:
  assumes "distinct (map sv_exchange_id views)"
  shows "\<exists>r. stitch_run views = Some r \<and> threads_wf (map sv_exchange_id views) r \<and> links_ok views r"
proof -
  have "stitch_inv [] ([], [], empty_result)"
    by (simp add: stitch_inv_def threads_wf_empty) (simp add: links_ok_def empty_result_def)
  from stitch_loop_inv [OF this, of views] assms
  obtain cs byr r where "stitch_loop views ([], [], empty_result) = Some (cs, byr, r)"
    and "stitch_inv views (cs, byr, r)" by auto
  then show ?thesis by (auto simp: stitch_run_def stitch_inv_def)
qed

subsection \<open>What the tool-call gaps say\<close>

text \<open>
  Positions are indices into the run's exchanges: \<open>emitted_before\<close> says an earlier exchange emitted
  the tool call, \<open>answered\<close> that a later exchange consumed it.
\<close>

definition emitted_before :: "stitch_view list \<Rightarrow> nat \<Rightarrow> string \<Rightarrow> bool" where
  "emitted_before views i c \<longleftrightarrow> (\<exists>j<i. c \<in> set (sv_emitted (views ! j)))"

definition answered :: "stitch_view list \<Rightarrow> string \<Rightarrow> bool" where
  "answered views c \<longleftrightarrow> (\<exists>i<length views. c \<in> set (sv_consumed (views ! i)) \<and> emitted_before views i c)"

definition orphan_at :: "stitch_view list \<Rightarrow> nat \<Rightarrow> string \<Rightarrow> bool" where
  "orphan_at views i c \<longleftrightarrow> i < length views \<and> c \<in> set (sv_consumed (views ! i)) \<and>
     \<not> emitted_before views i c \<and> (\<forall>j<i. c \<notin> set (sv_consumed (views ! j))) \<and>
     (\<forall>j<i. sv_parsed (views ! j))"

definition first_emitted :: "stitch_view list \<Rightarrow> string \<Rightarrow> nat \<Rightarrow> bool" where
  "first_emitted views c i \<longleftrightarrow> i < length views \<and> c \<in> set (sv_emitted (views ! i)) \<and> \<not> emitted_before views i c"

definition orphan_gap :: "stitch_view list \<Rightarrow> nat \<Rightarrow> string \<Rightarrow> gap" where
  "orphan_gap views i c =
     (if i = 0 then tool_gap Info (sv_exchange_id (views ! i)) c ''consumed_before_run''
      else tool_gap Partial (sv_exchange_id (views ! i)) c ''consumed_not_emitted'')"

lemma tool_gap_inject [simp]:
  "tool_gap e x c r = tool_gap e' x' c' r' \<longleftrightarrow> e = e' \<and> x = x' \<and> c = c' \<and> r = r'"
  by (auto simp: tool_gap_def mk_gap_def)

lemma tool_gap_simps [simp]:
  "gap_effect (tool_gap e x c r) = e" "gap_type (tool_gap e x c r) = Unmatched_tool_call"
  by (simp_all add: tool_gap_def)

lemma foldl_consume:
  "foldl (consume i x) st cs =
     st\<lparr>ts_gaps := ts_gaps st @ map (\<lambda>c. if i = 0 then tool_gap Info x c ''consumed_before_run''
          else tool_gap Partial x c ''consumed_not_emitted'')
          (filter (\<lambda>c. c \<notin> fst ` set (ts_emitted st) \<and> c \<notin> ts_carried st \<and> \<not> ts_blind st) cs),
        ts_matched := ts_matched st \<union> (set cs \<inter> fst ` set (ts_emitted st))\<rparr>"
  by (induction cs arbitrary: st) (auto simp: consume_def)

lemma map_of_foldl_setdefault:
  "map_of (foldl (\<lambda>d c. setdefault d c x) d cs) c =
     (case map_of d c of Some y \<Rightarrow> Some y | None \<Rightarrow> if c \<in> set cs then Some x else None)"
  by (induction cs arbitrary: d) (auto simp: map_of_setdefault split: option.splits)

lemma distinct_foldl_setdefault:
  "distinct (map fst d) \<Longrightarrow> distinct (map fst (foldl (\<lambda>d c. setdefault d c x) d cs))"
  by (induction cs arbitrary: d) auto

definition tool_inv :: "stitch_view list \<Rightarrow> tool_state \<Rightarrow> bool" where
  "tool_inv views st \<longleftrightarrow>
     set (ts_gaps st) = {orphan_gap views i c | i c. orphan_at views i c} \<and>
     distinct (map fst (ts_emitted st)) \<and>
     (\<forall>c y. map_of (ts_emitted st) c = Some y \<longleftrightarrow>
        (\<exists>i. first_emitted views c i \<and> y = sv_exchange_id (views ! i))) \<and>
     ts_carried st = {c. \<exists>i<length views. c \<in> set (sv_consumed (views ! i))} \<and>
     ts_matched st = {c. answered views c} \<and>
     ts_blind st = (\<exists>i<length views. \<not> sv_parsed (views ! i))"

lemma emitted_before_snoc [simp]:
  "i \<le> length views \<Longrightarrow> emitted_before (views @ [v]) i c = emitted_before views i c"
  by (simp add: emitted_before_def nth_append cong: conj_cong)

lemma answered_snoc:
  "answered (views @ [v]) c \<longleftrightarrow>
     answered views c \<or> c \<in> set (sv_consumed v) \<and> emitted_before views (length views) c"
  by (simp add: answered_def less_Suc_eq conj_disj_distribR ex_disj_distrib nth_append cong: conj_cong)

lemma orphan_at_snoc:
  "orphan_at (views @ [v]) i c \<longleftrightarrow>
     orphan_at views i c \<or>
     i = length views \<and> c \<in> set (sv_consumed v) \<and> \<not> emitted_before views i c \<and>
     (\<forall>j<i. c \<notin> set (sv_consumed (views ! j))) \<and> (\<forall>j<i. sv_parsed (views ! j))"
  by (auto simp: orphan_at_def less_Suc_eq nth_append)

lemma first_emitted_snoc:
  "first_emitted (views @ [v]) c i \<longleftrightarrow>
     first_emitted views c i \<or> i = length views \<and> c \<in> set (sv_emitted v) \<and> \<not> emitted_before views i c"
  by (auto simp: first_emitted_def less_Suc_eq nth_append)

lemma emitted_before_first:
  "emitted_before views (length views) c \<longleftrightarrow> (\<exists>i. first_emitted views c i)"
proof
  assume "emitted_before views (length views) c"
  then obtain j where j: "j < length views" "c \<in> set (sv_emitted (views ! j))"
    by (auto simp: emitted_before_def)
  let ?P = "\<lambda>i. i < length views \<and> c \<in> set (sv_emitted (views ! i))"
  obtain i where "?P i" and "\<forall>m<i. \<not> ?P m"
    using j exists_least_iff [of ?P] by blast
  then have "first_emitted views c i"
    by (simp add: first_emitted_def emitted_before_def)
  then show "\<exists>i. first_emitted views c i" by blast
qed (auto simp: first_emitted_def emitted_before_def)

lemma first_emitted_unique: "first_emitted views c i \<Longrightarrow> first_emitted views c j \<Longrightarrow> i = j"
  by (cases i j rule: linorder_cases) (auto simp: first_emitted_def emitted_before_def)

lemma orphan_gap_snoc [simp]: "i < length views \<Longrightarrow> orphan_gap (views @ [v]) i c = orphan_gap views i c"
  by (auto simp: orphan_gap_def nth_append)

lemma tool_inv_emitted:
  assumes "tool_inv views st"
  shows "c \<in> fst ` set (ts_emitted st) \<longleftrightarrow> emitted_before views (length views) c"
proof -
  have "c \<in> fst ` set (ts_emitted st) \<longleftrightarrow> (\<exists>y. map_of (ts_emitted st) c = Some y)"
    by (metis map_of_eq_None_iff not_None_eq)
  then show ?thesis
    using assms by (auto simp: tool_inv_def emitted_before_first)
qed

lemma tool_view_inv:
  assumes inv: "tool_inv views st"
  shows "tool_inv (views @ [v]) (tool_view st (length views, v))"
proof -
  let ?n = "length views" and ?x = "sv_exchange_id v"
  let ?st = "tool_view st (?n, v)"
  note em = tool_inv_emitted [OF inv]
  have orphan_new: "orphan_at (views @ [v]) i c \<longleftrightarrow> orphan_at views i c \<or>
      i = ?n \<and> c \<in> set (sv_consumed v) \<and> c \<notin> fst ` set (ts_emitted st) \<and> c \<notin> ts_carried st \<and> \<not> ts_blind st"
    for i c
    using inv by (auto simp: orphan_at_snoc em tool_inv_def)
  have same: "orphan_at views i c \<Longrightarrow> orphan_gap (views @ [v]) i c = orphan_gap views i c" for i c
    by (simp add: orphan_at_def)
  have gaps: "set (ts_gaps ?st) = {orphan_gap (views @ [v]) i c | i c. orphan_at (views @ [v]) i c}"
  proof -
    let ?new = "\<lambda>c. c \<in> set (sv_consumed v) \<and> c \<notin> fst ` set (ts_emitted st) \<and> c \<notin> ts_carried st \<and> \<not> ts_blind st"
    have g: "orphan_gap (views @ [v]) ?n = (\<lambda>c. if ?n = 0 then tool_gap Info ?x c ''consumed_before_run''
        else tool_gap Partial ?x c ''consumed_not_emitted'')"
      by (simp add: orphan_gap_def nth_append fun_eq_iff)
    have "{orphan_gap (views @ [v]) i c | i c. orphan_at (views @ [v]) i c} =
        {orphan_gap (views @ [v]) i c | i c. orphan_at views i c} \<union> orphan_gap (views @ [v]) ?n ` {c. ?new c}"
      unfolding orphan_new by blast
    moreover have "set (ts_gaps st) = {orphan_gap (views @ [v]) i c | i c. orphan_at views i c}"
      using inv by (simp add: tool_inv_def same cong: rev_conj_cong)
    moreover have "set (ts_gaps ?st) = set (ts_gaps st) \<union> orphan_gap (views @ [v]) ?n ` {c. ?new c}"
      unfolding g by (simp add: tool_view_def Let_def foldl_consume)
    ultimately show ?thesis by simp
  qed
  have emitted: "map_of (ts_emitted ?st) c = Some y \<longleftrightarrow>
      (\<exists>i. first_emitted (views @ [v]) c i \<and> y = sv_exchange_id ((views @ [v]) ! i))" for c y
  proof (cases "map_of (ts_emitted st) c")
    case None
    then have nb: "\<not> emitted_before views ?n c" using em by (metis map_of_eq_None_iff)
    then have "\<not> first_emitted views c i" for i using emitted_before_first by blast
    then show ?thesis
      using None nb by (auto simp: tool_view_def Let_def foldl_consume map_of_foldl_setdefault first_emitted_snoc)
  next
    case (Some z)
    then obtain i where i: "first_emitted views c i" "z = sv_exchange_id (views ! i)"
      using inv by (auto simp: tool_inv_def)
    then have "i < ?n" "emitted_before views ?n c"
      by (auto simp: first_emitted_def emitted_before_def)
    then show ?thesis
      using Some i by (auto simp: tool_view_def Let_def foldl_consume map_of_foldl_setdefault
          first_emitted_snoc nth_append dest: first_emitted_unique)
  qed
  have "distinct (map fst (ts_emitted ?st))"
    using inv by (simp add: tool_inv_def tool_view_def Let_def foldl_consume distinct_foldl_setdefault)
  moreover have "ts_carried ?st = {c. \<exists>i<length (views @ [v]). c \<in> set (sv_consumed ((views @ [v]) ! i))}"
    using inv by (auto simp: tool_inv_def tool_view_def Let_def foldl_consume less_Suc_eq nth_append)
  moreover have "ts_matched ?st = {c. answered (views @ [v]) c}"
    using inv em by (auto simp: tool_inv_def tool_view_def Let_def foldl_consume answered_snoc)
  moreover have "ts_blind ?st = (\<exists>i<length (views @ [v]). \<not> sv_parsed ((views @ [v]) ! i))"
    using inv by (auto simp: tool_inv_def tool_view_def Let_def foldl_consume less_Suc_eq nth_append)
  ultimately show ?thesis
    using gaps emitted by (simp add: tool_inv_def)
qed

lemma tool_inv_run: "tool_inv views (foldl tool_view tool_start (enumerate 0 views))"
proof (induction views rule: rev_induct)
  case Nil
  show ?case
    by (simp add: tool_inv_def tool_start_def orphan_at_def first_emitted_def answered_def)
next
  case (snoc v views)
  then show ?case by (simp add: enumerate_append_eq tool_view_inv)
qed

text \<open>The whole list: orphans of the consumed ids, and every emitted id no later exchange consumed.\<close>

lemma set_tool_call_gaps:
  "set (tool_call_gaps views) =
     {orphan_gap views i c | i c. orphan_at views i c} \<union>
     {tool_gap Info (sv_exchange_id (views ! i)) c ''emitted_not_consumed'' | i c.
        first_emitted views c i \<and> \<not> answered views c}"
proof -
  let ?st = "foldl tool_view tool_start (enumerate 0 views)"
  have inv: "tool_inv views ?st" by (rule tool_inv_run)
  have "(c, y) \<in> set (ts_emitted ?st) \<longleftrightarrow> (\<exists>i. first_emitted views c i \<and> y = sv_exchange_id (views ! i))" for c y
    using inv unfolding tool_inv_def by (metis map_of_SomeD map_of_is_SomeI)
  then show ?thesis
    using inv by (fastforce simp: tool_call_gaps_def Let_def tool_inv_def image_iff)
qed

subsection \<open>Properties\<close>

definition sample_view :: "string \<Rightarrow> string list \<Rightarrow> string list \<Rightarrow> string list \<Rightarrow> string list \<Rightarrow> stitch_view" where
  "sample_view x req cont consumed emitted = \<lparr>sv_exchange_id = x, sv_api = ''openai.chat'', sv_parsed = True,
     sv_request = req, sv_continuation = cont, sv_consumed = consumed, sv_emitted = emitted,
     sv_response_id = None, sv_previous_response_id = None\<rparr>"

text \<open>
  C22. Stitching a run whose exchange ids are distinct always succeeds (no look-up of an unknown
  exchange) and partitions the exchanges: threads are numbered in order of creation, every exchange is
  in exactly one thread, once, and the exchange-to-thread table agrees with the threads.
\<close>

theorem stitch_run_partitions:
  assumes "distinct (map sv_exchange_id views)"
  shows "\<exists>r. stitch_run views = Some r \<and>
    map fst (sr_threads r) = map thread_name [0..<length (sr_threads r)] \<and>
    mset (concat (map snd (sr_threads r))) = mset (map sv_exchange_id views) \<and>
    (\<forall>x t. map_of (sr_thread_of r) x = Some t \<longleftrightarrow> (\<exists>ms. (t, ms) \<in> set (sr_threads r) \<and> x \<in> set ms))"
  using stitch_run_inv [OF assms] by (auto simp: threads_wf_def)

theorem stitch_run_partitions_witness:
  "\<exists>r. stitch_run [sample_view ''x1'' [''a''] [''a'', ''b''] [] [], sample_view ''x2'' [''a'', ''b'', ''c''] [] [] []] = Some r \<and>
    mset (concat (map snd (sr_threads r))) = {#''x1'', ''x2''#}"
  using stitch_run_partitions
    [of "[sample_view ''x1'' [''a''] [''a'', ''b''] [] [], sample_view ''x2'' [''a'', ''b'', ''c''] [] [] []]"]
  by (auto simp: sample_view_def)

text \<open>
  C16. Every continuation is justified: the continued exchange comes earlier in the run, is in the same
  thread, and either returned the response id the exchange names, or is a parsed exchange whose
  transcript is a prefix of this request, and no earlier candidate has a longer matching transcript.
\<close>

theorem continuation_justified:
  assumes "distinct (map sv_exchange_id views)" and "stitch_run views = Some r"
    and "map_of (sr_continues r) x = Some y"
  shows "\<exists>pre v post u. views = pre @ v # post \<and> sv_exchange_id v = x \<and> u \<in> set pre \<and> sv_exchange_id u = y \<and>
    map_of (sr_thread_of r) x = map_of (sr_thread_of r) y \<and>
    (case sv_previous_response_id v of
       Some p \<Rightarrow> sv_response_id u = Some p
     | None \<Rightarrow> is_candidate u \<and> prefix (sv_continuation u) (sv_request v) \<and>
         (\<forall>w\<in>set pre. is_candidate w \<and> prefix (sv_continuation w) (sv_request v) \<longrightarrow>
            length (sv_continuation w) \<le> length (sv_continuation u)))"
proof -
  have "links_ok views r" using stitch_run_inv [OF assms(1)] assms(2) by auto
  with assms(3) show ?thesis unfolding links_ok_def justified_def fits_def by blast
qed

theorem continuation_justified_witness:
  "\<exists>r pre v post u. stitch_run [sample_view ''x1'' [''a''] [''a'', ''b''] [] [], sample_view ''x2'' [''a'', ''b'', ''c''] [] [] []] = Some r \<and>
    [sample_view ''x1'' [''a''] [''a'', ''b''] [] [], sample_view ''x2'' [''a'', ''b'', ''c''] [] [] []] = pre @ v # post \<and>
    sv_exchange_id v = ''x2'' \<and> u \<in> set pre \<and> sv_exchange_id u = ''x1''"
proof -
  let ?vs = "[sample_view ''x1'' [''a''] [''a'', ''b''] [] [], sample_view ''x2'' [''a'', ''b'', ''c''] [] [] []]"
  have "map_option (\<lambda>r. map_of (sr_continues r) ''x2'') (stitch_run ?vs) = Some (Some ''x1'')" by code_simp
  then obtain r where r: "stitch_run ?vs = Some r" "map_of (sr_continues r) ''x2'' = Some ''x1''" by blast
  have "distinct (map sv_exchange_id ?vs)" by (simp add: sample_view_def)
  from continuation_justified [OF this r] r(1) show ?thesis by blast
qed

text \<open>
  C21. The tool-call gaps are exactly these: for each exchange that consumes a call result which no earlier
  exchange emitted, consumed or could have hidden (an earlier unparsed exchange), one gap, informative
  in the first exchange and partial later; and for each call never answered after it was emitted, one
  informative gap at the first exchange that emitted it.
\<close>

theorem tool_call_gaps_exact:
  "set (tool_call_gaps views) =
     {(if i = 0 then tool_gap Info (sv_exchange_id (views ! i)) c ''consumed_before_run''
       else tool_gap Partial (sv_exchange_id (views ! i)) c ''consumed_not_emitted'') | i c.
        i < length views \<and> c \<in> set (sv_consumed (views ! i)) \<and>
        \<not> emitted_before views i c \<and> (\<forall>j<i. c \<notin> set (sv_consumed (views ! j))) \<and>
        (\<forall>j<i. sv_parsed (views ! j))} \<union>
     {tool_gap Info (sv_exchange_id (views ! i)) c ''emitted_not_consumed'' | i c.
        i < length views \<and> c \<in> set (sv_emitted (views ! i)) \<and> \<not> emitted_before views i c \<and> \<not> answered views c}"
  (is "_ = ?orphans \<union> ?unanswered")
proof -
  have "{orphan_gap views i c | i c. orphan_at views i c} = ?orphans"
    unfolding orphan_gap_def orphan_at_def by (rule refl)
  moreover have "{tool_gap Info (sv_exchange_id (views ! i)) c ''emitted_not_consumed'' | i c.
        first_emitted views c i \<and> \<not> answered views c} = ?unanswered"
    unfolding first_emitted_def by (rule Collect_cong) blast
  ultimately show ?thesis by (simp only: set_tool_call_gaps)
qed

theorem tool_call_gaps_exact_witness:
  "tool_gap Partial ''x2'' ''t9'' ''consumed_not_emitted'' \<in>
     set (tool_call_gaps [sample_view ''x1'' [] [] [] [''t1''], sample_view ''x2'' [] [] [''t1'', ''t9''] []])"
  unfolding tool_call_gaps_exact
  by (rule UnI1, rule CollectI, rule exI [of _ 1], rule exI [of _ "''t9''"])
    (simp add: sample_view_def emitted_before_def less_Suc_eq)

end
