(* ===== verification/Bisect.thy ===== *)
theory Bisect
  imports Prelude
begin

text \<open>
  Python's \<^verbatim>\<open>bisect.bisect_left\<close> and \<^verbatim>\<open>bisect.bisect_right\<close>, which the verifier uses to look up ranges
  in its flat arrays. Both are the same binary search with another test; on a list that the test
  splits into a prefix and a rest they return the length of the prefix. The search is stated once as
  a locale over the test and interpreted for both.
\<close>

function bsearch :: "('a \<Rightarrow> bool) \<Rightarrow> 'a list \<Rightarrow> nat \<Rightarrow> nat \<Rightarrow> nat" where
  "bsearch before xs lo hi =
     (if lo < hi then
        let mid = (lo + hi) div 2 in
        if before (xs ! mid) then bsearch before xs (mid + 1) hi else bsearch before xs lo mid
      else lo)"
  by pat_completeness auto
termination
  by (relation "measure (\<lambda>(before, xs, lo, hi). hi - lo)") auto

declare bsearch.simps [simp del]

definition bisect_left :: "'a::linorder list \<Rightarrow> 'a \<Rightarrow> nat" where
  "bisect_left xs v = bsearch (\<lambda>x. x < v) xs 0 (length xs)"

definition bisect_right :: "'a::linorder list \<Rightarrow> 'a \<Rightarrow> nat" where
  "bisect_right xs v = bsearch (\<lambda>x. \<not> v < x) xs 0 (length xs)"

lemma bsearch_split:
  assumes below: "\<And>i. i < k \<Longrightarrow> before (xs ! i)"
    and above: "\<And>i. k \<le> i \<Longrightarrow> i < length xs \<Longrightarrow> \<not> before (xs ! i)"
  shows "lo \<le> k \<Longrightarrow> k \<le> hi \<Longrightarrow> hi \<le> length xs \<Longrightarrow> bsearch before xs lo hi = k"
proof (induction "hi - lo" arbitrary: lo hi rule: less_induct)
  case less
  let ?m = "(lo + hi) div 2"
  show ?case
  proof (cases "lo < hi")
    case True
    show ?thesis
    proof (cases "?m < k")
      case True
      with less.prems \<open>lo < hi\<close> have "bsearch before xs (?m + 1) hi = k"
        by (intro less.hyps) auto
      with below [OF True] \<open>lo < hi\<close> show ?thesis
        by (simp add: bsearch.simps [of before xs lo hi] Let_def)
    next
      case False
      then have "k \<le> ?m" by simp
      with less.prems \<open>lo < hi\<close> have "bsearch before xs lo ?m = k"
        by (intro less.hyps) auto
      moreover have "\<not> before (xs ! ?m)"
        using \<open>k \<le> ?m\<close> \<open>lo < hi\<close> less.prems(3) by (intro above) auto
      ultimately show ?thesis
        using \<open>lo < hi\<close> by (simp add: bsearch.simps [of before xs lo hi] Let_def)
    qed
  next
    case False
    with less.prems show ?thesis by (simp add: bsearch.simps [of before xs lo hi])
  qed
qed

text \<open>A test that holds on an initial part of the order; both bisections use one.\<close>

locale lower_test =
  fixes before :: "'a::linorder \<Rightarrow> bool"
  assumes lower: "x \<le> y \<Longrightarrow> before y \<Longrightarrow> before x"
begin

lemma bsearch_sorted:
  assumes "sorted xs"
  shows "bsearch before xs 0 (length xs) = length (takeWhile before xs)"
proof (rule bsearch_split)
  fix i
  assume "i < length (takeWhile before xs)"
  then show "before (xs ! i)"
    by (metis nth_mem set_takeWhileD takeWhile_nth)
next
  fix i
  let ?k = "length (takeWhile before xs)"
  assume i: "?k \<le> i" "i < length xs"
  then have "\<not> before (xs ! ?k)" by (intro nth_length_takeWhile) simp
  moreover have "xs ! ?k \<le> xs ! i"
    using assms i by (simp add: sorted_nth_mono)
  ultimately show "\<not> before (xs ! i)" using lower by blast
qed (simp_all add: length_takeWhile_le)

lemma takeWhile_sorted:
  assumes "sorted xs"
  shows "takeWhile before xs = filter before xs"
  using assms
proof (induction xs)
  case (Cons x xs)
  have "filter before xs = []" if "\<not> before x"
    using that Cons.prems lower by (auto simp: filter_empty_conv)
  with Cons show ?case by auto
qed simp

lemma bsearch_nth:
  assumes "sorted xs" and "i < length xs"
  shows "i < bsearch before xs 0 (length xs) \<longleftrightarrow> before (xs ! i)"
proof -
  let ?k = "length (takeWhile before xs)"
  have "before (xs ! i)" if "i < ?k"
    using that by (metis nth_mem set_takeWhileD takeWhile_nth)
  moreover have "\<not> before (xs ! i)" if "?k \<le> i"
  proof -
    have "\<not> before (xs ! ?k)" using that assms(2) by (intro nth_length_takeWhile) simp
    moreover have "xs ! ?k \<le> xs ! i" using assms that by (simp add: sorted_nth_mono)
    ultimately show ?thesis using lower by blast
  qed
  ultimately show ?thesis using bsearch_sorted [OF assms(1)] by (metis not_le)
qed

lemma bsearch_le: "sorted xs \<Longrightarrow> bsearch before xs 0 (length xs) \<le> length xs"
  by (simp add: bsearch_sorted length_takeWhile_le)

end

interpretation bleft: lower_test "\<lambda>x. x < v" for v :: "'a::linorder"
  by unfold_locales auto

interpretation bright: lower_test "\<lambda>x. \<not> v < x" for v :: "'a::linorder"
  by unfold_locales auto

lemma bisect_left_nth:
  "sorted xs \<Longrightarrow> i < length xs \<Longrightarrow> i < bisect_left xs v \<longleftrightarrow> xs ! i < v"
  unfolding bisect_left_def by (rule bleft.bsearch_nth)

lemma bisect_right_nth:
  "sorted xs \<Longrightarrow> i < length xs \<Longrightarrow> i < bisect_right xs v \<longleftrightarrow> xs ! i \<le> v"
  unfolding bisect_right_def by (subst bright.bsearch_nth) auto

lemma bisect_left_le: "sorted xs \<Longrightarrow> bisect_left xs v \<le> length xs"
  unfolding bisect_left_def by (rule bleft.bsearch_le)

lemma bisect_right_le: "sorted xs \<Longrightarrow> bisect_right xs v \<le> length xs"
  unfolding bisect_right_def by (rule bright.bsearch_le)

lemma bisect_left_takeWhile: "sorted xs \<Longrightarrow> bisect_left xs v = length (filter (\<lambda>x. x < v) xs)"
  unfolding bisect_left_def by (simp add: bleft.bsearch_sorted bleft.takeWhile_sorted)

lemma bisect_right_takeWhile: "sorted xs \<Longrightarrow> bisect_right xs v = length (filter (\<lambda>x. x \<le> v) xs)"
  using bright.bsearch_sorted [of xs v] bright.takeWhile_sorted [of xs v]
  by (simp add: bisect_right_def not_less)

text \<open>The elements between the two bisections are exactly those in the closed range.\<close>

lemma bisect_slice:
  assumes "sorted xs"
  shows "set (drop (bisect_left xs a) (take (bisect_right xs b) xs)) = {x \<in> set xs. a \<le> x \<and> x \<le> b}"
proof (intro set_eqI iffI)
  fix x
  assume "x \<in> set (drop (bisect_left xs a) (take (bisect_right xs b) xs))"
  then obtain j where j: "j < length (drop (bisect_left xs a) (take (bisect_right xs b) xs))"
    and x: "x = drop (bisect_left xs a) (take (bisect_right xs b) xs) ! j"
    by (metis in_set_conv_nth)
  let ?i = "bisect_left xs a + j"
  have i: "?i < length xs" "?i < bisect_right xs b" "\<not> ?i < bisect_left xs a"
    using j by auto
  have "bisect_left xs a \<le> length (take (bisect_right xs b) xs)" using i j by auto
  then have "x = xs ! ?i" using x i(2) by (simp add: nth_drop)
  then show "x \<in> {x \<in> set xs. a \<le> x \<and> x \<le> b}"
    using i bisect_left_nth [OF assms i(1), of a] bisect_right_nth [OF assms i(1), of b] by auto
next
  fix x
  assume "x \<in> {x \<in> set xs. a \<le> x \<and> x \<le> b}"
  then obtain i where i: "i < length xs" "x = xs ! i" "a \<le> xs ! i" "xs ! i \<le> b"
    by (auto simp: in_set_conv_nth)
  then have lo: "bisect_left xs a \<le> i" and hi: "i < bisect_right xs b"
    using bisect_left_nth [OF assms i(1), of a] bisect_right_nth [OF assms i(1), of b] by auto
  then have "drop (bisect_left xs a) (take (bisect_right xs b) xs) ! (i - bisect_left xs a) = x"
    using i by simp
  moreover have "i - bisect_left xs a < length (drop (bisect_left xs a) (take (bisect_right xs b) xs))"
    using i lo hi by simp
  ultimately show "x \<in> set (drop (bisect_left xs a) (take (bisect_right xs b) xs))"
    by (metis nth_mem)
qed

end
