(* ===== verification/Observations.thy ===== *)
theory Observations
  imports Prelude
begin

text \<open>
  The verifier's observations (\<^verbatim>\<open>sdk/python/src/fabric/reconstruct/_inputs.py\<close>): one record type per
  dataclass. A dataclass field declared with \<^verbatim>\<open>compare=False\<close> is not part of the value's identity, so
  each type has an identity function that resets those fields, and a Python set of observations is a
  list that keeps the first of equal elements (\<open>add_by\<close>).
\<close>

record span_record =
  sp_trace_id :: string
  sp_span_id :: string
  sp_parent_span_id :: "string option"
  sp_name :: string
  sp_start_ns :: int
  sp_end_ns :: int
  sp_attributes :: "(string \<times> json) list"
  sp_resource :: "(string \<times> json) list"
  sp_status :: string
  sp_kind :: "string option"

record exchange_obs =
  x_exchange_id :: string
  x_source_id :: string
  x_source_epoch :: int
  x_source_sequence :: int
  x_run_id :: string
  x_api :: string
  x_response_state :: string
  x_store_status :: string
  x_truncated :: bool
  x_request_sha256 :: "string option"
  x_response_sha256 :: "string option"
  x_request_ref :: "string option"
  x_response_ref :: "string option"
  x_start_ns :: int
  x_end_ns :: int
  x_trace_id :: "string option"
  x_span_id :: "string option"
  x_model :: "string option"
  x_response_id :: "string option"
  x_http_status :: "int option"
  x_scope_id :: "string option"
  x_malformed :: bool
  x_authenticated :: bool
  x_segment_id :: "string option"
  x_fingerprint :: "string option"
  x_span :: "span_record option"
  x_endpoint_id :: "string option"

record loss_obs =
  l_source_id :: string
  l_source_epoch :: int
  l_reason :: string
  l_count :: int
  l_first_sequence :: int
  l_last_sequence :: int
  l_authenticated :: bool
  l_segment_id :: "string option"

record run_marker_info =
  i_predecessors :: "string list"
  i_branch_ids :: "string list"
  i_declared_branches :: "string list"
  i_resumable :: "bool option"
  i_open_deadline_s :: "int option"
  i_id_basis :: "string option"
  i_manifest_id :: "string option"
  i_manifest_digest :: "string option"
  i_session_id :: "string option"
  i_user_id :: "string option"
  i_parent_run_id :: "string option"
  i_resumed_from :: "string option"
  i_links :: "string list"
  i_outcome :: "string option"
  i_stop_reason :: "string option"
  i_scope_status :: "string option"
  i_start_ns :: int
  i_event_id :: "string option"

datatype heartbeat_kind = Periodic | Run_start | Run_end | Final | Segment_seal

record heartbeat_obs =
  h_source_id :: string
  h_source_epoch :: int
  h_kind :: "heartbeat_kind option"
  h_run_id :: "string option"
  h_last_sequence :: int
  h_scope_id :: "string option"
  h_authenticated :: bool
  h_segment_id :: "string option"
  h_info :: "run_marker_info option"
  h_manifest_seq :: "int option"

record malformed_marker_obs =
  mm_scope_id :: string
  mm_heartbeat :: "heartbeat_obs option"

record record_obs =
  r_source_id :: string
  r_source_epoch :: int
  r_source_sequence :: int
  r_event_id :: string
  r_attempt_uid :: string
  r_run_id :: "string option"
  r_scope_id :: "string option"
  r_segment_id :: "string option"
  r_fingerprint :: string
  r_span :: span_record
  r_authenticated :: bool

record segment_seal_obs =
  ss_source_id :: string
  ss_source_epoch :: int
  ss_last_sequence :: int
  ss_segment_id :: string
  ss_seal_last_sequence :: int
  ss_seal_digest :: string
  ss_manifest_digest :: "string option"
  ss_terminal :: "bool option"
  ss_resumable :: "bool option"
  ss_branch_ids :: "string list"
  ss_run_id :: "string option"
  ss_scope_id :: "string option"
  ss_manifest_seq :: "int option"
  ss_authenticated :: bool
  ss_sealed_ns :: "int option"

record manifest_obs =
  m_source_id :: string
  m_source_epoch :: int
  m_manifest_id :: string
  m_manifest_seq :: int
  m_after_source_sequence :: int
  m_previous_sha256 :: "string option"
  m_unsealed_prior_epochs :: "int list"
  m_sha256 :: string
  m_document :: json
  m_authenticated :: bool

datatype observation =
    Exchange_obs exchange_obs
  | Loss_obs loss_obs
  | Heartbeat_obs heartbeat_obs
  | Malformed_marker_obs malformed_marker_obs
  | Record_obs record_obs
  | Segment_seal_obs segment_seal_obs
  | Manifest_obs manifest_obs

definition x_source :: "exchange_obs \<Rightarrow> source_key" where
  "x_source x = (x_source_id x, x_source_epoch x)"

definition r_source :: "record_obs \<Rightarrow> source_key" where
  "r_source r = (r_source_id r, r_source_epoch r)"

definition ss_source :: "segment_seal_obs \<Rightarrow> source_key" where
  "ss_source s = (ss_source_id s, ss_source_epoch s)"

definition m_source :: "manifest_obs \<Rightarrow> source_key" where
  "m_source m = (m_source_id m, m_source_epoch m)"

definition l_source :: "loss_obs \<Rightarrow> source_key" where
  "l_source l = (l_source_id l, l_source_epoch l)"

definition h_source :: "heartbeat_obs \<Rightarrow> source_key" where
  "h_source h = (h_source_id h, h_source_epoch h)"

subsection \<open>Identity\<close>

definition exchange_ident :: "exchange_obs \<Rightarrow> exchange_obs" where
  "exchange_ident x = x\<lparr>x_authenticated := False, x_span := None, x_endpoint_id := None\<rparr>"

definition loss_ident :: "loss_obs \<Rightarrow> loss_obs" where
  "loss_ident l = l\<lparr>l_authenticated := False\<rparr>"

definition info_ident :: "run_marker_info \<Rightarrow> run_marker_info" where
  "info_ident i = i\<lparr>i_start_ns := 0, i_event_id := None\<rparr>"

definition heartbeat_ident :: "heartbeat_obs \<Rightarrow> heartbeat_obs" where
  "heartbeat_ident h =
     h\<lparr>h_authenticated := False, h_manifest_seq := None, h_info := map_option info_ident (h_info h)\<rparr>"

definition blank_span :: span_record where
  "blank_span = \<lparr>sp_trace_id = '''', sp_span_id = '''', sp_parent_span_id = None, sp_name = '''',
     sp_start_ns = 0, sp_end_ns = 0, sp_attributes = [], sp_resource = [], sp_status = ''unset'',
     sp_kind = None\<rparr>"

definition record_ident :: "record_obs \<Rightarrow> record_obs" where
  "record_ident r = r\<lparr>r_span := blank_span, r_authenticated := False\<rparr>"

definition seal_ident :: "segment_seal_obs \<Rightarrow> segment_seal_obs" where
  "seal_ident s = s\<lparr>ss_authenticated := False, ss_sealed_ns := None\<rparr>"

definition manifest_ident :: "manifest_obs \<Rightarrow> manifest_obs" where
  "manifest_ident m = m\<lparr>m_document := JNull, m_authenticated := False\<rparr>"

definition add_by :: "('a \<Rightarrow> 'b) \<Rightarrow> 'a \<Rightarrow> 'a list \<Rightarrow> 'a list" where
  "add_by ident x xs = (if ident x \<in> ident ` set xs then xs else xs @ [x])"

lemma add_by_ident: "ident ` set (add_by ident x xs) = insert (ident x) (ident ` set xs)"
  by (auto simp: add_by_def)

lemma add_by_distinct: "distinct (map ident xs) \<Longrightarrow> distinct (map ident (add_by ident x xs))"
  by (auto simp: add_by_def)

lemma add_by_subset: "set xs \<subseteq> set (add_by ident x xs)" "set (add_by ident x xs) \<subseteq> insert x (set xs)"
  by (auto simp: add_by_def)

end
