(* ===== verification/Accounting.thy ===== *)
theory Accounting
  imports Bisect Observations Report
begin

text \<open>
  Per-source sequence accounting of the verifier
  (\<^verbatim>\<open>sdk/python/src/fabric/reconstruct/_verify.py\<close>, class \<^verbatim>\<open>_Source\<close> and the range look-ups of
  \<^verbatim>\<open>_Run\<close>). A source epoch's observed sequences and loss records give its missing ranges, split into
  parts a loss explains and parts nothing explains; the parts are kept in flat sorted arrays and looked
  up by bisection. The lemmas show that the missing ranges are exactly the unobserved sequences up to
  the top, that the single sweep over the losses equals splitting every range against all of them,
  what each part says, and that the gaps reported for a window are empty exactly when nothing in the
  window is missing or claimed twice.
\<close>

type_synonym segment_part = "int \<times> int \<times> string option"

record source =
  s_key :: source_key
  s_sequences :: "int list"
  s_losses :: "loss_obs list"
  s_heartbeat :: int
  s_final :: "int option"
  s_top :: int
  s_missing :: "int_range list"
  s_missing_low :: "int list"
  s_missing_high :: "int list"
  s_seg_low :: "int list"
  s_seg_high :: "int list"
  s_seg_reason :: "string option list"
  s_segment_of :: "nat list"
  s_by_reason :: "(string option \<times> nat list) list"
  s_conflicted :: "int list"
  s_conflicted_sorted :: "int list"
  s_manifests :: "manifest_obs list"
  s_unsealed_epochs :: "int list"
  s_manifestless :: "(int \<times> int option \<times> string) list"
  s_manifest_conflict :: bool

definition new_source :: "source_key \<Rightarrow> source" where
  "new_source k = \<lparr>s_key = k, s_sequences = [], s_losses = [], s_heartbeat = -1, s_final = None,
     s_top = -1, s_missing = [], s_missing_low = [], s_missing_high = [], s_seg_low = [],
     s_seg_high = [], s_seg_reason = [], s_segment_of = [], s_by_reason = [], s_conflicted = [],
     s_conflicted_sorted = [], s_manifests = [], s_unsealed_epochs = [], s_manifestless = [],
     s_manifest_conflict = False\<rparr>"

subsection \<open>Splitting a missing range\<close>

fun split_from :: "int \<Rightarrow> int \<Rightarrow> loss_obs list \<Rightarrow> segment_part list" where
  "split_from position bound [] = (if position \<le> bound then [(position, bound, None)] else [])"
| "split_from position bound (loss # losses) =
     (let low = max (l_first_sequence loss) position; high = min (l_last_sequence loss) bound in
      if high < low then split_from position bound losses
      else (if low > position then [(position, low - 1, None)] else []) @
           (low, high, Some (l_reason loss)) # split_from (high + 1) bound losses)"

definition segments :: "int \<Rightarrow> int \<Rightarrow> loss_obs list \<Rightarrow> segment_part list" where
  "segments first bound losses = split_from first bound losses"

subsection \<open>Finalising a source\<close>

fun missing_between :: "int \<Rightarrow> int list \<Rightarrow> int_range list" where
  "missing_between previous [] = []"
| "missing_between previous (sequence # rest) =
     (if sequence > previous + 1 then [(previous + 1, sequence - 1)] else []) @
     missing_between sequence rest"

definition source_top :: "source \<Rightarrow> int" where
  "source_top s = Max (set (s_heartbeat s # s_sequences s @ map l_last_sequence (s_losses s)))"

definition missing_ranges :: "int list \<Rightarrow> int \<Rightarrow> int_range list" where
  "missing_ranges sequences highest =
     (let ordered = sorted_set sequences; previous = (if ordered = [] then -1 else last ordered) in
      missing_between (-1) ordered @ (if highest > previous then [(previous + 1, highest)] else []))"

definition loss_order :: "loss_obs \<Rightarrow> int \<times> string \<times> int" where
  "loss_order l = (l_first_sequence l, l_reason l, l_last_sequence l)"

definition add_part :: "source \<Rightarrow> segment_part \<Rightarrow> source" where
  "add_part s part =
     (case part of (low, high, reason) \<Rightarrow>
        let d = setdefault (s_by_reason s) reason [] in
        s\<lparr>s_by_reason := AList.update reason ((case map_of d reason of None \<Rightarrow> [] | Some is \<Rightarrow> is)
                           @ [length (s_seg_low s)]) d,
          s_seg_low := s_seg_low s @ [low], s_seg_high := s_seg_high s @ [high],
          s_seg_reason := s_seg_reason s @ [reason]\<rparr>)"

fun sweep :: "int_range list \<Rightarrow> loss_obs list \<Rightarrow> loss_obs list \<Rightarrow> source \<Rightarrow> source" where
  "sweep [] pending active s = s"
| "sweep ((first, bound) # ranges) pending active s =
     (let reached = takeWhile (\<lambda>l. l_first_sequence l \<le> bound) pending;
          active' = filter (\<lambda>l. l_last_sequence l \<ge> first) (active @ reached);
          s1 = s\<lparr>s_missing_low := s_missing_low s @ [first], s_missing_high := s_missing_high s @ [bound],
                 s_segment_of := s_segment_of s @ [length (s_seg_low s)]\<rparr>
      in sweep ranges (dropWhile (\<lambda>l. l_first_sequence l \<le> bound) pending) active'
           (foldl add_part s1 (segments first bound active')))"

definition finalize :: "source \<Rightarrow> source" where
  "finalize s =
     (let top = source_top s; missing = s_missing s @ missing_ranges (s_sequences s) top;
          swept = sweep missing (sort_key loss_order (s_losses s)) [] (s\<lparr>s_top := top, s_missing := missing\<rparr>)
      in swept\<lparr>s_segment_of := s_segment_of swept @ [length (s_seg_low swept)]\<rparr>)"

definition finalize_conflicts :: "source \<Rightarrow> source" where
  "finalize_conflicts s = s\<lparr>s_conflicted_sorted := sorted_set (s_conflicted s)\<rparr>"

definition tail_problem :: "source \<Rightarrow> string option" where
  "tail_problem s =
     (case s_final s of
        None \<Rightarrow> Some ''no_final_heartbeat''
      | Some f \<Rightarrow> if s_top s > f then Some ''activity_after_final_heartbeat'' else None)"

subsection \<open>Gaps of a window\<close>

definition listed_segments :: nat where "listed_segments = 16"

definition sequence_gap :: "source_key \<Rightarrow> int \<Rightarrow> int \<Rightarrow> string option \<Rightarrow> effect \<Rightarrow> gap" where
  "sequence_gap key low high reason eff =
     (mk_gap (if reason \<noteq> None then Loss else Sequence_gap) eff)
       \<lparr>gap_source_id := Some (fst key), gap_source_epoch := Some (snd key),
        gap_first_sequence := Some low, gap_last_sequence := Some high,
        gap_reason := (case reason of Some r \<Rightarrow> if r = [] then (if eff = Unverified then Some ''unattributed'' else None)
                                                else Some r
                       | None \<Rightarrow> if eff = Unverified then Some ''unattributed'' else None)\<rparr>"

definition stretch_pairs :: "source \<Rightarrow> nat \<Rightarrow> nat \<Rightarrow> ((nat \<times> nat) \<times> string option) list" where
  "stretch_pairs s first end =
     (if end - first \<le> listed_segments
      then map (\<lambda>i. ((i, i), s_seg_reason s ! i)) [first..<end]
      else concat (map (\<lambda>(reason, indices).
        let start = bisect_left indices first; stop = bisect_left indices end in
        if start < stop then [((indices ! start, indices ! (stop - 1)), reason)] else []) (s_by_reason s)))"

definition segment_gaps ::
  "source \<Rightarrow> nat \<Rightarrow> nat \<Rightarrow> int option \<Rightarrow> int option \<Rightarrow> effect \<Rightarrow> gap list" where
  "segment_gaps s first end low high eff =
     (if end \<le> first then []
      else map (\<lambda>((head, tail), reason).
        sequence_gap (s_key s)
          (case low of None \<Rightarrow> s_seg_low s ! head | Some l \<Rightarrow> max (s_seg_low s ! head) l)
          (case high of None \<Rightarrow> s_seg_high s ! tail | Some h \<Rightarrow> min (s_seg_high s ! tail) h)
          reason eff) (stretch_pairs s first end))"

definition conflict_gap :: "source_key \<Rightarrow> int \<Rightarrow> int \<Rightarrow> gap" where
  "conflict_gap key first bound =
     (mk_gap Digest_mismatch Partial)
       \<lparr>gap_source_id := Some (fst key), gap_source_epoch := Some (snd key),
        gap_first_sequence := Some first, gap_last_sequence := Some bound,
        gap_reason := Some ''conflicting_claim''\<rparr>"

definition conflicted_gaps :: "source \<Rightarrow> int \<Rightarrow> int \<Rightarrow> gap list" where
  "conflicted_gaps s low high =
     (let c = s_conflicted_sorted s;
          found = drop (bisect_left c low) (take (bisect_right c high) c);
          ranges = (if length found > listed_segments then [(hd found, last found)]
                    else map (\<lambda>x. (x, x)) found)
      in map (\<lambda>(first, bound). conflict_gap (s_key s) first bound) ranges)"

definition inside_gaps :: "source \<Rightarrow> int \<Rightarrow> int option \<Rightarrow> effect \<Rightarrow> gap list" where
  "inside_gaps s low high eff =
     (let top = (case high of None \<Rightarrow> s_top s | Some h \<Rightarrow> h);
          first = bisect_left (s_seg_high s) low;
          end = bisect_right (s_seg_low s) top
      in segment_gaps s first end (Some low) (Some top) eff @ conflicted_gaps s low top)"

definition near_gaps :: "source \<Rightarrow> int \<Rightarrow> int \<Rightarrow> gap list" where
  "near_gaps s low high =
     (let near = bisect_left (s_missing_high s) (low - 1);
          after = bisect_right (s_missing_low s) (high + 1);
          so = s_segment_of s
      in (if near < after then segment_gaps s (so ! near) (so ! after) None None Partial else []) @
         segment_gaps s (so ! after) (last so) None None Unverified @
         conflicted_gaps s (low - 1) (high + 1))"

definition tail_gaps :: "source_key \<Rightarrow> string option \<Rightarrow> gap list" where
  "tail_gaps key problem =
     (case problem of None \<Rightarrow> []
      | Some p \<Rightarrow> [(mk_gap Tail_unverified Unverified)
          \<lparr>gap_source_id := Some (fst key), gap_source_epoch := Some (snd key), gap_reason := Some p\<rparr>])"

subsection \<open>Parts of one range\<close>

definition covers :: "loss_obs \<Rightarrow> int \<Rightarrow> bool" where
  "covers l x \<longleftrightarrow> l_first_sequence l \<le> x \<and> x \<le> l_last_sequence l"

definition in_part :: "int \<Rightarrow> segment_part \<Rightarrow> bool" where
  "in_part x part \<longleftrightarrow> fst part \<le> x \<and> x \<le> fst (snd part)"

lemma in_part_simps [simp, range_simps]: "in_part x (l, h, r) \<longleftrightarrow> l \<le> x \<and> x \<le> h"
  by (simp add: in_part_def)

fun tiles :: "int \<Rightarrow> int \<Rightarrow> segment_part list \<Rightarrow> bool" where
  "tiles p u [] \<longleftrightarrow> u < p"
| "tiles p u ((l, h, r) # parts) \<longleftrightarrow> l = p \<and> l \<le> h \<and> h \<le> u \<and> tiles (h + 1) u parts"

lemma tiles_split_from: "tiles p u (split_from p u losses)"
  by (induction losses arbitrary: p) (auto simp: Let_def)

lemma tiles_cover: "tiles p u parts \<Longrightarrow> (\<exists>part\<in>set parts. in_part x part) \<longleftrightarrow> p \<le> x \<and> x \<le> u"
proof (induction p u parts rule: tiles.induct)
  case (2 p u l h r parts)
  then have "(\<exists>part\<in>set parts. in_part x part) \<longleftrightarrow> h + 1 \<le> x \<and> x \<le> u" by simp
  with 2 show ?case by auto
qed auto

lemma tiles_bounds: "tiles p u parts \<Longrightarrow> (l, h, r) \<in> set parts \<Longrightarrow> p \<le> l \<and> l \<le> h \<and> h \<le> u"
proof (induction p u parts rule: tiles.induct)
  case (2 p u l' h' r' parts)
  then show ?case by (cases "(l, h, r) = (l', h', r')") auto
qed simp

definition ascending :: "segment_part list \<Rightarrow> bool" where
  "ascending parts \<longleftrightarrow> (\<forall>(l, h, r)\<in>set parts. l \<le> h) \<and>
     sorted_wrt (\<lambda>a b. fst (snd a) < fst b) parts"

lemma tiles_ascending: "tiles p u parts \<Longrightarrow> ascending parts"
proof (induction p u parts rule: tiles.induct)
  case (2 p u l h r parts)
  then have "ascending parts" and "\<forall>(l', h', r')\<in>set parts. h + 1 \<le> l'"
    using tiles_bounds [of "h + 1" u parts] by fastforce+
  with 2 show ?case by (auto simp: ascending_def)
qed (simp add: ascending_def)

lemma split_from_reason:
  "(l, h, Some r) \<in> set (split_from p u losses) \<Longrightarrow>
     \<exists>loss\<in>set losses. l_reason loss = r \<and> l_first_sequence loss \<le> l \<and> h \<le> l_last_sequence loss"
  by (induction losses arbitrary: p) (fastforce simp: Let_def split: if_splits)+

lemma split_from_none:
  assumes "sorted_wrt (\<lambda>a b. l_first_sequence a \<le> l_first_sequence b) losses"
    and "(l, h, None) \<in> set (split_from p u losses)" and "l \<le> x" and "x \<le> h"
  shows "\<forall>loss\<in>set losses. \<not> covers loss x"
  using assms
proof (induction losses arbitrary: p)
  case (Cons loss losses)
  have pu: "p \<le> x \<and> x \<le> u"
    using tiles_bounds [OF tiles_split_from Cons.prems(2)] Cons.prems(3,4) by simp
  let ?low = "max (l_first_sequence loss) p" and ?high = "min (l_last_sequence loss) u"
  show ?case
  proof (cases "?high < ?low")
    case True
    then have "\<forall>loss\<in>set losses. \<not> covers loss x" using Cons by simp
    moreover have "\<not> covers loss x" using True pu by (auto simp: covers_def)
    ultimately show ?thesis by simp
  next
    case False
    then consider "?low > p" "l = p" "h = ?low - 1"
      | "(l, h, None) \<in> set (split_from (?high + 1) u losses)"
      using Cons.prems(2) by (auto simp: Let_def split: if_splits)
    then show ?thesis
    proof cases
      case 1
      then show ?thesis using Cons.prems by (fastforce simp: covers_def)
    next
      case 2
      then have "?high + 1 \<le> l" using tiles_bounds [OF tiles_split_from] by blast
      then have "\<not> covers loss x" using Cons.prems(3) pu by (auto simp: covers_def)
      moreover have "\<forall>loss\<in>set losses. \<not> covers loss x" using Cons 2 by simp
      ultimately show ?thesis by simp
    qed
  qed
qed simp

lemma split_from_filter:
  assumes "\<forall>l\<in>set losses. \<not> P l \<longrightarrow> l_last_sequence l < p \<or> u < l_first_sequence l"
  shows "split_from p u (filter P losses) = split_from p u losses"
  using assms
proof (induction losses arbitrary: p)
  case (Cons loss losses)
  have step: "split_from q u (filter P losses) = split_from q u losses" if "p \<le> q" for q
    using Cons.prems that by (intro Cons.IH) force
  show ?case
  proof (cases "P loss")
    case True
    then show ?thesis by (auto simp: Let_def intro!: step)
  next
    case False
    with Cons.prems have "min (l_last_sequence loss) u < max (l_first_sequence loss) p" by auto
    with False show ?thesis by (simp add: step)
  qed
qed simp

subsection \<open>The missing ranges\<close>

definition in_range :: "int \<Rightarrow> int_range \<Rightarrow> bool" where
  "in_range x r \<longleftrightarrow> fst r \<le> x \<and> x \<le> snd r"

lemma in_range_simps [simp, range_simps]: "in_range x (a, b) \<longleftrightarrow> a \<le> x \<and> x \<le> b"
  by (simp add: in_range_def)

definition separated :: "int_range list \<Rightarrow> bool" where
  "separated rs \<longleftrightarrow> (\<forall>(a, b)\<in>set rs. a \<le> b) \<and> sorted_wrt (\<lambda>r s. snd r + 1 < fst s) rs"

lemma missing_between_spec:
  assumes "sorted_wrt (<) xs" and "\<forall>x\<in>set xs. p < x"
  shows "(\<exists>r\<in>set (missing_between p xs). in_range y r) \<longleftrightarrow> p < y \<and> y \<notin> set xs \<and> (\<exists>x\<in>set xs. y < x)"
  using assms
proof (induction xs arbitrary: p)
  case (Cons x xs)
  have "(\<exists>r\<in>set (missing_between x xs). in_range y r) \<longleftrightarrow> x < y \<and> y \<notin> set xs \<and> (\<exists>z\<in>set xs. y < z)"
    using Cons by simp
  then show ?case using Cons.prems by (auto split: if_splits)
qed simp

lemma missing_between_separated:
  assumes "sorted_wrt (<) xs" and "\<forall>x\<in>set xs. p < x"
  shows "separated (missing_between p xs) \<and>
    (\<forall>(a, b)\<in>set (missing_between p xs). p < a \<and> (\<exists>x\<in>set xs. b < x))"
  using assms
proof (induction xs arbitrary: p)
  case (Cons x xs)
  then have IH: "separated (missing_between x xs)"
      "\<forall>(a, b)\<in>set (missing_between x xs). x < a \<and> (\<exists>z\<in>set xs. b < z)" by simp_all
  then show ?case using Cons.prems by (fastforce simp: separated_def)
qed (simp add: separated_def)

lemma strict_sorted_last: "sorted_wrt (<) xs \<Longrightarrow> xs \<noteq> [] \<Longrightarrow> x \<in> set xs \<Longrightarrow> x \<le> (last xs :: int)"
  by (metis sorted_wrt_less_idx last_conv_nth in_set_conv_nth strict_sorted_imp_sorted
      sorted_nth_mono diff_less length_greater_0_conv less_Suc_eq_le Suc_diff_1 zero_less_one)

lemma missing_ranges_spec:
  assumes "\<forall>x\<in>set seqs. 0 \<le> x \<and> x \<le> t"
  shows "(\<exists>r\<in>set (missing_ranges seqs t). in_range y r) \<longleftrightarrow> 0 \<le> y \<and> y \<le> t \<and> y \<notin> set seqs"
proof (cases "seqs = []")
  case False
  let ?xs = "sorted_set seqs"
  have xs: "sorted_wrt (<) ?xs" "\<forall>x\<in>set ?xs. -1 < x" "?xs \<noteq> []"
    using assms False by (auto simp: strict_sorted_sorted_set)
  have last: "last ?xs \<in> set seqs" "\<forall>x\<in>set seqs. x \<le> last ?xs"
    using xs strict_sorted_last [of ?xs] last_in_set [OF xs(3)] by simp_all
  have "(\<exists>x\<in>set seqs. y < x) \<longleftrightarrow> y < last ?xs" using last by (meson less_le_trans)
  then have "(\<exists>r\<in>set (missing_between (-1) ?xs). in_range y r) \<longleftrightarrow> 0 \<le> y \<and> y \<notin> set seqs \<and> y < last ?xs"
    using missing_between_spec [OF xs(1,2), of y] by auto
  moreover have "missing_ranges seqs t =
      missing_between (-1) ?xs @ (if t > last ?xs then [(last ?xs + 1, t)] else [])"
    using False by (simp add: missing_ranges_def Let_def)
  moreover have "y \<notin> set seqs" if "last ?xs < y" using that last(2) by force
  moreover have "last ?xs \<le> t" "0 \<le> last ?xs" using last(1) assms by auto
  moreover have "y \<noteq> last ?xs" if "y \<notin> set seqs" using that last(1) by auto
  ultimately show ?thesis by (auto simp: bex_Un)
qed (auto simp: missing_ranges_def sorted_set_def Let_def)

lemma missing_ranges_separated:
  assumes "\<forall>x\<in>set seqs. 0 \<le> x"
  shows "separated (missing_ranges seqs t)"
proof (cases "seqs = []")
  case False
  let ?xs = "sorted_set seqs"
  have xs: "sorted_wrt (<) ?xs" "\<forall>x\<in>set ?xs. -1 < x" "?xs \<noteq> []"
    using assms False by (auto simp: strict_sorted_sorted_set)
  have last: "\<forall>x\<in>set seqs. x \<le> last ?xs"
    using xs strict_sorted_last [of ?xs] by simp
  show ?thesis
    using missing_between_separated [OF xs(1,2)] last xs(3)
    by (fastforce simp: missing_ranges_def Let_def separated_def sorted_wrt_append)
qed (simp add: missing_ranges_def sorted_set_def separated_def Let_def)

subsection \<open>The flat arrays\<close>

definition indices_of :: "string option list \<Rightarrow> string option \<Rightarrow> nat list" where
  "indices_of reasons r = filter (\<lambda>i. reasons ! i = r) [0..<length reasons]"

lemma indices_of_snoc: "indices_of (rs @ [q]) r = indices_of rs r @ (if q = r then [length rs] else [])"
proof -
  have "filter (\<lambda>i. (rs @ [q]) ! i = r) [0..<length rs] = filter (\<lambda>i. rs ! i = r) [0..<length rs]"
    by (rule filter_cong) (auto simp: nth_append)
  then show ?thesis by (simp add: indices_of_def)
qed

lemma sorted_indices_of: "sorted (indices_of rs r)"
  by (simp add: indices_of_def sorted_wrt_filter)

lemma set_indices_of: "set (indices_of rs r) = {i. i < length rs \<and> rs ! i = r}"
  by (auto simp: indices_of_def)

text \<open>\<open>arrays s parts\<close>: the arrays of \<open>s\<close> hold the parts, and \<open>by_reason\<close> indexes them by reason.\<close>

definition arrays :: "source \<Rightarrow> segment_part list \<Rightarrow> bool" where
  "arrays s parts \<longleftrightarrow>
     s_seg_low s = map fst parts \<and> s_seg_high s = map (\<lambda>p. fst (snd p)) parts \<and>
     s_seg_reason s = map (\<lambda>p. snd (snd p)) parts \<and> distinct (map fst (s_by_reason s)) \<and>
     (\<forall>r is. (r, is) \<in> set (s_by_reason s) \<longleftrightarrow> is = indices_of (s_seg_reason s) r \<and> is \<noteq> [])"

lemma arrays_frame:
  "s_seg_low t = s_seg_low s \<Longrightarrow> s_seg_high t = s_seg_high s \<Longrightarrow> s_seg_reason t = s_seg_reason s \<Longrightarrow>
     s_by_reason t = s_by_reason s \<Longrightarrow> arrays t parts = arrays s parts"
  by (simp add: arrays_def)

lemma by_reason_lookup:
  assumes "arrays s parts"
  shows "map_of (s_by_reason s) r =
    (if indices_of (s_seg_reason s) r = [] then None else Some (indices_of (s_seg_reason s) r))"
proof (cases "map_of (s_by_reason s) r")
  case None
  then have "\<forall>is. (r, is) \<notin> set (s_by_reason s)" by (force simp: map_of_eq_None_iff)
  with assms None show ?thesis by (auto simp: arrays_def)
next
  case (Some "is")
  then have "(r, is) \<in> set (s_by_reason s)" by (rule map_of_SomeD)
  with assms Some show ?thesis by (auto simp: arrays_def)
qed

lemma arrays_add_part:
  assumes "arrays s parts"
  shows "arrays (add_part s part) (parts @ [part])"
proof -
  obtain low high reason where part: "part = (low, high, reason)" by (cases part)
  let ?R = "s_seg_reason s" and ?B = "s_by_reason s"
  let ?t = "add_part s part"
  have len: "length (s_seg_low s) = length ?R" using assms by (simp add: arrays_def)
  let ?d = "setdefault ?B reason []"
  have dist: "distinct (map fst ?B)" using assms by (simp add: arrays_def)
  have d_look: "map_of ?d reason = Some (indices_of ?R reason)"
    by (auto simp: map_of_setdefault by_reason_lookup [OF assms])
  have byr: "s_by_reason ?t = AList.update reason (indices_of ?R reason @ [length ?R]) ?d"
    by (simp add: part add_part_def Let_def d_look len)
  have dist': "distinct (map fst (s_by_reason ?t))"
    using dist by (simp add: byr distinct_update)
  have look: "map_of (s_by_reason ?t) r = (if indices_of (?R @ [reason]) r = [] then None
      else Some (indices_of (?R @ [reason]) r))" for r
    by (auto simp: byr update_conv' map_of_setdefault by_reason_lookup [OF assms] indices_of_snoc)
  have "(r, is) \<in> set (s_by_reason ?t) \<longleftrightarrow> is = indices_of (?R @ [reason]) r \<and> is \<noteq> []" for r "is"
    using look [of r] dist' by (metis map_of_SomeD map_of_is_SomeI option.distinct(1) option.inject)
  with assms dist' show ?thesis
    by (simp add: arrays_def part add_part_def Let_def)
qed

lemma arrays_foldl: "arrays s parts \<Longrightarrow> arrays (foldl add_part s new) (parts @ new)"
proof (induction new arbitrary: s parts)
  case (Cons part new)
  then have "arrays (foldl add_part (add_part s part) new) ((parts @ [part]) @ new)"
    by (intro Cons.IH arrays_add_part)
  then show ?case by simp
qed simp

lemma add_part_frame [simp, frame_simps]:
  "s_key (add_part s p) = s_key s" "s_sequences (add_part s p) = s_sequences s"
  "s_losses (add_part s p) = s_losses s" "s_heartbeat (add_part s p) = s_heartbeat s"
  "s_final (add_part s p) = s_final s" "s_top (add_part s p) = s_top s"
  "s_missing (add_part s p) = s_missing s" "s_missing_low (add_part s p) = s_missing_low s"
  "s_missing_high (add_part s p) = s_missing_high s" "s_segment_of (add_part s p) = s_segment_of s"
  "s_conflicted (add_part s p) = s_conflicted s"
  by (simp_all add: add_part_def Let_def split: prod.splits)

lemma foldl_add_part_frame [simp, frame_simps]:
  "s_key (foldl add_part s ps) = s_key s" "s_sequences (foldl add_part s ps) = s_sequences s"
  "s_losses (foldl add_part s ps) = s_losses s" "s_heartbeat (foldl add_part s ps) = s_heartbeat s"
  "s_final (foldl add_part s ps) = s_final s" "s_top (foldl add_part s ps) = s_top s"
  "s_missing (foldl add_part s ps) = s_missing s"
  "s_missing_low (foldl add_part s ps) = s_missing_low s"
  "s_missing_high (foldl add_part s ps) = s_missing_high s"
  "s_segment_of (foldl add_part s ps) = s_segment_of s"
  "s_conflicted (foldl add_part s ps) = s_conflicted s"
  by (induction ps arbitrary: s) simp_all

lemma sweep_frame [simp, frame_simps]:
  "s_key (sweep rs p a s) = s_key s" "s_sequences (sweep rs p a s) = s_sequences s"
  "s_losses (sweep rs p a s) = s_losses s" "s_heartbeat (sweep rs p a s) = s_heartbeat s"
  "s_final (sweep rs p a s) = s_final s" "s_top (sweep rs p a s) = s_top s"
  "s_missing (sweep rs p a s) = s_missing s" "s_conflicted (sweep rs p a s) = s_conflicted s"
  by (induction rs p a s rule: sweep.induct) (simp_all add: Let_def)

subsection \<open>The sweep equals splitting every range against every loss\<close>

definition parts_of :: "loss_obs list \<Rightarrow> int_range list \<Rightarrow> segment_part list" where
  "parts_of losses ranges = concat (map (\<lambda>(a, b). segments a b losses) ranges)"

abbreviation by_first :: "loss_obs list \<Rightarrow> bool" where
  "by_first \<equiv> sorted_wrt (\<lambda>a b. l_first_sequence a \<le> l_first_sequence b)"

lemma takeWhile_le_dropWhile:
  "b \<le> c \<Longrightarrow> takeWhile (\<lambda>l. f l \<le> b) xs @ takeWhile (\<lambda>l. f l \<le> c) (dropWhile (\<lambda>l. f l \<le> b) xs) =
     takeWhile (\<lambda>l. f l \<le> (c::int)) xs"
  by (induction xs) auto

lemma dropWhile_le_dropWhile:
  "b \<le> c \<Longrightarrow> dropWhile (\<lambda>l. f l \<le> c) (dropWhile (\<lambda>l. f l \<le> b) xs) = dropWhile (\<lambda>l. f l \<le> (c::int)) xs"
  by (induction xs) auto

lemma active_segments:
  assumes "by_first ordered"
  shows "segments a b (filter (\<lambda>l. l_last_sequence l \<ge> a) (takeWhile (\<lambda>l. l_first_sequence l \<le> b) ordered)) =
     segments a b ordered"
proof -
  have "sorted_wrt (\<lambda>x y. l_first_sequence y \<le> b \<longrightarrow> l_first_sequence x \<le> b) ordered"
    using assms by (rule sorted_wrt_mono_rel [rotated]) auto
  then have "takeWhile (\<lambda>l. l_first_sequence l \<le> b) ordered = filter (\<lambda>l. l_first_sequence l \<le> b) ordered"
    by (rule takeWhile_append_dropWhile_filter)
  then show ?thesis
    unfolding segments_def by simp (rule split_from_filter, auto)
qed

lemma sweep_active:
  assumes "a0 \<le> a" and "b0 \<le> b"
  shows "filter (\<lambda>l. l_last_sequence l \<ge> a)
      (filter (\<lambda>l. l_last_sequence l \<ge> a0) (takeWhile (\<lambda>l. l_first_sequence l \<le> b0) ordered) @
       takeWhile (\<lambda>l. l_first_sequence l \<le> b) (dropWhile (\<lambda>l. l_first_sequence l \<le> b0) ordered)) =
    filter (\<lambda>l. l_last_sequence l \<ge> a) (takeWhile (\<lambda>l. l_first_sequence l \<le> b) ordered)"
proof -
  have "filter (\<lambda>l. l_last_sequence l \<ge> a) (filter (\<lambda>l. l_last_sequence l \<ge> a0) xs) =
      filter (\<lambda>l. l_last_sequence l \<ge> a) xs" for xs
    using assms by (induction xs) auto
  then show ?thesis
    using takeWhile_le_dropWhile [OF assms(2), of l_first_sequence ordered] by (metis filter_append)
qed

lemma sweep_parts:
  assumes "by_first ordered" and "separated rs" and "\<forall>(a, b)\<in>set rs. a0 \<le> a \<and> b0 \<le> b"
    and "arrays s parts"
  shows "arrays (sweep rs (dropWhile (\<lambda>l. l_first_sequence l \<le> b0) ordered)
      (filter (\<lambda>l. l_last_sequence l \<ge> a0) (takeWhile (\<lambda>l. l_first_sequence l \<le> b0) ordered)) s)
    (parts @ parts_of ordered rs)"
  using assms
proof (induction rs arbitrary: a0 b0 s parts)
  case (Cons r rs)
  obtain a b where r: "r = (a, b)" by (cases r)
  have ab: "a0 \<le> a" "b0 \<le> b" using Cons.prems(3) r by auto
  let ?active = "filter (\<lambda>l. l_last_sequence l \<ge> a) (takeWhile (\<lambda>l. l_first_sequence l \<le> b) ordered)"
  let ?s1 = "s\<lparr>s_missing_low := s_missing_low s @ [a], s_missing_high := s_missing_high s @ [b],
      s_segment_of := s_segment_of s @ [length (s_seg_low s)]\<rparr>"
  have "arrays (foldl add_part ?s1 (segments a b ordered)) (parts @ segments a b ordered)"
    using Cons.prems(4) by (intro arrays_foldl) (simp add: arrays_def)
  moreover have "\<forall>(c, d)\<in>set rs. a \<le> c \<and> b \<le> d" "separated rs"
    using Cons.prems(2) r by (fastforce simp: separated_def)+
  ultimately have "arrays (sweep rs (dropWhile (\<lambda>l. l_first_sequence l \<le> b) ordered) ?active
      (foldl add_part ?s1 (segments a b ordered))) ((parts @ segments a b ordered) @ parts_of ordered rs)"
    by (intro Cons.IH [OF Cons.prems(1)])
  then show ?case
    using ab by (simp del: filter_append filter_filter add: r Let_def sweep_active [OF ab] active_segments [OF Cons.prems(1)] dropWhile_le_dropWhile parts_of_def)
qed (simp add: parts_of_def)

text \<open>A source as \<^verbatim>\<open>_Verifier\<close> hands it to \<open>finalize\<close>: observations only, arrays still empty.\<close>

definition collected :: "source \<Rightarrow> bool" where
  "collected s \<longleftrightarrow> s_missing s = [] \<and> s_missing_low s = [] \<and> s_missing_high s = [] \<and> s_seg_low s = [] \<and>
     s_seg_high s = [] \<and> s_seg_reason s = [] \<and> s_segment_of s = [] \<and> s_by_reason s = [] \<and>
     -1 \<le> s_heartbeat s \<and> (\<forall>x\<in>set (s_sequences s). 0 \<le> x) \<and>
     (\<forall>l\<in>set (s_losses s). 0 \<le> l_first_sequence l)"

lemma by_first_sort: "by_first (sort_key loss_order losses)"
proof -
  have "sorted_wrt (\<lambda>a b. loss_order a \<le> loss_order b) (sort_key loss_order losses)"
    using sorted_sort_key [of loss_order losses] by (simp add: sorted_wrt_map)
  then show ?thesis
    by (rule sorted_wrt_mono_rel [rotated]) (auto simp: loss_order_def less_eq_prod_def)
qed

lemma source_top_ge:
  "x \<in> set (s_sequences s) \<Longrightarrow> x \<le> source_top s" "s_heartbeat s \<le> source_top s"
  "l \<in> set (s_losses s) \<Longrightarrow> l_last_sequence l \<le> source_top s"
  by (auto simp: source_top_def intro: Max_ge)

lemma collected_bounds:
  "collected s \<Longrightarrow> \<forall>x\<in>set (s_sequences s). 0 \<le> x \<and> x \<le> source_top s"
  by (auto simp: collected_def source_top_ge)

lemma collected_separated: "collected s \<Longrightarrow> separated (missing_ranges (s_sequences s) (source_top s))"
  by (intro missing_ranges_separated) (simp add: collected_bounds)

lemma collected_lower:
  assumes "collected s"
  shows "\<forall>(a, b)\<in>set (missing_ranges (s_sequences s) (source_top s)). 0 \<le> a \<and> -1 \<le> b"
proof clarify
  fix a b assume ab: "(a, b) \<in> set (missing_ranges (s_sequences s) (source_top s))"
  then have "a \<le> b" using collected_separated [OF assms] by (auto simp: separated_def)
  then have "in_range a (a, b)" by simp
  then have "0 \<le> a" using missing_ranges_spec [OF collected_bounds [OF assms], of a] ab by blast
  with \<open>a \<le> b\<close> show "0 \<le> a \<and> -1 \<le> b" by simp
qed

lemma collected_none:
  assumes "collected s"
  shows "takeWhile (\<lambda>l. l_first_sequence l \<le> -1) (sort_key loss_order (s_losses s)) = []"
    and "dropWhile (\<lambda>l. l_first_sequence l \<le> -1) (sort_key loss_order (s_losses s)) = sort_key loss_order (s_losses s)"
proof -
  have "\<not> l_first_sequence (hd (sort_key loss_order (s_losses s))) \<le> -1" if "sort_key loss_order (s_losses s) \<noteq> []"
    using assms hd_in_set [OF that] by (auto simp: collected_def)
  then show "takeWhile (\<lambda>l. l_first_sequence l \<le> -1) (sort_key loss_order (s_losses s)) = []"
      "dropWhile (\<lambda>l. l_first_sequence l \<le> -1) (sort_key loss_order (s_losses s)) = sort_key loss_order (s_losses s)"
    by (auto simp: takeWhile_eq_Nil_iff dropWhile_eq_self_iff)
qed

lemma finalize_arrays:
  assumes "collected s"
  shows "arrays (finalize s) (parts_of (sort_key loss_order (s_losses s)) (missing_ranges (s_sequences s) (source_top s)))"
proof -
  let ?o = "sort_key loss_order (s_losses s)" and ?m = "missing_ranges (s_sequences s) (source_top s)"
  let ?s0 = "s\<lparr>s_top := source_top s, s_missing := ?m\<rparr>"
  have "arrays ?s0 []" using assms by (simp add: collected_def arrays_def indices_of_def)
  from sweep_parts [OF by_first_sort [of "s_losses s"] collected_separated [OF assms] collected_lower [OF assms] this]
  have "arrays (sweep ?m ?o [] ?s0) (parts_of ?o ?m)" by (simp add: collected_none [OF assms])
  then show ?thesis
    using assms by (simp add: finalize_def Let_def collected_def arrays_def)
qed

end
