(* ===== verification/Windows.thy ===== *)
theory Windows
  imports Accounting
begin

text \<open>
  What the gaps of a window say (\<^verbatim>\<open>_Run._inside_gaps\<close>, \<^verbatim>\<open>_near_gaps\<close>, \<^verbatim>\<open>_segment_gaps\<close> and
  \<^verbatim>\<open>_conflicted_gaps\<close> of \<^verbatim>\<open>sdk/python/src/fabric/reconstruct/_verify.py\<close>). The arrays built by
  \<open>finalize\<close> are sorted, so the two bisections of a look-up select exactly the parts that meet the
  window; a stretch that is summarised per reason still names every reason of the stretch and covers
  every part of it.
\<close>

subsection \<open>The parts of a finalised source\<close>

definition source_parts :: "source \<Rightarrow> segment_part list" where
  "source_parts s = parts_of (sort_key loss_order (s_losses s)) (missing_ranges (s_sequences s) (source_top s))"

definition missing_position :: "source \<Rightarrow> int \<Rightarrow> bool" where
  "missing_position s x \<longleftrightarrow> 0 \<le> x \<and> x \<le> source_top s \<and> x \<notin> set (s_sequences s)"

lemma finalize_parts: "collected s \<Longrightarrow> arrays (finalize s) (source_parts s)"
  unfolding source_parts_def by (rule finalize_arrays)

lemma parts_of_cover:
  "(\<exists>part\<in>set (parts_of losses ranges). in_part x part) \<longleftrightarrow> (\<exists>r\<in>set ranges. in_range x r)"
proof -
  have "(\<exists>part\<in>set (segments a b losses). in_part x part) \<longleftrightarrow> in_range x (a, b)" for a b
    unfolding segments_def by (simp add: tiles_cover [OF tiles_split_from])
  then show ?thesis by (induction ranges) (simp_all add: parts_of_def bex_Un in_range_def split_beta)
qed

lemma source_parts_cover:
  "collected s \<Longrightarrow> (\<exists>part\<in>set (source_parts s). in_part x part) \<longleftrightarrow> missing_position s x"
  unfolding source_parts_def missing_position_def
  by (simp add: parts_of_cover missing_ranges_spec collected_bounds)

lemma parts_of_ascending: "separated ranges \<Longrightarrow> ascending (parts_of losses ranges)"
proof (induction ranges)
  case (Cons r ranges)
  obtain a b where r: "r = (a, b)" by (cases r)
  have sep: "separated ranges" "\<forall>(c, d)\<in>set ranges. b < c"
    using Cons.prems r by (fastforce simp: separated_def)+
  have "tiles a b (segments a b losses)" unfolding segments_def by (rule tiles_split_from)
  then have seg: "ascending (segments a b losses)" "\<forall>(l, h, q)\<in>set (segments a b losses). h \<le> b"
    using tiles_ascending tiles_bounds by blast+
  have "\<forall>(l, h, q)\<in>set (parts_of losses ranges). b < l"
    using sep(2) tiles_bounds [OF tiles_split_from] by (fastforce simp: parts_of_def segments_def)
  then have "ascending (segments a b losses @ parts_of losses ranges)"
    using Cons.IH [OF sep(1)] seg by (fastforce simp: ascending_def sorted_wrt_append)
  then show ?case by (simp add: parts_of_def r)
qed (simp add: parts_of_def ascending_def)

lemma source_parts_ascending: "collected s \<Longrightarrow> ascending (source_parts s)"
  unfolding source_parts_def
  by (intro parts_of_ascending missing_ranges_separated) (simp add: collected_bounds)

lemma part_reason:
  assumes "(l, h, Some r) \<in> set (source_parts s)"
  shows "\<exists>loss\<in>set (s_losses s). l_reason loss = r \<and> l_first_sequence loss \<le> l \<and> h \<le> l_last_sequence loss"
proof -
  from assms obtain a b where "(l, h, Some r) \<in> set (split_from a b (sort_key loss_order (s_losses s)))"
    by (auto simp: source_parts_def parts_of_def segments_def)
  from split_from_reason [OF this] show ?thesis by simp
qed

lemma part_unexplained:
  assumes "(l, h, None) \<in> set (source_parts s)" "l \<le> x" "x \<le> h"
  shows "\<forall>loss\<in>set (s_losses s). \<not> covers loss x"
proof -
  from assms obtain a b where "(l, h, None) \<in> set (split_from a b (sort_key loss_order (s_losses s)))"
    by (auto simp: source_parts_def parts_of_def segments_def)
  from split_from_none [OF by_first_sort this assms(2,3)] show ?thesis by simp
qed

lemma sorted_part_lows: "ascending parts \<Longrightarrow> sorted (map fst parts)"
  by (induction parts) (fastforce simp: ascending_def)+

lemma sorted_part_highs: "ascending parts \<Longrightarrow> sorted (map (\<lambda>p. fst (snd p)) parts)"
  by (induction parts) (fastforce simp: ascending_def)+

subsection \<open>Stretches of parts\<close>

lemma by_reason_entry:
  assumes "arrays s parts" and "(r, indices) \<in> set (s_by_reason s)"
  shows "indices = indices_of (s_seg_reason s) r"
  using assms by (simp add: arrays_def)

lemma stretch_pairs_sound:
  assumes arr: "arrays s parts" and bound: "stop \<le> length parts"
    and mem: "((h, t), r) \<in> set (stretch_pairs s first stop)"
  shows "first \<le> h \<and> h \<le> t \<and> t < stop \<and> s_seg_reason s ! h = r \<and> s_seg_reason s ! t = r"
proof (cases "stop - first \<le> listed_segments")
  case True
  with mem show ?thesis by (auto simp: stretch_pairs_def)
next
  case False
  let ?is = "indices_of (s_seg_reason s) r"
  let ?a = "bisect_left ?is first" and ?b = "bisect_left ?is stop"
  from mem False obtain indices where "(r, indices) \<in> set (s_by_reason s)"
      "((h, t), r) \<in> set (let a = bisect_left indices first; b = bisect_left indices stop in
         if a < b then [((indices ! a, indices ! (b - 1)), r)] else [])"
    by (auto simp: stretch_pairs_def Let_def split: if_splits)
  with by_reason_entry [OF arr] have ab: "?a < ?b" "h = ?is ! ?a" "t = ?is ! (?b - 1)"
    by (auto simp: Let_def split: if_splits)
  have srt: "sorted ?is" by (rule sorted_indices_of)
  have len: "?b \<le> length ?is" using srt by (rule bisect_left_le)
  then have a: "?a < length ?is" and b: "?b - 1 < length ?is" using ab(1) by auto
  have "first \<le> h" using bisect_left_nth [OF srt a, of first] ab(2) by simp
  moreover have "t < stop" using bisect_left_nth [OF srt b, of stop] ab(1,3) by simp
  moreover have "h \<le> t" using sorted_nth_mono [OF srt, of ?a "?b - 1"] ab b by simp
  moreover have "h \<in> set ?is" "t \<in> set ?is" using a b ab(2,3) by simp_all
  ultimately show ?thesis by (simp add: set_indices_of)
qed

lemma stretch_pairs_complete:
  assumes arr: "arrays s parts" and bound: "stop \<le> length parts" and i: "first \<le> i" "i < stop"
  shows "\<exists>h t. ((h, t), s_seg_reason s ! i) \<in> set (stretch_pairs s first stop) \<and> h \<le> i \<and> i \<le> t"
proof (cases "stop - first \<le> listed_segments")
  case True
  with i show ?thesis by (fastforce simp: stretch_pairs_def)
next
  case False
  let ?r = "s_seg_reason s ! i"
  let ?is = "indices_of (s_seg_reason s) ?r"
  let ?a = "bisect_left ?is first" and ?b = "bisect_left ?is stop"
  have "i < length (s_seg_reason s)" using arr bound i by (simp add: arrays_def)
  then have "i \<in> set ?is" by (simp add: set_indices_of)
  then obtain k where k: "k < length ?is" "?is ! k = i" by (auto simp: in_set_conv_nth)
  have srt: "sorted ?is" by (rule sorted_indices_of)
  have ka: "?a \<le> k" using bisect_left_nth [OF srt k(1), of first] k(2) i by simp
  have kb: "k < ?b" using bisect_left_nth [OF srt k(1), of stop] k(2) i by simp
  have b: "?b \<le> length ?is" using srt by (rule bisect_left_le)
  have "?is ! ?a \<le> i" using sorted_nth_mono [OF srt ka k(1)] k(2) by simp
  moreover have "i \<le> ?is ! (?b - 1)" using sorted_nth_mono [OF srt, of k "?b - 1"] k(2) kb b by simp
  moreover have "(?r, ?is) \<in> set (s_by_reason s)" using arr \<open>i \<in> set ?is\<close> by (auto simp: arrays_def)
  then have "((?is ! ?a, ?is ! (?b - 1)), ?r) \<in> set (stretch_pairs s first stop)"
    using False ka kb by (force simp: stretch_pairs_def Let_def)
  ultimately show ?thesis by blast
qed


subsection \<open>Gaps of a stretch\<close>

definition gap_class :: "gap \<Rightarrow> gap_type \<times> effect \<times> string option" where
  "gap_class g = (gap_type g, gap_effect g, gap_reason g)"

lemma gap_class_sequence_gap [simp]:
  "gap_class (sequence_gap key low high reason eff) = gap_class (sequence_gap key low' high' reason eff)
     \<longleftrightarrow> True"
  by (simp add: gap_class_def sequence_gap_def mk_gap_def)

lemma sequence_gap_fields [simp]:
  "gap_source_id (sequence_gap key low high reason eff) = Some (fst key)"
  "gap_source_epoch (sequence_gap key low high reason eff) = Some (snd key)"
  "gap_first_sequence (sequence_gap key low high reason eff) = Some low"
  "gap_last_sequence (sequence_gap key low high reason eff) = Some high"
  "gap_effect (sequence_gap key low high reason eff) = eff"
  "gap_type (sequence_gap key low high reason eff) = (if reason \<noteq> None then Loss else Sequence_gap)"
  by (simp_all add: sequence_gap_def mk_gap_def)

lemma segment_gaps_classes:
  assumes arr: "arrays s parts" and bound: "stop \<le> length parts"
  shows "gap_class ` set (segment_gaps s first stop low high eff) =
    (\<lambda>i. gap_class (sequence_gap (s_key s) 0 0 (s_seg_reason s ! i) eff)) ` {first..<stop}"
proof (intro set_eqI iffI)
  fix c
  assume "c \<in> gap_class ` set (segment_gaps s first stop low high eff)"
  then obtain h t r where "((h, t), r) \<in> set (stretch_pairs s first stop)"
      and c: "c = gap_class (sequence_gap (s_key s) 0 0 r eff)"
    by (auto simp: segment_gaps_def gap_class_def sequence_gap_def mk_gap_def split: if_splits)
  from stretch_pairs_sound [OF arr bound this(1)] c
  show "c \<in> (\<lambda>i. gap_class (sequence_gap (s_key s) 0 0 (s_seg_reason s ! i) eff)) ` {first..<stop}"
    by (intro image_eqI [of _ _ h]) auto
next
  fix c
  assume "c \<in> (\<lambda>i. gap_class (sequence_gap (s_key s) 0 0 (s_seg_reason s ! i) eff)) ` {first..<stop}"
  then obtain i where i: "first \<le> i" "i < stop"
      and c: "c = gap_class (sequence_gap (s_key s) 0 0 (s_seg_reason s ! i) eff)" by auto
  from stretch_pairs_complete [OF arr bound i] obtain h t where
    "((h, t), s_seg_reason s ! i) \<in> set (stretch_pairs s first stop)" by blast
  with i c show "c \<in> gap_class ` set (segment_gaps s first stop low high eff)"
    by (force simp: segment_gaps_def gap_class_def sequence_gap_def mk_gap_def image_iff)
qed

lemma segment_gaps_Nil_iff:
  assumes "arrays s parts" and "stop \<le> length parts"
  shows "segment_gaps s first stop low high eff = [] \<longleftrightarrow> stop \<le> first"
proof -
  have "segment_gaps s first stop low high eff = [] \<longleftrightarrow> {first..<stop} = {}"
    using segment_gaps_classes [OF assms, of first low high eff] by (metis image_is_empty set_empty)
  then show ?thesis by auto
qed

lemma segment_gaps_cover:
  assumes arr: "arrays s parts" and asc: "ascending parts" and bound: "stop \<le> length parts"
    and i: "first \<le> i" "i < stop" and part: "parts ! i = (l, h, r)"
    and x: "l \<le> x" "x \<le> h" "low \<le> x" "x \<le> high"
  shows "\<exists>g\<in>set (segment_gaps s first stop (Some low) (Some high) eff).
    (\<exists>a b. gap_first_sequence g = Some a \<and> gap_last_sequence g = Some b \<and> a \<le> x \<and> x \<le> b) \<and>
    gap_class g = gap_class (sequence_gap (s_key s) 0 0 r eff) \<and>
    gap_source_id g = Some (fst (s_key s)) \<and> gap_source_epoch g = Some (snd (s_key s))"
proof -
  have seg: "s_seg_low s = map fst parts" "s_seg_high s = map (\<lambda>p. fst (snd p)) parts"
    "s_seg_reason s ! i = r"
    using arr i bound part by (simp_all add: arrays_def)
  from stretch_pairs_complete [OF arr bound i] obtain hd' tl' where
    pair: "((hd', tl'), r) \<in> set (stretch_pairs s first stop)" "hd' \<le> i" "i \<le> tl'"
    using seg(3) by auto
  from stretch_pairs_sound [OF arr bound pair(1)] have tl': "tl' < stop" by simp
  have "s_seg_low s ! hd' \<le> l"
    using sorted_nth_mono [OF sorted_part_lows [OF asc] pair(2)] seg(1) i bound part by simp
  moreover have "h \<le> s_seg_high s ! tl'"
    using sorted_nth_mono [OF sorted_part_highs [OF asc] pair(3)] seg(2) tl' bound part i by simp
  ultimately show ?thesis using pair(1) i x
    by (intro bexI [of _ "sequence_gap (s_key s) (max (s_seg_low s ! hd') low) (min (s_seg_high s ! tl') high) r eff"])
      (auto simp: segment_gaps_def image_iff gap_class_def sequence_gap_def mk_gap_def intro!: bexI [OF _ pair(1)])
qed

subsection \<open>Windows with known bounds\<close>

text \<open>A finalized source: its accounting is that of \<open>finalize\<close>; conflicts and manifests are filled in afterwards.\<close>

definition accounts :: "source \<Rightarrow> source" where
  "accounts f = f\<lparr>s_conflicted := [], s_conflicted_sorted := [], s_manifests := [], s_unsealed_epochs := [],
     s_manifestless := [], s_manifest_conflict := False\<rparr>"

lemma accounts_update [simp]:
  "accounts (f\<lparr>s_conflicted := a\<rparr>) = accounts f" "accounts (f\<lparr>s_conflicted_sorted := a\<rparr>) = accounts f"
  "accounts (f\<lparr>s_manifests := b\<rparr>) = accounts f" "accounts (f\<lparr>s_unsealed_epochs := a\<rparr>) = accounts f"
  "accounts (f\<lparr>s_manifestless := c\<rparr>) = accounts f" "accounts (f\<lparr>s_manifest_conflict := d\<rparr>) = accounts f"
  by (cases f, simp add: accounts_def)+

lemma accounts_fields:
  assumes "accounts f = accounts g"
  shows "s_key f = s_key g" "s_top f = s_top g" "s_heartbeat f = s_heartbeat g" "s_final f = s_final g"
    "s_sequences f = s_sequences g" "s_losses f = s_losses g"
    "s_missing_low f = s_missing_low g" "s_missing_high f = s_missing_high g" "s_seg_low f = s_seg_low g"
    "s_seg_high f = s_seg_high g" "s_seg_reason f = s_seg_reason g" "s_segment_of f = s_segment_of g"
    "s_by_reason f = s_by_reason g"
  using assms by (cases f; cases g; simp add: accounts_def)+

definition ready :: "source \<Rightarrow> source \<Rightarrow> bool" where
  "ready s f \<longleftrightarrow> collected s \<and> accounts f = accounts (finalize s) \<and> s_conflicted_sorted f = sorted_set (s_conflicted f)"

lemma ready_facts:
  assumes "ready s f"
  shows "arrays f (source_parts s)" "ascending (source_parts s)" "s_top f = source_top s"
    "s_key f = s_key s" "s_conflicted_sorted f = sorted_set (s_conflicted f)"
    "s_heartbeat f = s_heartbeat s" "s_final f = s_final s"
proof -
  have a: "collected s" "accounts f = accounts (finalize s)" and c: "s_conflicted_sorted f = sorted_set (s_conflicted f)"
    using assms by (simp_all add: ready_def)
  note f = accounts_fields [OF a(2)]
  show "arrays f (source_parts s)" using finalize_parts [OF a(1)] by (simp add: arrays_def f)
  show "s_top f = source_top s" "s_key f = s_key s" "s_heartbeat f = s_heartbeat s" "s_final f = s_final s"
    by (simp_all add: f) (simp_all add: finalize_def Let_def)
qed (use assms source_parts_ascending [of s] in \<open>simp_all add: ready_def\<close>)

lemma conflicted_gaps_Nil_iff:
  assumes "ready s f"
  shows "conflicted_gaps f low high = [] \<longleftrightarrow> (\<forall>x. low \<le> x \<and> x \<le> high \<longrightarrow> x \<notin> set (s_conflicted f))"
proof -
  let ?c = "s_conflicted_sorted f"
  let ?found = "drop (bisect_left ?c low) (take (bisect_right ?c high) ?c)"
  have "conflicted_gaps f low high = [] \<longleftrightarrow> ?found = []"
    by (auto simp: conflicted_gaps_def Let_def)
  also have "\<dots> \<longleftrightarrow> set ?found = {}" by simp
  also have "set ?found = {x \<in> set ?c. low \<le> x \<and> x \<le> high}"
    by (rule bisect_slice) (simp add: ready_facts(5) [OF assms])
  finally show ?thesis by (auto simp: ready_facts(5) [OF assms])
qed

lemma window_index:
  assumes "arrays f parts" and "ascending parts" and "i < length parts"
  shows "bisect_left (s_seg_high f) low \<le> i \<longleftrightarrow> low \<le> fst (snd (parts ! i))"
    and "i < bisect_right (s_seg_low f) high \<longleftrightarrow> fst (parts ! i) \<le> high"
  using assms bisect_left_nth [OF sorted_part_highs, of parts i low]
    bisect_right_nth [OF sorted_part_lows, of parts i high]
  by (auto simp: arrays_def not_le [symmetric])

lemma window_stop_le: "arrays f parts \<Longrightarrow> ascending parts \<Longrightarrow> bisect_right (s_seg_low f) high \<le> length parts"
  using bisect_right_le [OF sorted_part_lows, of parts high] by (simp add: arrays_def)

lemma part_at_missing:
  assumes "collected s" and "missing_position s x"
  obtains i l h r where "i < length (source_parts s)" "source_parts s ! i = (l, h, r)" "l \<le> x" "x \<le> h"
  using source_parts_cover [OF assms(1), of x] assms(2)
  by (metis in_part_simps in_set_conv_nth prod_cases3)

lemma parts_within:
  assumes "collected s" and "(l, h, r) \<in> set (source_parts s)"
  shows "l \<le> h \<and> (\<forall>x. l \<le> x \<and> x \<le> h \<longrightarrow> missing_position s x)"
  using assms source_parts_ascending [of s] source_parts_cover [OF assms(1)]
  by (fastforce simp: ascending_def)

lemma inside_stretch_Nil_iff:
  assumes r: "ready s f" and w: "low \<le> high \<or> source_top s \<le> high"
  shows "bisect_right (s_seg_low f) high \<le> bisect_left (s_seg_high f) low \<longleftrightarrow>
    (\<forall>x. low \<le> x \<and> x \<le> high \<longrightarrow> \<not> missing_position s x)"
proof -
  let ?P = "source_parts s" and ?a = "bisect_left (s_seg_high f) low" and ?b = "bisect_right (s_seg_low f) high"
  note facts = ready_facts [OF r]
  have c: "collected s" using r by (simp add: ready_def)
  have idx: "?a \<le> i \<and> i < ?b \<longleftrightarrow> low \<le> fst (snd (?P ! i)) \<and> fst (?P ! i) \<le> high" if "i < length ?P" for i
    using window_index [OF facts(1,2) that] by blast
  have "?b \<le> ?a" if none: "\<forall>x. low \<le> x \<and> x \<le> high \<longrightarrow> \<not> missing_position s x"
  proof (rule ccontr)
    assume "\<not> ?b \<le> ?a"
    then have lt: "?a < length ?P" "?a \<le> ?a \<and> ?a < ?b" using window_stop_le [OF facts(1,2), of high] by auto
    obtain l h q where part: "?P ! ?a = (l, h, q)" by (cases "?P ! ?a")
    have lh: "low \<le> h" "l \<le> high" using idx [OF lt(1)] lt(2) part by auto
    have "(l, h, q) \<in> set ?P" using lt(1) part by (metis nth_mem)
    from parts_within [OF c this] have inside: "l \<le> h" "\<And>x. l \<le> x \<Longrightarrow> x \<le> h \<Longrightarrow> missing_position s x" by auto
    from inside(2) [of h] inside(1) have "h \<le> source_top s" by (simp add: missing_position_def)
    with w lh have "low \<le> high" by linarith
    with lh inside have "missing_position s (max low l)" "low \<le> max low l" "max low l \<le> high"
      by (auto simp: max_def)
    with none show False by blast
  qed
  moreover have "\<not> missing_position s x" if "?b \<le> ?a" "low \<le> x" "x \<le> high" for x
  proof
    assume "missing_position s x"
    from part_at_missing [OF c this] obtain i l h q where "i < length ?P" "?P ! i = (l, h, q)" "l \<le> x" "x \<le> h" .
    with idx [of i] that show False by simp
  qed
  ultimately show ?thesis by blast
qed

definition window_high :: "source \<Rightarrow> int option \<Rightarrow> int" where
  "window_high f high = (case high of None \<Rightarrow> s_top f | Some h \<Rightarrow> h)"

lemma inside_gaps_Nil_iff:
  assumes r: "ready s f" and w: "low \<le> window_high f high \<or> high = None"
  shows "inside_gaps f low high eff = [] \<longleftrightarrow>
    (\<forall>x. low \<le> x \<and> x \<le> window_high f high \<longrightarrow> \<not> missing_position s x \<and> x \<notin> set (s_conflicted f))"
proof -
  let ?h = "window_high f high"
  note facts = ready_facts [OF r]
  have "low \<le> ?h \<or> source_top s \<le> ?h" using w facts(3) by (auto simp: window_high_def)
  moreover have "inside_gaps f low high eff = [] \<longleftrightarrow>
      bisect_right (s_seg_low f) ?h \<le> bisect_left (s_seg_high f) low \<and> conflicted_gaps f low ?h = []"
    unfolding inside_gaps_def Let_def window_high_def [symmetric]
    by (simp add: segment_gaps_Nil_iff [OF facts(1) window_stop_le [OF facts(1,2)]])
  ultimately show ?thesis
    by (simp add: inside_stretch_Nil_iff [OF r] conflicted_gaps_Nil_iff [OF r]) blast
qed

lemma inside_gaps_cover:
  assumes r: "ready s f" and x: "low \<le> x" "x \<le> window_high f high" and m: "missing_position s x"
  shows "\<exists>g\<in>set (inside_gaps f low high eff).
    (\<exists>a b. gap_first_sequence g = Some a \<and> gap_last_sequence g = Some b \<and> a \<le> x \<and> x \<le> b) \<and>
    gap_source_id g = Some (fst (s_key s)) \<and> gap_source_epoch g = Some (snd (s_key s)) \<and>
    gap_effect g = eff \<and>
    (gap_type g = Loss \<and> (\<exists>loss\<in>set (s_losses s). covers loss x) \<or>
     gap_type g = Sequence_gap \<and> (\<forall>loss\<in>set (s_losses s). \<not> covers loss x))"
proof -
  let ?P = "source_parts s" and ?h = "window_high f high"
  note facts = ready_facts [OF r]
  have c: "collected s" using r by (simp add: ready_def)
  from part_at_missing [OF c m] obtain i l h q where
    i: "i < length ?P" "?P ! i = (l, h, q)" and lxh: "l \<le> x" "x \<le> h" .
  have ab: "bisect_left (s_seg_high f) low \<le> i" "i < bisect_right (s_seg_low f) ?h"
    using window_index [OF facts(1,2) i(1)] i(2) x lxh by auto
  from segment_gaps_cover [where eff = eff, OF facts(1,2) window_stop_le [OF facts(1,2)] ab i(2) lxh x]
  obtain g where g: "g \<in> set (segment_gaps f (bisect_left (s_seg_high f) low)
        (bisect_right (s_seg_low f) ?h) (Some low) (Some ?h) eff)"
      "\<exists>a b. gap_first_sequence g = Some a \<and> gap_last_sequence g = Some b \<and> a \<le> x \<and> x \<le> b"
      "gap_class g = gap_class (sequence_gap (s_key f) 0 0 q eff)"
      "gap_source_id g = Some (fst (s_key s))" "gap_source_epoch g = Some (snd (s_key s))"
    by (auto simp: facts(4))
  have "g \<in> set (inside_gaps f low high eff)"
    using g(1) unfolding inside_gaps_def Let_def window_high_def [symmetric] by simp
  moreover have mem: "(l, h, q) \<in> set ?P" using i by (metis nth_mem)
  have "gap_type g = Loss \<and> (\<exists>loss\<in>set (s_losses s). covers loss x) \<or>
     gap_type g = Sequence_gap \<and> (\<forall>loss\<in>set (s_losses s). \<not> covers loss x)"
  proof (cases q)
    case None
    with g(3) part_unexplained [of l h s x] mem lxh show ?thesis by (simp add: gap_class_def)
  next
    case (Some reason)
    with mem have "(l, h, Some reason) \<in> set ?P" by simp
    from part_reason [OF this] obtain loss where "loss \<in> set (s_losses s)"
      "l_first_sequence loss \<le> l" "h \<le> l_last_sequence loss" by blast
    with lxh have "\<exists>loss\<in>set (s_losses s). covers loss x" by (intro bexI) (auto simp: covers_def)
    with g(3) Some show ?thesis by (simp add: gap_class_def)
  qed
  moreover have "gap_effect g = eff" using g(3) by (simp add: gap_class_def)
  ultimately show ?thesis using g(2,4,5) by blast
qed

subsection \<open>Windows bounded only by their records\<close>

lemma sweep_missing [simp]:
  "s_missing_low (sweep rs p a s) = s_missing_low s @ map fst rs"
  "s_missing_high (sweep rs p a s) = s_missing_high s @ map snd rs"
  by (induction rs p a s rule: sweep.induct) (simp_all add: Let_def)

lemma foldl_add_part_length: "length (s_seg_low (foldl add_part s ps)) = length (s_seg_low s) + length ps"
  by (induction ps arbitrary: s) (simp_all add: add_part_def Let_def split: prod.splits)

lemma sweep_segment_of:
  assumes "by_first ordered" and "separated rs" and "\<forall>(a, b)\<in>set rs. a0 \<le> a \<and> b0 \<le> b"
  shows "s_segment_of (sweep rs (dropWhile (\<lambda>l. l_first_sequence l \<le> b0) ordered)
      (filter (\<lambda>l. l_last_sequence l \<ge> a0) (takeWhile (\<lambda>l. l_first_sequence l \<le> b0) ordered)) s) =
    s_segment_of s @ map (\<lambda>i. length (s_seg_low s) + length (parts_of ordered (take i rs))) [0..<length rs]"
  using assms
proof (induction rs arbitrary: a0 b0 s)
  case (Cons r rs)
  obtain a b where r: "r = (a, b)" by (cases r)
  have ab: "a0 \<le> a" "b0 \<le> b" using Cons.prems(3) r by auto
  let ?active = "filter (\<lambda>l. l_last_sequence l \<ge> a) (takeWhile (\<lambda>l. l_first_sequence l \<le> b) ordered)"
  let ?s1 = "s\<lparr>s_missing_low := s_missing_low s @ [a], s_missing_high := s_missing_high s @ [b],
      s_segment_of := s_segment_of s @ [length (s_seg_low s)]\<rparr>"
  have "\<forall>(c, d)\<in>set rs. a \<le> c \<and> b \<le> d" "separated rs"
    using Cons.prems(2) r by (fastforce simp: separated_def)+
  then have "s_segment_of (sweep rs (dropWhile (\<lambda>l. l_first_sequence l \<le> b) ordered) ?active
      (foldl add_part ?s1 (segments a b ordered))) = s_segment_of s @ [length (s_seg_low s)] @
      map (\<lambda>i. length (s_seg_low s) + length (segments a b ordered) + length (parts_of ordered (take i rs))) [0..<length rs]"
    using Cons.IH [OF Cons.prems(1)] by (simp add: foldl_add_part_length)
  moreover have "[0..<length (r # rs)] = 0 # map Suc [0..<length rs]"
    by (simp del: upt_Suc add: map_Suc_upt upt_conv_Cons)
  ultimately show ?case
    using ab by (simp del: filter_append filter_filter upt_Suc add: r Let_def sweep_active [OF ab]
      active_segments [OF Cons.prems(1)] dropWhile_le_dropWhile parts_of_def o_def add.assoc)
qed (simp add: parts_of_def)

lemma finalize_ranges:
  assumes "collected s"
  shows "s_missing_low (finalize s) = map fst (missing_ranges (s_sequences s) (source_top s))"
    and "s_missing_high (finalize s) = map snd (missing_ranges (s_sequences s) (source_top s))"
    and "s_segment_of (finalize s) = map (\<lambda>i. length (parts_of (sort_key loss_order (s_losses s))
      (take i (missing_ranges (s_sequences s) (source_top s)))))
      [0..<Suc (length (missing_ranges (s_sequences s) (source_top s)))]"
proof -
  let ?o = "sort_key loss_order (s_losses s)" and ?m = "missing_ranges (s_sequences s) (source_top s)"
  let ?s0 = "s\<lparr>s_top := source_top s, s_missing := ?m\<rparr>"
  show "s_missing_low (finalize s) = map fst ?m" "s_missing_high (finalize s) = map snd ?m"
    using assms by (simp_all add: finalize_def Let_def collected_def)
  have "s_segment_of (sweep ?m ?o [] ?s0) = map (\<lambda>i. length (parts_of ?o (take i ?m))) [0..<length ?m]"
    using sweep_segment_of [OF by_first_sort [of "s_losses s"] collected_separated [OF assms]
        collected_lower [OF assms], of ?s0] assms
    by (simp add: collected_none collected_def)
  moreover have "length (s_seg_low (finalize s)) = length (parts_of ?o ?m)"
    using finalize_arrays [OF assms] by (simp add: arrays_def)
  ultimately show "s_segment_of (finalize s) =
      map (\<lambda>i. length (parts_of ?o (take i ?m))) [0..<Suc (length ?m)]"
    using assms by (simp add: finalize_def Let_def collected_def)
qed

lemma parts_of_take_mono:
  assumes "separated ranges" and "i < j" and "j \<le> length ranges"
  shows "length (parts_of losses (take i ranges)) < length (parts_of losses (take j ranges))"
proof -
  let ?d = "take (j - i) (drop i ranges)"
  have split: "take j ranges = take i ranges @ ?d"
    using assms(2) by (metis add_diff_inverse_nat less_imp_not_less take_add)
  have "?d \<noteq> []" using assms(2,3) by simp
  then obtain r rest where d: "?d = r # rest" by (cases ?d) auto
  obtain a b where r: "r = (a, b)" by (cases r)
  have "r \<in> set ranges" using d by (metis in_set_dropD in_set_takeD list.set_intros(1))
  with assms(1) r have "a \<le> b" by (auto simp: separated_def)
  then have "\<exists>part\<in>set (segments a b losses). in_part a part"
    unfolding segments_def by (simp add: tiles_cover [OF tiles_split_from])
  then have "segments a b losses \<noteq> []" by auto
  then show ?thesis by (simp add: split d r parts_of_def)
qed

lemma separated_sorted: "separated rs \<Longrightarrow> sorted (map fst rs) \<and> sorted (map snd rs)"
  by (induction rs) (fastforce simp: separated_def)+

lemma ranges_below_iff:
  assumes c: "collected s"
  shows "(\<forall>r\<in>set (missing_ranges (s_sequences s) (source_top s)). snd r < v) \<longleftrightarrow>
    (\<forall>x \<ge> v. \<not> missing_position s x)"
proof -
  let ?m = "missing_ranges (s_sequences s) (source_top s)"
  have spec: "(\<exists>r\<in>set ?m. in_range x r) \<longleftrightarrow> missing_position s x" for x
    using missing_ranges_spec [OF collected_bounds [OF c]] by (simp add: missing_position_def)
  have "\<forall>r\<in>set ?m. in_range (snd r) r"
    using collected_separated [OF c] by (fastforce simp: separated_def in_range_def)
  then show ?thesis using spec by (metis in_range_def leD leI order.trans)
qed

lemma near_gaps_Nil_iff:
  assumes r: "ready s f" and w: "low \<le> high + 2"
  shows "near_gaps f low high = [] \<longleftrightarrow> (\<forall>x \<ge> low - 1. \<not> missing_position s x) \<and>
    (\<forall>x. low - 1 \<le> x \<and> x \<le> high + 1 \<longrightarrow> x \<notin> set (s_conflicted f))"
proof -
  let ?m = "missing_ranges (s_sequences s) (source_top s)"
  let ?cut = "\<lambda>i. length (parts_of (sort_key loss_order (s_losses s)) (take i ?m))"
  let ?near = "bisect_left (s_missing_high f) (low - 1)" and ?after = "bisect_right (s_missing_low f) (high + 1)"
  have c: "collected s" using r by (simp add: ready_def)
  note facts = ready_facts [OF r]
  have f: "s_missing_low f = map fst ?m" "s_missing_high f = map snd ?m"
    "s_segment_of f = map ?cut [0..<Suc (length ?m)]"
    using r finalize_ranges [OF c] accounts_fields [of f "finalize s"] by (auto simp: ready_def)
  note sep = collected_separated [OF c]
  note mono = parts_of_take_mono [where losses = "sort_key loss_order (s_losses s)", OF sep]
  have sorted: "sorted (map fst ?m)" "sorted (map snd ?m)"
    using separated_sorted [OF sep] by simp_all
  have after: "?after \<le> length ?m" using bisect_right_le [OF sorted(1)] by (simp add: f)
  have near: "?near \<le> length ?m" using bisect_left_le [OF sorted(2)] by (simp add: f)
  have so: "s_segment_of f ! i = ?cut i" if "i \<le> length ?m" for i using that by (simp add: f nth_append)
  have last: "last (s_segment_of f) = length (source_parts s)" by (simp add: f source_parts_def)
  have le: "?cut i \<le> length (source_parts s)" if "i \<le> length ?m" for i
    using mono [of i "length ?m"] that by (cases "i = length ?m") (auto simp: source_parts_def)
  have "(if ?near < ?after then segment_gaps f (s_segment_of f ! ?near) (s_segment_of f ! ?after) None None Partial
      else []) = [] \<longleftrightarrow> ?after \<le> ?near"
    using mono [of ?near ?after] after by (simp add: so near segment_gaps_Nil_iff [OF facts(1) le [OF after]] not_le)
  moreover have "segment_gaps f (s_segment_of f ! ?after) (last (s_segment_of f)) None None Unverified = []
      \<longleftrightarrow> ?after = length ?m"
  proof (cases "?after = length ?m")
    case True
    then have "s_segment_of f ! ?after = last (s_segment_of f)"
      using so [OF after] last by (simp add: source_parts_def)
    with True show ?thesis by (simp add: segment_gaps_def)
  next
    case False
    then have "?cut ?after < length (source_parts s)"
      using mono [of ?after "length ?m"] after by (simp add: source_parts_def)
    then show ?thesis using False by (simp add: so after last segment_gaps_Nil_iff [OF facts(1) order_refl])
  qed
  ultimately have "near_gaps f low high = [] \<longleftrightarrow>
      ?after \<le> ?near \<and> ?after = length ?m \<and> conflicted_gaps f (low - 1) (high + 1) = []"
    unfolding near_gaps_def Let_def append_is_Nil_conv by presburger
  moreover have "?after \<le> ?near \<and> ?after = length ?m \<longleftrightarrow> (\<forall>r\<in>set ?m. snd r < low - 1)"
  proof
    assume a: "?after \<le> ?near \<and> ?after = length ?m"
    then have "\<forall>i<length ?m. i < ?near" by simp
    then show "\<forall>r\<in>set ?m. snd r < low - 1"
      using bisect_left_nth [OF sorted(2)] by (simp add: f all_set_conv_all_nth)
  next
    assume a: "\<forall>r\<in>set ?m. snd r < low - 1"
    then have "\<forall>i<length ?m. i < ?near" using bisect_left_nth [OF sorted(2)] by (simp add: f)
    then have "?near = length ?m" using near by (meson le_less not_less_iff_gr_or_eq)
    moreover have "\<forall>i<length ?m. i < ?after"
    proof (intro allI impI)
      fix i assume i: "i < length ?m"
      then have "snd (?m ! i) < low - 1" "fst (?m ! i) \<le> snd (?m ! i)"
        using a sep by (auto simp: separated_def split_beta)
      with i w show "i < ?after" using bisect_right_nth [OF sorted(1), of i "high + 1"] by (simp add: f)
    qed
    then have "?after = length ?m" using after by (meson le_less not_less_iff_gr_or_eq)
    ultimately show "?after \<le> ?near \<and> ?after = length ?m" by simp
  qed
  moreover have "(\<forall>r\<in>set ?m. snd r < low - 1) \<longleftrightarrow> (\<forall>x \<ge> low - 1. \<not> missing_position s x)"
    by (rule ranges_below_iff [OF c])
  ultimately show ?thesis unfolding conflicted_gaps_Nil_iff [OF r] by (metis (no_types, lifting))
qed

subsection \<open>Properties\<close>

definition sample_loss :: "int \<Rightarrow> int \<Rightarrow> string \<Rightarrow> loss_obs" where
  "sample_loss a b reason = \<lparr>l_source_id = ''s'', l_source_epoch = 1, l_reason = reason, l_count = b - a + 1,
     l_first_sequence = a, l_last_sequence = b, l_authenticated = False, l_segment_id = None\<rparr>"

definition sample_source :: source where
  "sample_source = (new_source (''s'', 1))\<lparr>s_sequences := [4, 0, 1], s_losses := [sample_loss 2 2 ''overflow''],
     s_heartbeat := 6\<rparr>"

lemma sample_source_collected: "collected sample_source"
  by (simp add: collected_def sample_source_def new_source_def sample_loss_def)

lemma sample_source_missing: "missing_position sample_source x \<longleftrightarrow> x \<in> {2, 3, 5, 6}"
  by (auto simp: missing_position_def sample_source_def new_source_def sample_loss_def source_top_def)

lemma sample_source_ready: "ready sample_source (finalize_conflicts ((finalize sample_source)\<lparr>s_conflicted := [1]\<rparr>))"
  using sample_source_collected by (simp add: ready_def finalize_conflicts_def)

lemma set_drop_take: "stop \<le> length xs \<Longrightarrow> set (drop first (take stop xs)) = (!) xs ` {first..<stop}"
proof -
  assume "stop \<le> length xs"
  then have "drop first (take stop xs) = map ((!) xs) [first..<stop]"
    by (simp add: list_eq_iff_nth_eq)
  then show ?thesis by simp
qed

text \<open>
  C23. The missing ranges of a source epoch are exactly the sequences from 0 to the highest one its
  records, losses or heartbeats name that no record carries; they are in ascending order, non-empty
  and never adjacent.
\<close>

theorem missing_ranges_exact:
  assumes "collected s"
  shows "((\<exists>(a, b)\<in>set (missing_ranges (s_sequences s) (source_top s)). a \<le> y \<and> y \<le> b) \<longleftrightarrow>
      0 \<le> y \<and> y \<le> source_top s \<and> y \<notin> set (s_sequences s)) \<and>
    (\<forall>(a, b)\<in>set (missing_ranges (s_sequences s) (source_top s)). a \<le> b) \<and>
    sorted_wrt (\<lambda>r r'. snd r + 1 < fst r') (missing_ranges (s_sequences s) (source_top s))"
  using missing_ranges_spec [OF collected_bounds [OF assms], of y] collected_separated [OF assms]
  by (simp add: in_range_def split_beta separated_def)

theorem missing_ranges_exact_witness:
  "(\<exists>(a, b)\<in>set (missing_ranges (s_sequences sample_source) (source_top sample_source)). a \<le> 5 \<and> 5 \<le> b)"
  using missing_ranges_exact [OF sample_source_collected, of 5] sample_source_missing [of 5]
  by (simp add: missing_position_def)

text \<open>
  C14. The single pass over ranges and losses that fills the sorted arrays computes the reference result:
  splitting every missing range against all losses. Its parts cover exactly the missing sequences, in
  ascending order without overlap; a part with a reason lies inside a loss record with that reason,
  and no loss record covers any sequence of a part without one.
\<close>

theorem sweep_equals_splitting:
  assumes "collected s"
  shows "arrays (finalize s) (source_parts s) \<and> ascending (source_parts s) \<and>
    (\<forall>x. (\<exists>part\<in>set (source_parts s). in_part x part) \<longleftrightarrow> missing_position s x) \<and>
    (\<forall>l h r. (l, h, Some r) \<in> set (source_parts s) \<longrightarrow>
       (\<exists>loss\<in>set (s_losses s). l_reason loss = r \<and> l_first_sequence loss \<le> l \<and> h \<le> l_last_sequence loss)) \<and>
    (\<forall>l h x. (l, h, None) \<in> set (source_parts s) \<and> l \<le> x \<and> x \<le> h \<longrightarrow> (\<forall>loss\<in>set (s_losses s). \<not> covers loss x))"
  using finalize_parts [OF assms] source_parts_ascending [OF assms] source_parts_cover [OF assms]
    part_reason part_unexplained by blast

theorem sweep_equals_splitting_witness:
  "arrays (finalize sample_source) (source_parts sample_source) \<and>
   (\<exists>part\<in>set (source_parts sample_source). in_part 3 part) \<and>
   source_parts sample_source = [(2, 2, Some ''overflow''), (3, 3, None), (5, 6, None)]"
proof -
  have "source_parts sample_source = [(2, 2, Some ''overflow''), (3, 3, None), (5, 6, None)]" by code_simp
  then show ?thesis using sweep_equals_splitting [OF sample_source_collected] by simp
qed

text \<open>
  C25. Summarising a long stretch of missing parts (one gap per reason over more than 16 parts) loses no
  information about the verdict: the listed and the summarised form give the same set of gap types,
  effects and reasons, namely one per part of the stretch.
\<close>

theorem summary_keeps_classes:
  assumes "collected s" and "stop \<le> length (source_parts s)"
  shows "gap_class ` set (segment_gaps (finalize s) first stop low high eff) =
    (\<lambda>(l, h, r). gap_class (sequence_gap (s_key s) l h r eff)) ` set (drop first (take stop (source_parts s)))"
proof -
  note arr = finalize_parts [OF assms(1)]
  have key: "s_key (finalize s) = s_key s" by (simp add: finalize_def Let_def)
  have cls: "gap_class (sequence_gap k a b r e) = gap_class (sequence_gap k 0 0 r e)" for k a b r e
    by (simp add: gap_class_def sequence_gap_def)
  have "set (drop first (take stop (source_parts s))) = (!) (source_parts s) ` {first..<stop}"
    using assms(2) by (rule set_drop_take)
  moreover have "gap_class (sequence_gap (s_key s) 0 0 (s_seg_reason (finalize s) ! i) eff) =
      (\<lambda>(l, h, r). gap_class (sequence_gap (s_key s) l h r eff)) (source_parts s ! i)" if "i \<in> {first..<stop}" for i
    using that arr assms(2) by (simp add: arrays_def split_beta cls [of _ "fst (source_parts s ! i)"])
  ultimately show ?thesis
    unfolding segment_gaps_classes [OF arr assms(2)] key by (simp add: image_image cong: image_cong_simp)
qed

theorem summary_keeps_classes_witness:
  "gap_class ` set (segment_gaps (finalize sample_source) 0 3 None None Partial) =
     {(Loss, Partial, Some ''overflow''), (Sequence_gap, Partial, None)}"
proof -
  have "source_parts sample_source = [(2, 2, Some ''overflow''), (3, 3, None), (5, 6, None)]" by code_simp
  then show ?thesis using summary_keeps_classes [OF sample_source_collected, of 3 0 None None Partial]
    by (simp add: gap_class_def sequence_gap_def insert_commute)
qed

text \<open>
  C10. The gaps reported inside a window of a source are empty exactly when no sequence of the window is
  missing and none is claimed twice; and every missing sequence of the window lies inside a reported gap
  of that source with the asked effect, of type \<^verbatim>\<open>loss\<close> when a loss record covers it and
  \<^verbatim>\<open>sequence_gap\<close> when none does.
\<close>

theorem inside_gaps_sound_complete:
  assumes r: "ready s f" and w: "low \<le> window_high f high \<or> high = None"
  shows "(inside_gaps f low high eff = [] \<longleftrightarrow>
      (\<forall>x. low \<le> x \<and> x \<le> window_high f high \<longrightarrow> \<not> missing_position s x \<and> x \<notin> set (s_conflicted f))) \<and>
    (\<forall>x. low \<le> x \<and> x \<le> window_high f high \<and> missing_position s x \<longrightarrow>
      (\<exists>g\<in>set (inside_gaps f low high eff).
        (\<exists>a b. gap_first_sequence g = Some a \<and> gap_last_sequence g = Some b \<and> a \<le> x \<and> x \<le> b) \<and>
        gap_source_id g = Some (fst (s_key s)) \<and> gap_source_epoch g = Some (snd (s_key s)) \<and> gap_effect g = eff \<and>
        (gap_type g = Loss \<and> (\<exists>loss\<in>set (s_losses s). covers loss x) \<or>
         gap_type g = Sequence_gap \<and> (\<forall>loss\<in>set (s_losses s). \<not> covers loss x))))"
  using inside_gaps_Nil_iff [OF assms] inside_gaps_cover [OF r] by blast

theorem inside_gaps_sound_complete_witness:
  "inside_gaps (finalize_conflicts ((finalize sample_source)\<lparr>s_conflicted := [1]\<rparr>)) 4 (Some 4) Partial = [] \<and>
   inside_gaps (finalize_conflicts ((finalize sample_source)\<lparr>s_conflicted := [1]\<rparr>)) 2 (Some 4) Partial \<noteq> []"
proof
  let ?f = "finalize_conflicts ((finalize sample_source)\<lparr>s_conflicted := [1]\<rparr>)"
  have "\<not> missing_position sample_source x \<and> x \<notin> set (s_conflicted ?f)" if "4 \<le> x" "x \<le> 4" for x
    using that by (simp add: sample_source_missing finalize_conflicts_def)
  then have "\<forall>x. 4 \<le> x \<and> x \<le> window_high ?f (Some 4) \<longrightarrow> \<not> missing_position sample_source x \<and> x \<notin> set (s_conflicted ?f)"
    unfolding window_high_def option.case by blast
  moreover have "4 \<le> window_high ?f (Some 4)" by (simp add: window_high_def)
  ultimately show "inside_gaps ?f 4 (Some 4) Partial = []"
    using inside_gaps_sound_complete [OF sample_source_ready, of 4 "Some 4" Partial] by blast
  have "missing_position sample_source 3" by (simp add: sample_source_missing)
  then show "inside_gaps ?f 2 (Some 4) Partial \<noteq> []"
    using inside_gaps_sound_complete [OF sample_source_ready, of 2 "Some 4" Partial] by (force simp: window_high_def)
qed




end
