(* ===== verification/Ids.thy ===== *)
theory Ids
  imports Report
begin

text \<open>
  Identifier formats and predecessor entries. The regular expressions the recorder and the verifier
  share (\<^verbatim>\<open>sdk/python/src/fabric/_capture_types.py\<close>, \<^verbatim>\<open>reconstruct/_inputs.py\<close>) are recognisers
  on strings (every use is \<^verbatim>\<open>fullmatch\<close>, so no trailing newline is accepted), and the
  predecessor entry \<^verbatim>\<open><segment>/<source>/<epoch>/<last_sequence>/sha256:<hex>\<close> is parsed into its
  fields (\<^verbatim>\<open>PREDECESSOR_RE\<close>). No field of the pattern contains a slash, so matching the pattern is
  splitting at the slashes and matching the five pieces. The lemmas show that the parser reads back
  exactly what \<open>format_entry\<close> writes.
\<close>

subsection \<open>Character classes and formats\<close>

definition hex_lower :: "char \<Rightarrow> bool" where
  "hex_lower c \<longleftrightarrow> decimal_digit c \<or> (CHR ''a'' \<le> c \<and> c \<le> CHR ''f'')"

definition upper_alpha :: "char \<Rightarrow> bool" where
  "upper_alpha c \<longleftrightarrow> CHR ''A'' \<le> c \<and> c \<le> CHR ''Z''"

definition alnum :: "char \<Rightarrow> bool" where
  "alnum c \<longleftrightarrow> lower_alpha c \<or> upper_alpha c \<or> decimal_digit c"

definition hex_n :: "nat \<Rightarrow> string \<Rightarrow> bool" where
  "hex_n n s \<longleftrightarrow> length s = n \<and> list_all hex_lower s"

definition opaque_id_re :: "string \<Rightarrow> bool" where
  "opaque_id_re s = (case s of [] \<Rightarrow> False
     | c # cs \<Rightarrow> alnum c \<and> length cs \<le> 127 \<and> list_all (\<lambda>d. alnum d \<or> d \<in> set ''._:-'') cs)"

definition segment_id_re :: "string \<Rightarrow> bool" where
  "segment_id_re s \<longleftrightarrow> take 4 s = ''seg-'' \<and> hex_n 32 (drop 4 s)"

definition branch_id_re :: "string \<Rightarrow> bool" where
  "branch_id_re s \<longleftrightarrow> take 3 s = ''br-'' \<and> hex_n 32 (drop 3 s)"

definition prefixed_digest_re :: "string \<Rightarrow> bool" where
  "prefixed_digest_re s \<longleftrightarrow> take 7 s = ''sha256:'' \<and> hex_n 64 (drop 7 s)"

definition positive_re :: "string \<Rightarrow> bool" where
  "positive_re s = (case s of [] \<Rightarrow> False
     | c # cs \<Rightarrow> decimal_digit c \<and> c \<noteq> CHR ''0'' \<and> length cs \<le> 18 \<and> list_all decimal_digit cs)"

definition decimal_re :: "string \<Rightarrow> bool" where
  "decimal_re s \<longleftrightarrow> s = ''0'' \<or> positive_re s"

definition last_sequence_re :: "string \<Rightarrow> bool" where
  "last_sequence_re s \<longleftrightarrow> s = ''-1'' \<or> s = ''0'' \<or> positive_re s"

definition uuid4_re :: "string \<Rightarrow> bool" where
  "uuid4_re s \<longleftrightarrow> length s = 36 \<and>
     (\<forall>i<36. if i \<in> {8, 13, 18, 23} then s ! i = CHR ''-''
             else if i = 14 then s ! i = CHR ''4''
             else if i = 19 then s ! i \<in> set ''89ab'' else hex_lower (s ! i))"

text \<open>\<^verbatim>\<open>int(s)\<close> of a string the patterns above accept.\<close>

definition str_int :: "string \<Rightarrow> int" where
  "str_int s = (case s of [] \<Rightarrow> 0
     | c # cs \<Rightarrow> if c = CHR ''-'' then - int (str_nat cs) else int (str_nat s))"

subsection \<open>Splitting\<close>

fun split_on :: "char \<Rightarrow> string \<Rightarrow> string list" where
  "split_on c [] = [[]]"
| "split_on c (x # xs) =
     (if x = c then [] # split_on c xs
      else case split_on c xs of [] \<Rightarrow> [[x]] | y # ys \<Rightarrow> (x # y) # ys)"

lemma split_on_free [simp]: "c \<notin> set xs \<Longrightarrow> split_on c xs = [xs]"
  by (induction xs) auto

lemma split_on_append [simp]: "c \<notin> set xs \<Longrightarrow> split_on c (xs @ c # ys) = xs # split_on c ys"
  by (induction xs) auto

definition rpartition :: "char \<Rightarrow> string \<Rightarrow> string \<times> string" where
  "rpartition c s = (rev (drop 1 (dropWhile (\<lambda>x. x \<noteq> c) (rev s))), rev (takeWhile (\<lambda>x. x \<noteq> c) (rev s)))"

lemma rpartition_append [simp]: "c \<notin> set ys \<Longrightarrow> rpartition c (xs @ c # ys) = (xs, ys)"
proof -
  assume "c \<notin> set ys"
  then have "dropWhile (\<lambda>x. x \<noteq> c) (rev ys @ [c] @ rev xs) = [c] @ rev xs"
    "takeWhile (\<lambda>x. x \<noteq> c) (rev ys @ [c] @ rev xs) = rev ys"
    by (auto simp: dropWhile_append takeWhile_append)
  then show ?thesis by (simp add: rpartition_def)
qed

subsection \<open>Predecessor entries\<close>

record entry =
  e_segment_id :: string
  e_source_id :: string
  e_epoch :: int
  e_last_sequence :: int
  e_manifest_digest :: string

definition match_entry :: "string \<Rightarrow> (string \<times> string \<times> string \<times> string \<times> string) option" where
  "match_entry s = (case split_on CHR ''/'' s of
     [a, b, c, d, e] \<Rightarrow>
       if segment_id_re a \<and> opaque_id_re b \<and> positive_re c \<and> last_sequence_re d \<and> prefixed_digest_re e
       then Some (a, b, c, d, e) else None
   | _ \<Rightarrow> None)"

definition parse_entry :: "string \<Rightarrow> entry option" where
  "parse_entry s = (case match_entry s of None \<Rightarrow> None
     | Some (a, b, c, d, e) \<Rightarrow> Some \<lparr>e_segment_id = a, e_source_id = b, e_epoch = str_int c,
         e_last_sequence = str_int d, e_manifest_digest = e\<rparr>)"

definition int64_max :: int where "int64_max = 2 ^ 63 - 1"

definition predecessor_value :: "string \<Rightarrow> string option" where
  "predecessor_value s =
     (if s = ''none'' then Some ''none''
      else case match_entry s of None \<Rightarrow> None
        | Some (a, b, c, d, e) \<Rightarrow>
            if str_int c > int64_max then None
            else if str_int d \<le> int64_max then Some s else None)"

definition format_entry :: "string \<Rightarrow> string \<Rightarrow> int \<Rightarrow> int \<Rightarrow> string \<Rightarrow> string" where
  "format_entry seg source epoch last_seq digest =
     seg @ ''/'' @ source @ ''/'' @ int_str epoch @ ''/'' @ int_str last_seq @ ''/'' @ digest"

subsection \<open>Decimal strings\<close>

lemma decimal_digit_digit_char [simp]: "n < 10 \<Longrightarrow> decimal_digit (digit_char n)"
  by (simp add: decimal_digit_def digit_char_def less_eq_char_def)

lemma digit_char_consts: "digit_char 0 = CHR ''0''" "digit_char (Suc 0) = CHR ''1''"
proof -
  have "digit_char 0 = char_of (of_char (CHR ''0'') :: nat)"
    "digit_char (Suc 0) = char_of (of_char (CHR ''1'') :: nat)"
    by (simp_all add: digit_char_def del: char_of_char)
  then show "digit_char 0 = CHR ''0''" "digit_char (Suc 0) = CHR ''1''"
    by (simp_all only: char_of_char)
qed

lemma digit_char_zero_iff: "n < 10 \<Longrightarrow> digit_char n = CHR ''0'' \<longleftrightarrow> n = 0"
  using digit_value_char [of n] digit_value_char [of 0] digit_char_consts(1) by fastforce

lemma nat_str_digits: "list_all decimal_digit (nat_str n)"
  by (induction n rule: nat_str.induct) (subst nat_str.simps, simp)

lemma nat_str_neq_Nil [simp]: "nat_str n \<noteq> []"
  by (subst nat_str.simps) simp

lemma hd_nat_str: "0 < n \<Longrightarrow> hd (nat_str n) \<noteq> CHR ''0''"
proof (induction n rule: nat_str.induct)
  case (1 n)
  then show ?case
    by (subst nat_str.simps) (auto simp: digit_char_zero_iff hd_append)
qed

lemma length_nat_str: "n < 10 ^ Suc k \<Longrightarrow> length (nat_str n) \<le> Suc k"
proof (induction k arbitrary: n)
  case 0
  then show ?case by (subst nat_str.simps) simp
next
  case (Suc k)
  then have "length (nat_str (n div 10)) \<le> Suc k" by (intro Suc.IH) (simp add: div_less_iff_less_mult)
  then show ?case by (subst nat_str.simps) simp
qed

lemma positive_re_nat_str: "0 < n \<Longrightarrow> n < 10 ^ 19 \<Longrightarrow> positive_re (nat_str n)"
  using length_nat_str [of n 18] hd_nat_str [of n] nat_str_digits [of n]
  by (cases "nat_str n") (auto simp: positive_re_def)

lemma nat_str_0 [simp]: "nat_str 0 = ''0''"
  by (simp add: nat_str.simps digit_char_consts)

lemma nat_str_1: "nat_str (Suc 0) = ''1''"
  by (simp add: nat_str.simps digit_char_consts)

lemma not_minus_digit: "decimal_digit c \<Longrightarrow> c \<noteq> CHR ''-''"
  by (auto simp: decimal_digit_def less_eq_char_def)

lemma str_int_int_str [simp]: "str_int (int_str i) = i"
proof (cases "i < 0")
  case False
  obtain c cs where c: "nat_str (nat i) = c # cs" by (cases "nat_str (nat i)") auto
  then have "c \<noteq> CHR ''-''" using nat_str_digits [of "nat i"] not_minus_digit by auto
  with c False show ?thesis
    using str_nat_nat_str [of "nat i"] by (simp add: int_str_def str_int_def)
qed (simp add: int_str_def str_int_def)

lemma last_sequence_re_int_str: "-1 \<le> i \<Longrightarrow> i < 10 ^ 19 \<Longrightarrow> last_sequence_re (int_str i)"
proof -
  assume i: "-1 \<le> i" "i < 10 ^ 19"
  consider "i = -1" | "i = 0" | "0 < i" using i by linarith
  then show ?thesis
  proof cases
    case 3
    then have "positive_re (nat_str (nat i))" using i by (intro positive_re_nat_str) auto
    with 3 show ?thesis by (simp add: last_sequence_re_def int_str_def)
  qed (simp_all add: last_sequence_re_def int_str_def nat_str_1)
qed

lemma positive_re_int_str: "0 < i \<Longrightarrow> i < 10 ^ 19 \<Longrightarrow> positive_re (int_str i)"
  by (simp add: int_str_def positive_re_nat_str)

subsection \<open>Round trip\<close>

lemma no_slash:
  "segment_id_re s \<Longrightarrow> CHR ''/'' \<notin> set s" "opaque_id_re s \<Longrightarrow> CHR ''/'' \<notin> set s"
  "prefixed_digest_re s \<Longrightarrow> CHR ''/'' \<notin> set s" "positive_re s \<Longrightarrow> CHR ''/'' \<notin> set s"
  "branch_id_re s \<Longrightarrow> CHR ''/'' \<notin> set s"
proof -
  have hex: "CHR ''/'' \<notin> set t" if "hex_n n t" for n t
    using that by (auto simp: hex_n_def list_all_iff hex_lower_def decimal_digit_def less_eq_char_def)
  have pre: "CHR ''/'' \<notin> set t" if "take k t = p" "hex_n n (drop k t)" "CHR ''/'' \<notin> set p" for k t p n
    using that hex by (metis append_take_drop_id Un_iff set_append)
  show "segment_id_re s \<Longrightarrow> CHR ''/'' \<notin> set s" "prefixed_digest_re s \<Longrightarrow> CHR ''/'' \<notin> set s"
      "branch_id_re s \<Longrightarrow> CHR ''/'' \<notin> set s"
    using pre [of 4 s "''seg-''" 32] pre [of 7 s "''sha256:''" 64] pre [of 3 s "''br-''" 32]
    by (auto simp: segment_id_re_def prefixed_digest_re_def branch_id_re_def)
  show "opaque_id_re s \<Longrightarrow> CHR ''/'' \<notin> set s"
    by (auto simp: opaque_id_re_def alnum_def lower_alpha_def upper_alpha_def decimal_digit_def
        less_eq_char_def list_all_iff split: list.splits)
  show "positive_re s \<Longrightarrow> CHR ''/'' \<notin> set s"
    by (auto simp: positive_re_def decimal_digit_def less_eq_char_def list_all_iff split: list.splits)
qed

lemma no_slash_last: "last_sequence_re s \<Longrightarrow> CHR ''/'' \<notin> set s"
  using no_slash(4) [of s] by (auto simp: last_sequence_re_def)

lemma match_format_entry:
  assumes "segment_id_re seg" "opaque_id_re source" "0 < epoch" "epoch < 10 ^ 19" "-1 \<le> l" "l < 10 ^ 19"
    "prefixed_digest_re digest"
  shows "match_entry (format_entry seg source epoch l digest) =
    Some (seg, source, int_str epoch, int_str l, digest)"
proof -
  have "positive_re (int_str epoch)" "last_sequence_re (int_str l)"
    using assms by (simp_all add: positive_re_int_str last_sequence_re_int_str)
  moreover from this have "CHR ''/'' \<notin> set (int_str epoch)" "CHR ''/'' \<notin> set (int_str l)"
    by (simp_all add: no_slash(4) no_slash_last)
  ultimately show ?thesis
    using assms no_slash [of seg] no_slash [of source] no_slash [of digest]
    by (simp add: match_entry_def format_entry_def)
qed

subsection \<open>Properties\<close>

text \<open>
  C26. A formatted predecessor entry reads back: for a well-formed segment id, source id and digest, an
  epoch from 1 and a last sequence from -1, both below ten to the nineteenth, parsing the formatted
  entry gives exactly the five values.
\<close>

theorem parse_format_entry:
  assumes "segment_id_re seg" "opaque_id_re source" "0 < epoch" "epoch < 10 ^ 19" "-1 \<le> l" "l < 10 ^ 19"
    "prefixed_digest_re digest"
  shows "parse_entry (format_entry seg source epoch l digest) =
    Some \<lparr>e_segment_id = seg, e_source_id = source, e_epoch = epoch, e_last_sequence = l, e_manifest_digest = digest\<rparr>"
  using match_format_entry [OF assms] by (simp add: parse_entry_def)

theorem parse_format_entry_witness:
  "parse_entry (format_entry (''seg-'' @ replicate 32 CHR ''a'') ''s-1'' 3 (- 1) (''sha256:'' @ replicate 64 CHR ''0'')) =
     Some \<lparr>e_segment_id = ''seg-'' @ replicate 32 CHR ''a'', e_source_id = ''s-1'', e_epoch = 3, e_last_sequence = - 1,
       e_manifest_digest = ''sha256:'' @ replicate 64 CHR ''0''\<rparr>"
proof (rule parse_format_entry)
  show "segment_id_re (''seg-'' @ replicate 32 CHR ''a'')" by code_simp
  show "opaque_id_re ''s-1''" by code_simp
  show "prefixed_digest_re (''sha256:'' @ replicate 64 CHR ''0'')" by code_simp
qed simp_all

end
