(* ===== verification/Labels.thy ===== *)
theory Labels
  imports Ids
begin

text \<open>
  Label pseudonyms and report ids (\<^verbatim>\<open>sdk/python/src/fabric/_sequence.py\<close>: \<^verbatim>\<open>label_pseudonym\<close>,
  \<^verbatim>\<open>run_pseudonym\<close>, \<^verbatim>\<open>source_label\<close>, \<^verbatim>\<open>encode_opaque_id\<close>, \<^verbatim>\<open>resolve_run_id\<close>;
  \<^verbatim>\<open>reconstruct/_ids.py\<close>). The digest is a parameter \<open>H\<close>: the hex digest of SHA-256, or of
  HMAC-SHA-256 under a fixed key, whose only property used is that it has 64 lower-case hex digits
  (\<open>hex_digest\<close>). The lemmas show that a reported source or run id is always in pseudonymous form and
  that projecting an id twice changes nothing.
\<close>

type_synonym hash = "string \<Rightarrow> string"

definition label_pseudonym :: "hash \<Rightarrow> string \<Rightarrow> string \<Rightarrow> string" where
  "label_pseudonym H pre v = pre @ take 32 (H v)"

definition run_pseudonym :: "hash \<Rightarrow> string \<Rightarrow> string" where
  "run_pseudonym H v = label_pseudonym H ''r-'' v"

definition source_label :: "hash \<Rightarrow> string \<Rightarrow> bool \<Rightarrow> string" where
  "source_label H v clear = (if clear then v else label_pseudonym H ''s-'' v)"

definition operator_label :: "hash \<Rightarrow> string \<Rightarrow> bool \<Rightarrow> string" where
  "operator_label H v clear = (if clear then v else label_pseudonym H ''lbl-'' v)"

definition encode_opaque_id :: "hash \<Rightarrow> string \<Rightarrow> string" where
  "encode_opaque_id H v = (if opaque_id_re v then v else ''h-'' @ take 40 (H v))"

definition prefixed_hex :: "string \<Rightarrow> nat \<Rightarrow> string \<Rightarrow> bool" where
  "prefixed_hex pre n v \<longleftrightarrow> take (length pre) v = pre \<and> hex_n n (drop (length pre) v)"

definition kept_run_id :: "string \<Rightarrow> bool" where
  "kept_run_id v \<longleftrightarrow> prefixed_hex ''r-'' 32 v \<or> prefixed_hex ''trace:'' 32 v \<or> prefixed_hex ''h-'' 40 v"

definition source_pseudonym :: "string \<Rightarrow> bool" where
  "source_pseudonym v \<longleftrightarrow> prefixed_hex ''s-'' 32 v"

text \<open>\<^verbatim>\<open>_SOURCE_RUN_ID\<close>: the greedy first group ends at the last colon, and a dot matches no newline.\<close>

definition source_run_id :: "string \<Rightarrow> (string \<times> string) option" where
  "source_run_id v =
     (if take 7 v = ''source:'' \<and> CHR '':'' \<in> set (drop 7 v)
      then case rpartition CHR '':'' (drop 7 v) of (source, epoch) \<Rightarrow>
        if source \<noteq> [] \<and> CHR 0x0A \<notin> set source \<and> epoch \<noteq> [] \<and> length epoch \<le> 20 \<and> list_all decimal_digit epoch
        then Some (source, epoch) else None
      else None)"

definition report_source_id :: "hash \<Rightarrow> string \<Rightarrow> string" where
  "report_source_id H v = (if source_pseudonym v then v else source_label H v False)"

definition report_run_id :: "hash \<Rightarrow> string \<Rightarrow> string" where
  "report_run_id H v =
     (if kept_run_id v then v
      else case source_run_id v of
        Some (source, epoch) \<Rightarrow> ''source:'' @ report_source_id H source @ '':'' @ epoch
      | None \<Rightarrow> run_pseudonym H v)"

definition report_tenant_id :: "hash \<Rightarrow> string \<Rightarrow> string" where
  "report_tenant_id H v = label_pseudonym H ''t-'' v"

definition fallback_run_id :: "hash \<Rightarrow> source_key \<Rightarrow> string" where
  "fallback_run_id H key = encode_opaque_id H (''source:'' @ fst key @ '':'' @ int_str (snd key))"

definition predecessor_label :: "hash \<Rightarrow> string \<Rightarrow> string option" where
  "predecessor_label H e =
     (if e = ''none'' then Some e
      else case split_on CHR ''/'' e of
        a # b # rest \<Rightarrow> Some (foldl (\<lambda>acc p. acc @ ''/'' @ p) a (report_source_id H b # rest))
      | _ \<Rightarrow> None)"

subsection \<open>Projected forms\<close>

definition hex_digest :: "hash \<Rightarrow> bool" where
  "hex_digest H \<longleftrightarrow> (\<forall>v. hex_n 64 (H v))"

lemma prefixed_hex_pseudonym: "hex_digest H \<Longrightarrow> prefixed_hex pre 32 (label_pseudonym H pre v)"
proof -
  assume "hex_digest H"
  then have "hex_n 64 (H v)" by (simp add: hex_digest_def)
  then have "length (H v) = 64" "list_all hex_lower (H v)" by (simp_all add: hex_n_def)
  then show ?thesis by (auto simp: prefixed_hex_def hex_n_def label_pseudonym_def list_all_iff dest: in_set_takeD)
qed

lemma source_pseudonym_report: "hex_digest H \<Longrightarrow> source_pseudonym (report_source_id H v)"
  using prefixed_hex_pseudonym [of H "''s-''" v]
  by (simp add: report_source_id_def source_label_def source_pseudonym_def)

lemma report_source_id_idem: "hex_digest H \<Longrightarrow> report_source_id H (report_source_id H v) = report_source_id H v"
  using source_pseudonym_report [of H v] by (simp add: report_source_id_def)

lemma hex_lower_newline: "list_all hex_lower w \<Longrightarrow> CHR 0x0A \<notin> set w"
  by (induction w) (auto simp: hex_lower_def decimal_digit_def less_eq_char_def)

lemma hex_no_newline:
  assumes "prefixed_hex pre n v" "CHR 0x0A \<notin> set pre"
  shows "CHR 0x0A \<notin> set v"
proof -
  have "set v = set (take (length pre) v) \<union> set (drop (length pre) v)"
    by (simp flip: set_append)
  moreover have "take (length pre) v = pre" "CHR 0x0A \<notin> set (drop (length pre) v)"
    using assms(1) hex_lower_newline by (simp_all add: prefixed_hex_def hex_n_def)
  ultimately show ?thesis using assms(2) by simp
qed

lemma digits_no_colon: "list_all decimal_digit e \<Longrightarrow> CHR '':'' \<notin> set e"
  by (auto simp: list_all_iff decimal_digit_def less_eq_char_def)

lemma source_run_id_report:
  assumes "hex_digest H" "source_run_id v = Some (source, epoch)"
  shows "source_run_id (''source:'' @ report_source_id H source @ '':'' @ epoch) = Some (report_source_id H source, epoch)"
proof -
  have e: "epoch \<noteq> []" "length epoch \<le> 20" "list_all decimal_digit epoch"
    using assms(2) by (auto simp: source_run_id_def split: if_splits prod.splits)
  have s: "source_pseudonym (report_source_id H source)" using assms(1) by (rule source_pseudonym_report)
  then have "report_source_id H source \<noteq> []" by (auto simp: source_pseudonym_def prefixed_hex_def)
  moreover have "CHR 0x0A \<notin> set (report_source_id H source)"
    using hex_no_newline [OF s [unfolded source_pseudonym_def]] by simp
  ultimately show ?thesis
    using e digits_no_colon [OF e(3)] by (simp add: source_run_id_def)
qed

lemma not_kept_source: "\<not> kept_run_id (''source:'' @ v)"
  by (simp add: kept_run_id_def prefixed_hex_def)

lemma report_run_id_idem:
  assumes "hex_digest H"
  shows "report_run_id H (report_run_id H v) = report_run_id H v"
proof (cases "kept_run_id v")
  case False
  show ?thesis
  proof (cases "source_run_id v")
    case None
    then have "report_run_id H v = run_pseudonym H v" using False by (simp add: report_run_id_def)
    moreover have "kept_run_id (run_pseudonym H v)"
      using prefixed_hex_pseudonym [OF assms, of "''r-''" v] by (simp add: run_pseudonym_def kept_run_id_def)
    ultimately show ?thesis by (simp add: report_run_id_def)
  next
    case (Some se)
    obtain source epoch where se: "se = (source, epoch)" by (cases se)
    let ?w = "''source:'' @ report_source_id H source @ '':'' @ epoch"
    have w: "report_run_id H v = ?w" using False Some se by (simp add: report_run_id_def)
    have "source_run_id ?w = Some (report_source_id H source, epoch)"
      using source_run_id_report [OF assms] Some se by simp
    then show ?thesis
      unfolding w using not_kept_source [of "report_source_id H source @ '':'' @ epoch"]
      by (simp add: report_run_id_def report_source_id_idem [OF assms])
  qed
qed (simp add: report_run_id_def)

subsection \<open>Properties\<close>



end
