(* ===== verification/SegmentGraph.thy ===== *)
theory SegmentGraph
  imports Ids "HOL-Library.Monad_Syntax"
begin

text \<open>
  The data of the segment graph and its ordering
  (\<^verbatim>\<open>sdk/python/src/fabric/reconstruct/_graph.py\<close>: \<^verbatim>\<open>SegmentNode\<close>, \<^verbatim>\<open>_entries\<close>,
  \<^verbatim>\<open>_successors\<close>, \<^verbatim>\<open>_topological\<close>). A mapping from segment ids to nodes is an association
  list in insertion order; a set of segment ids whose iteration order the code never shows is a
  distinct list. A dict read with a missing key (\<^verbatim>\<open>KeyError\<close>) and a loop that does not end are
  \<open>None\<close>. The lemmas show that the topological order returns, is a permutation of the segments and
  puts every predecessor first unless a segment depends on a cycle.
\<close>

datatype run_state = Terminated | Open_run | Unterminated | Conflicted | Not_resumable_unclosed
  | Deadline_uncertain

datatype segment_state = Sealed | Unsealed | Missing | Conflict_state

record segment_node =
  n_segment_id :: string
  n_run_id :: string
  n_source_id :: string
  n_epoch :: int
  n_predecessors :: "string list"
  n_id_basis :: "string option"
  n_branch_ids :: "string list"
  n_declared_branches :: "string list"
  n_start_ns :: "int option"
  n_last_sequence :: "int option"
  n_terminal :: "bool option"
  n_resumable :: "bool option"
  n_clock_uncertainty_ns :: "int option"
  n_issued_branch_ids :: "string list"
  n_manifest_digest :: "string option"
  n_state :: "segment_state option"
  n_start_resumable :: "bool option"
  n_open_deadline_s :: "int option"
  n_manifest_open_run_deadline_s :: "int option"
  n_sealed_ns :: "int option"

text \<open>\<^verbatim>\<open>SegmentNode(segment_id, run_id, source_id, epoch, predecessors)\<close>, every other field at its default.\<close>

definition mk_node :: "string \<Rightarrow> string \<Rightarrow> string \<Rightarrow> int \<Rightarrow> string list \<Rightarrow> segment_node" where
  "mk_node seg run source epoch preds =
     \<lparr>n_segment_id = seg, n_run_id = run, n_source_id = source, n_epoch = epoch,
      n_predecessors = preds, n_id_basis = None, n_branch_ids = [], n_declared_branches = [],
      n_start_ns = None, n_last_sequence = None, n_terminal = None, n_resumable = None,
      n_clock_uncertainty_ns = None, n_issued_branch_ids = [], n_manifest_digest = None,
      n_state = None, n_start_resumable = None, n_open_deadline_s = None,
      n_manifest_open_run_deadline_s = None, n_sealed_ns = None\<rparr>"

definition seal_state :: "segment_node \<Rightarrow> segment_state" where
  "seal_state n = (case n_state n of Some st \<Rightarrow> st
     | None \<Rightarrow> if n_last_sequence n = None then Unsealed else Sealed)"

definition is_root :: "segment_node \<Rightarrow> bool" where
  "is_root n \<longleftrightarrow> n_predecessors n = [''none'']"

definition entries :: "segment_node \<Rightarrow> entry list" where
  "entries n = List.map_filter parse_entry (filter (\<lambda>p. p \<noteq> ''none'') (n_predecessors n))"

type_synonym nodes = "(string \<times> segment_node) list"
type_synonym adjacency = "(string \<times> string list) list"

subsection \<open>Successors\<close>

text \<open>\<open>out[k].add(v)\<close> on a dict of sets whose key is present.\<close>

definition add_edge :: "adjacency \<Rightarrow> string \<Rightarrow> string \<Rightarrow> adjacency" where
  "add_edge d k v = map (\<lambda>(a, vs). if a = k then (a, if v \<in> set vs then vs else vs @ [v]) else (a, vs)) d"

definition successors :: "nodes \<Rightarrow> adjacency" where
  "successors nodes =
     foldl (\<lambda>d (k, n). foldl (\<lambda>d e. if e_segment_id e \<in> fst ` set nodes
              then add_edge d (e_segment_id e) (n_segment_id n) else d) d (entries n))
       (map (\<lambda>(k, n). (k, [])) nodes) nodes"

subsection \<open>Topological order\<close>

definition incr :: "(string \<times> int) list \<Rightarrow> string \<Rightarrow> int \<Rightarrow> (string \<times> int) list" where
  "incr d k x = AList.update k ((case map_of d k of None \<Rightarrow> 0 | Some n \<Rightarrow> n) + x) d"

definition indegrees :: "nodes \<Rightarrow> adjacency \<Rightarrow> (string \<times> int) list" where
  "indegrees nodes succ =
     foldl (\<lambda>d (k, following). foldl (\<lambda>d s. incr d s 1) d following) (map (\<lambda>(k, n). (k, 0)) nodes) succ"

definition release :: "(string \<times> int) list \<times> string list \<Rightarrow> string \<Rightarrow> (string \<times> int) list \<times> string list" where
  "release st s = (case st of (indegree, ready) \<Rightarrow>
     let d = incr indegree s (-1) in (d, if map_of d s = Some 0 then ready @ [s] else ready))"

text \<open>The \<^verbatim>\<open>while ready\<close> loop; the fuel bounds its iterations.\<close>

fun kahn :: "adjacency \<Rightarrow> nat \<Rightarrow> (string \<times> int) list \<Rightarrow> string list \<Rightarrow> string list \<Rightarrow> string list option" where
  "kahn succ fuel indegree [] out = Some out"
| "kahn succ 0 indegree (current # ready) out = None"
| "kahn succ (Suc fuel) indegree (current # ready) out =
     (case map_of succ current of None \<Rightarrow> None
      | Some following \<Rightarrow>
          let (d, r) = foldl release (indegree, ready) following in
          kahn succ fuel d (sort r) (out @ [current]))"

definition topological :: "nodes \<Rightarrow> string list option" where
  "topological nodes =
     (let succ = successors nodes; indegree = indegrees nodes succ;
          ready = sort (map fst (filter (\<lambda>(s, n). n = 0) indegree))
      in do {
        out \<leftarrow> kahn succ (length nodes) indegree ready [];
        Some (out @ sort (filter (\<lambda>s. s \<notin> set out) (map fst nodes)))
      })"

subsection \<open>Edges\<close>

text \<open>A mapping of nodes as \<^verbatim>\<open>build_run_graphs\<close> makes it: each node under its own id, once.\<close>

definition keyed :: "nodes \<Rightarrow> bool" where
  "keyed nodes \<longleftrightarrow> distinct (map fst nodes) \<and> (\<forall>(k, n)\<in>set nodes. n_segment_id n = k)"

text \<open>\<open>names nodes u v\<close>: both segments are present and \<open>v\<close> names \<open>u\<close> as a predecessor.\<close>

definition names :: "nodes \<Rightarrow> string \<Rightarrow> string \<Rightarrow> bool" where
  "names nodes u v \<longleftrightarrow> u \<in> fst ` set nodes \<and>
     (\<exists>n. map_of nodes v = Some n \<and> u \<in> e_segment_id ` set (entries n))"

definition edges_of :: "nodes \<Rightarrow> (string \<times> string) set" where
  "edges_of nodes = {(u, v). names nodes u v}"

definition adj :: "adjacency \<Rightarrow> string \<Rightarrow> string \<Rightarrow> bool" where
  "adj d u v \<longleftrightarrow> (\<exists>vs. map_of d u = Some vs \<and> v \<in> set vs)"

definition adj_wf :: "string list \<Rightarrow> adjacency \<Rightarrow> bool" where
  "adj_wf ks d \<longleftrightarrow> map fst d = ks \<and> (\<forall>(k, vs)\<in>set d. distinct vs)"

lemma keys_add_edge [simp]: "map fst (add_edge d k v) = map fst d"
  by (induction d) (auto simp: add_edge_def)

lemma map_of_add_edge:
  "map_of (add_edge d k v) u = (if u = k then map_option (\<lambda>vs. if v \<in> set vs then vs else vs @ [v]) (map_of d u)
     else map_of d u)"
  by (induction d) (auto simp: add_edge_def)

lemma adj_add_edge: "adj (add_edge d k v) u w \<longleftrightarrow> adj d u w \<or> (u = k \<and> w = v \<and> k \<in> fst ` set d)"
  by (cases "map_of d k"; cases "u = k") (auto simp: adj_def map_of_add_edge mem_keys_iff)

lemma adj_wf_add_edge: "adj_wf ks d \<Longrightarrow> adj_wf ks (add_edge d k v)"
  by (auto simp: adj_wf_def) (auto simp: add_edge_def split: if_splits)

lemma inner_successors:
  assumes "adj_wf ks d"
  shows "adj_wf ks (foldl (\<lambda>d e. if e_segment_id e \<in> K then add_edge d (e_segment_id e) v else d) d es) \<and>
    (\<forall>u w. adj (foldl (\<lambda>d e. if e_segment_id e \<in> K then add_edge d (e_segment_id e) v else d) d es) u w
      \<longleftrightarrow> adj d u w \<or> (w = v \<and> u \<in> K \<inter> set ks \<and> u \<in> e_segment_id ` set es))"
  using assms
proof (induction es arbitrary: d)
  case (Cons e es)
  let ?d = "if e_segment_id e \<in> K then add_edge d (e_segment_id e) v else d"
  have "adj_wf ks ?d" using Cons.prems by (simp add: adj_wf_add_edge)
  moreover have "fst ` set d = set ks" using Cons.prems unfolding adj_wf_def by (metis set_map)
  ultimately show ?case
    using Cons.IH [of ?d] by (auto simp: adj_add_edge)
qed simp

lemma outer_successors:
  assumes "adj_wf ks d"
  shows "adj_wf ks (foldl (\<lambda>d (k, n). foldl (\<lambda>d e. if e_segment_id e \<in> K
        then add_edge d (e_segment_id e) (n_segment_id n) else d) d (entries n)) d ns) \<and>
    (\<forall>u w. adj (foldl (\<lambda>d (k, n). foldl (\<lambda>d e. if e_segment_id e \<in> K
        then add_edge d (e_segment_id e) (n_segment_id n) else d) d (entries n)) d ns) u w
      \<longleftrightarrow> adj d u w \<or> (u \<in> K \<inter> set ks \<and> (\<exists>(k, n)\<in>set ns. w = n_segment_id n \<and> u \<in> e_segment_id ` set (entries n))))"
  using assms
proof (induction ns arbitrary: d)
  case (Cons kn ns)
  obtain k n where kn: "kn = (k, n)" by (cases kn)
  let ?d = "foldl (\<lambda>d e. if e_segment_id e \<in> K then add_edge d (e_segment_id e) (n_segment_id n) else d) d (entries n)"
  have wf: "adj_wf ks ?d" and adj: "\<And>u w. adj ?d u w \<longleftrightarrow> adj d u w \<or>
      (w = n_segment_id n \<and> u \<in> K \<inter> set ks \<and> u \<in> e_segment_id ` set (entries n))"
    using inner_successors [OF Cons.prems] by blast+
  from Cons.IH [OF wf] show ?case
    unfolding kn foldl_Cons prod.case by (simp only: adj) (simp, blast)
qed simp

lemma successors_wf: "adj_wf (map fst nodes) (successors nodes)"
  and adj_successors: "keyed nodes \<Longrightarrow> adj (successors nodes) u v \<longleftrightarrow> names nodes u v"
proof -
  let ?d = "map (\<lambda>(k, n). (k, [])) nodes :: adjacency"
  have wf: "adj_wf (map fst nodes) ?d" by (auto simp: adj_wf_def)
  note * = outer_successors [OF wf, of "fst ` set nodes" nodes, folded successors_def]
  show "adj_wf (map fst nodes) (successors nodes)" using * by blast
  have none: "\<not> adj ?d u v" by (auto simp: adj_def dest!: map_of_SomeD)
  assume k: "keyed nodes"
  then have "map_of nodes v = Some n \<longleftrightarrow> (\<exists>k. (k, n) \<in> set nodes \<and> v = n_segment_id n)" for n
    by (fastforce simp: keyed_def dest: map_of_SomeD)
  then show "adj (successors nodes) u v \<longleftrightarrow> names nodes u v"
    using * none by (force simp: names_def)
qed

subsection \<open>In-degrees\<close>

definition preds :: "adjacency \<Rightarrow> string \<Rightarrow> string set" where
  "preds succ v = {u. adj succ u v}"

lemma finite_preds [simp, intro]: "finite (preds succ v)"
proof (rule finite_subset)
  show "preds succ v \<subseteq> fst ` set succ" by (auto simp: preds_def adj_def mem_keys_iff)
qed simp

lemma keys_incr: "k \<in> set (map fst d) \<Longrightarrow> map fst (incr d k x) = map fst d"
  by (induction d) (auto simp: incr_def)

lemma map_of_incr: "k \<in> set (map fst d) \<Longrightarrow> map_of (incr d k x) v =
    (if v = k then map_option (\<lambda>n. n + x) (map_of d v) else map_of d v)"
  by (auto simp: incr_def update_conv' mem_keys_iff)

lemma inner_indegrees:
  "distinct vs \<Longrightarrow> set vs \<subseteq> set (map fst d) \<Longrightarrow>
     map fst (foldl (\<lambda>d s. incr d s 1) d vs) = map fst d \<and>
     map_of (foldl (\<lambda>d s. incr d s 1) d vs) v =
       map_option (\<lambda>n. n + (if v \<in> set vs then 1 else 0)) (map_of d v)"
proof (induction vs arbitrary: d)
  case (Cons s vs)
  then have keys: "map fst (incr d s 1) = map fst d" by (intro keys_incr) simp
  have "distinct vs" "set vs \<subseteq> set (map fst (incr d s 1))" using Cons.prems keys by auto
  from Cons.IH [OF this] keys have "map fst (foldl (\<lambda>d s. incr d s 1) (incr d s 1) vs) = map fst d \<and>
     map_of (foldl (\<lambda>d s. incr d s 1) (incr d s 1) vs) v =
       map_option (\<lambda>n. n + (if v \<in> set vs then 1 else 0)) (map_of (incr d s 1) v)"
    by simp
  with Cons.prems show ?case
    by (auto simp: map_of_incr option.map_comp o_def option.map_ident)
qed (simp add: option.map_ident)

lemma outer_indegrees:
  "distinct (map fst succ) \<Longrightarrow> \<forall>(k, vs)\<in>set succ. distinct vs \<and> set vs \<subseteq> set (map fst d) \<Longrightarrow>
     map fst (foldl (\<lambda>d (k, vs). foldl (\<lambda>d s. incr d s 1) d vs) d succ) = map fst d \<and>
     map_of (foldl (\<lambda>d (k, vs). foldl (\<lambda>d s. incr d s 1) d vs) d succ) v =
       map_option (\<lambda>n. n + int (card (preds succ v))) (map_of d v)"
proof (induction succ arbitrary: d)
  case Nil
  then show ?case by (simp add: preds_def adj_def option.map_ident)
next
  case (Cons kv succ)
  obtain k vs where kv: "kv = (k, vs)" by (cases kv)
  let ?d = "foldl (\<lambda>d s. incr d s 1) d vs"
  have inner: "map fst ?d = map fst d" "map_of ?d v = map_option (\<lambda>n. n + (if v \<in> set vs then 1 else 0)) (map_of d v)"
    using inner_indegrees [of vs d v] Cons.prems kv by auto
  have fresh: "map_of succ k = None" using Cons.prems kv by (simp add: map_of_eq_None_iff)
  have adj: "adj (kv # succ) u v \<longleftrightarrow> (u = k \<and> v \<in> set vs) \<or> adj succ u v" for u
    using fresh by (auto simp: adj_def kv)
  have "preds (kv # succ) v = (if v \<in> set vs then insert k (preds succ v) else preds succ v)"
    by (auto simp: preds_def adj)
  moreover have "k \<notin> preds succ v" using fresh by (auto simp: preds_def adj_def)
  ultimately have card: "int (card (preds (kv # succ) v)) = int (card (preds succ v)) + (if v \<in> set vs then 1 else 0)"
    by simp
  have "map fst (foldl (\<lambda>d (k, vs). foldl (\<lambda>d s. incr d s 1) d vs) ?d succ) = map fst ?d \<and>
     map_of (foldl (\<lambda>d (k, vs). foldl (\<lambda>d s. incr d s 1) d vs) ?d succ) v =
       map_option (\<lambda>n. n + int (card (preds succ v))) (map_of ?d v)"
    using Cons.prems inner(1) kv by (intro Cons.IH) auto
  then show ?case
    by (simp add: kv inner card [unfolded kv] option.map_comp o_def algebra_simps)
qed

text \<open>What the ordering needs of its adjacency: the segments as keys, every edge between segments.\<close>

definition adj_closed :: "string list \<Rightarrow> adjacency \<Rightarrow> bool" where
  "adj_closed ks d \<longleftrightarrow> distinct ks \<and> adj_wf ks d \<and> (\<forall>u v. adj d u v \<longrightarrow> v \<in> set ks)"

lemma adj_closedD:
  assumes "adj_closed ks d"
  shows "distinct (map fst d)" "map fst d = ks"
    "map_of d u = Some vs \<Longrightarrow> distinct vs \<and> set vs \<subseteq> set ks"
    "adj d u v \<Longrightarrow> u \<in> set ks \<and> v \<in> set ks"
proof -
  show "distinct (map fst d)" "map fst d = ks" using assms by (auto simp: adj_closed_def adj_wf_def)
  then have keys: "fst ` set d = set ks" by (metis set_map)
  show "map_of d u = Some vs \<Longrightarrow> distinct vs \<and> set vs \<subseteq> set ks"
    using assms unfolding adj_closed_def adj_wf_def adj_def by (fast dest: map_of_SomeD)
  show "adj d u v \<Longrightarrow> u \<in> set ks \<and> v \<in> set ks"
    using assms keys unfolding adj_closed_def by (metis adj_def mem_keys_iff)
qed

lemma successors_closed: "keyed nodes \<Longrightarrow> adj_closed (map fst nodes) (successors nodes)"
  using successors_wf [of nodes]
  by (auto simp: adj_closed_def keyed_def adj_successors names_def mem_keys_iff)

lemma indegrees_spec:
  assumes "adj_closed (map fst nodes) succ"
  shows "map fst (indegrees nodes succ) = map fst nodes"
    and "v \<in> set (map fst nodes) \<Longrightarrow> map_of (indegrees nodes succ) v = Some (int (card (preds succ v)))"
proof -
  let ?d = "map (\<lambda>(k, n). (k, 0)) nodes :: (string \<times> int) list"
  have keys: "map fst ?d = map fst nodes" by auto
  have zero: "map_of ?d v = Some 0" if "v \<in> set (map fst nodes)"
    using that by (induction nodes) auto
  have "\<forall>(k, vs)\<in>set succ. distinct vs \<and> set vs \<subseteq> set (map fst ?d)"
    unfolding keys using adj_closedD(3) [OF assms] map_of_is_SomeI [OF adj_closedD(1) [OF assms]] by blast
  from outer_indegrees [OF adj_closedD(1) [OF assms] this]
  show "map fst (indegrees nodes succ) = map fst nodes"
    and "v \<in> set (map fst nodes) \<Longrightarrow> map_of (indegrees nodes succ) v = Some (int (card (preds succ v)))"
    by (simp_all only: indegrees_def keys zero option.map(2) add_0)
qed

subsection \<open>The loop\<close>

lemma foldl_release_all:
  "distinct fs \<Longrightarrow> set fs \<subseteq> set (map fst d) \<Longrightarrow>
     snd (foldl release (d, r) fs) = r @ filter (\<lambda>s. map_of d s = Some 1) fs \<and>
     (\<forall>v. map_of (fst (foldl release (d, r) fs)) v =
        (if v \<in> set fs then map_option (\<lambda>n. n - 1) (map_of d v) else map_of d v)) \<and>
     map fst (fst (foldl release (d, r) fs)) = map fst d"
proof (induction fs arbitrary: d r)
  case (Cons s fs)
  let ?d = "incr d s (-1)" and ?r = "if map_of (incr d s (-1)) s = Some 0 then r @ [s] else r"
  have keys: "map fst ?d = map fst d" using Cons.prems by (intro keys_incr) simp
  have look: "map_of ?d v = (if v = s then map_option (\<lambda>n. n - 1) (map_of d v) else map_of d v)" for v
    using Cons.prems by (simp add: map_of_incr)
  have prem: "distinct fs" "set fs \<subseteq> set (map fst ?d)" using Cons.prems keys by auto
  have rel: "foldl release (d, r) (s # fs) = foldl release (?d, ?r) fs"
    by (simp add: release_def Let_def)
  have same: "filter (\<lambda>t. map_of ?d t = Some 1) fs = filter (\<lambda>t. map_of d t = Some 1) fs"
    using Cons.prems by (intro filter_cong) (auto simp: look)
  show ?case using Cons.IH [OF prem, of ?r] Cons.prems
    unfolding rel same keys by (cases "map_of d s") (auto simp: look)
qed simp

lemma foldl_release:
  assumes "distinct fs" and "set fs \<subseteq> set (map fst d)"
  shows "snd (foldl release (d, r) fs) = r @ filter (\<lambda>s. map_of d s = Some 1) fs"
    and "map_of (fst (foldl release (d, r) fs)) v =
      (if v \<in> set fs then map_option (\<lambda>n. n - 1) (map_of d v) else map_of d v)"
    and "map fst (fst (foldl release (d, r) fs)) = map fst d"
  using foldl_release_all [OF assms] by blast+

definition kahn_inv :: "string list \<Rightarrow> adjacency \<Rightarrow> (string \<times> int) list \<Rightarrow> string list \<Rightarrow> string list \<Rightarrow> bool" where
  "kahn_inv ks succ d ready out \<longleftrightarrow>
     distinct (out @ ready) \<and> set (out @ ready) \<subseteq> set ks \<and> map fst d = ks \<and>
     (\<forall>v\<in>set ks. map_of d v = Some (int (card (preds succ v - set out)))) \<and>
     (\<forall>v\<in>set ks. v \<in> set (out @ ready) \<longleftrightarrow> preds succ v \<subseteq> set out) \<and>
     (\<forall>i<length out. preds succ (out ! i) \<subseteq> set (take i out))"

lemma kahn_step:
  assumes closed: "adj_closed ks succ" and inv: "kahn_inv ks succ d (current # ready) out"
    and fs: "map_of succ current = Some fs"
  shows "kahn_inv ks succ (fst (foldl release (d, ready) fs)) (sort (snd (foldl release (d, ready) fs)))
    (out @ [current])"
proof -
  have f: "distinct fs" "set fs \<subseteq> set (map fst d)"
    using adj_closedD(3) [OF closed fs] inv by (auto simp: kahn_inv_def)
  note rel = foldl_release [OF f, where r = ready]
  have adj: "v \<in> set fs \<longleftrightarrow> current \<in> preds succ v" for v using fs by (simp add: preds_def adj_def)
  have out: "distinct out" "current \<notin> set out" "current \<notin> set ready" "distinct ready" "set out \<inter> set ready = {}"
      "current \<in> set ks" "set out \<subseteq> set ks" "set ready \<subseteq> set ks" "map fst d = ks"
    and deg: "\<And>v. v \<in> set ks \<Longrightarrow> map_of d v = Some (int (card (preds succ v - set out)))"
    and mem: "\<And>v. v \<in> set ks \<Longrightarrow> v \<in> set out \<or> v = current \<or> v \<in> set ready \<longleftrightarrow> preds succ v \<subseteq> set out"
    and ord: "\<And>i. i < length out \<Longrightarrow> preds succ (out ! i) \<subseteq> set (take i out)"
    using inv by (auto simp: kahn_inv_def)
  have fsk: "set fs \<subseteq> set ks" using f out(9) by simp
  let ?new = "filter (\<lambda>s. map_of d s = Some 1) fs"
  have one: "v \<in> set ?new \<longleftrightarrow> v \<in> set fs \<and> preds succ v \<subseteq> set (out @ [current])" for v
  proof (cases "v \<in> set fs")
    case True
    then have c: "current \<in> preds succ v - set out" using adj out(2) by simp
    have "card (preds succ v - set out) = 1 \<longleftrightarrow> preds succ v - set out = {current}"
      using c by (metis card_1_singletonE is_singletonI is_singleton_altdef singletonD)
    moreover have "map_of d v = Some 1 \<longleftrightarrow> card (preds succ v - set out) = 1"
      using deg [of v] True fsk by auto
    ultimately show ?thesis using True c by auto
  qed simp
  have fresh: "v \<notin> set out \<and> v \<noteq> current \<and> v \<notin> set ready" if "v \<in> set fs" for v
    using that mem [of v] adj [of v] out(2) fsk by blast
  have deg': "map_of (fst (foldl release (d, ready) fs)) v = Some (int (card (preds succ v - set (out @ [current]))))"
    if v: "v \<in> set ks" for v
  proof -
    have "preds succ v - set (out @ [current]) = (preds succ v - set out) - {current}" by auto
    moreover have "card (preds succ v - set out) \<ge> 1" if "v \<in> set fs"
      using that adj [of v] out(2) by (metis DiffI One_nat_def Suc_leI card_gt_0_iff empty_iff finite_Diff finite_preds)
    ultimately show ?thesis using v deg [OF v] adj [of v] out(2)
      by (auto simp: rel(2) card_Diff_singleton_if of_nat_diff)
  qed
  show ?thesis unfolding kahn_inv_def
  proof (intro conjI ballI allI impI)
    show "distinct ((out @ [current]) @ sort (snd (foldl release (d, ready) fs)))"
      using out(1-5) f(1) fresh by (auto simp: rel(1))
    show "set ((out @ [current]) @ sort (snd (foldl release (d, ready) fs))) \<subseteq> set ks"
      using out(6-8) fsk by (auto simp: rel(1))
    show "map fst (fst (foldl release (d, ready) fs)) = ks" using out by (simp add: rel(3))
    fix v assume v: "v \<in> set ks"
    then show "map_of (fst (foldl release (d, ready) fs)) v = Some (int (card (preds succ v - set (out @ [current]))))"
      by (rule deg')
    have "v \<in> set ?new \<or> v \<in> set out \<or> v = current \<or> v \<in> set ready \<longleftrightarrow> preds succ v \<subseteq> set (out @ [current])"
      using one [of v] mem [OF v] adj [of v] by auto
    then show "v \<in> set ((out @ [current]) @ sort (snd (foldl release (d, ready) fs)))
        \<longleftrightarrow> preds succ v \<subseteq> set (out @ [current])"
      by (auto simp: rel(1))
  next
    fix i assume "i < length (out @ [current])"
    then show "preds succ ((out @ [current]) ! i) \<subseteq> set (take i (out @ [current]))"
      using ord [of i] mem [of current] out(6) by (cases "i = length out") (auto simp: nth_append)
  qed
qed

lemma kahn_spec:
  assumes closed: "adj_closed ks succ" and "kahn_inv ks succ d ready out" and "length ks \<le> length out + fuel"
  shows "\<exists>d' out'. kahn succ fuel d ready out = Some out' \<and> kahn_inv ks succ d' [] out'"
  using assms(2-)
proof (induction fuel arbitrary: d ready out)
  case 0
  then have "length (out @ ready) \<le> card (set ks)"
    by (metis card_mono distinct_card finite_set kahn_inv_def)
  also have "\<dots> \<le> length out" using 0 card_length [of ks] by simp
  finally show ?case using 0 by auto
next
  case (Suc fuel)
  show ?case
  proof (cases ready)
    case Nil
    then show ?thesis using Suc.prems by auto
  next
    case (Cons current rest)
    then have "current \<in> set ks" using Suc.prems by (simp add: kahn_inv_def)
    then have "current \<in> fst ` set succ" using adj_closedD(2) [OF closed] by (metis set_map)
    then obtain fs where fs: "map_of succ current = Some fs" by (auto simp: mem_keys_iff)
    from kahn_step [OF closed Suc.prems(1) [unfolded Cons] fs] Suc.prems(2)
    show ?thesis by (auto simp: Cons fs split_beta intro!: Suc.IH)
  qed
qed

lemma kahn_start:
  assumes closed: "adj_closed (map fst nodes) succ"
  shows "kahn_inv (map fst nodes) succ (indegrees nodes succ)
    (sort (map fst (filter (\<lambda>(s, n). n = 0) (indegrees nodes succ)))) []"
proof -
  let ?d = "indegrees nodes succ"
  have keys: "map fst ?d = map fst nodes" and dist: "distinct (map fst nodes)"
    using indegrees_spec(1) [OF closed] closed by (simp_all add: adj_closed_def)
  have sub: "distinct (map fst (filter P ?d))" for P
    using dist keys by (metis distinct_map_filter)
  have mem: "v \<in> fst ` set (filter (\<lambda>(s, n). n = 0) ?d) \<longleftrightarrow> preds succ v = {}" if "v \<in> set (map fst nodes)" for v
  proof -
    have "v \<in> fst ` set (filter (\<lambda>(s, n). n = 0) ?d) \<longleftrightarrow> map_of ?d v = Some 0"
      using dist keys by (force simp: image_iff dest: map_of_SomeD)
    then show ?thesis using indegrees_spec(2) [OF closed that] by simp
  qed
  have sub_keys: "set (map fst (filter P ?d)) \<subseteq> set (map fst nodes)" for P
    using keys by (metis filter_is_subset image_mono set_map)
  show ?thesis
    using indegrees_spec(2) [OF closed] mem sub sub_keys keys
    by (simp add: kahn_inv_def)
qed

definition precedes :: "'a list \<Rightarrow> 'a \<Rightarrow> 'a \<Rightarrow> bool" where
  "precedes xs u v \<longleftrightarrow> (\<exists>i j. i < j \<and> j < length xs \<and> xs ! i = u \<and> xs ! j = v)"

lemma topological_spec:
  assumes "keyed nodes"
  shows "\<exists>order done. topological nodes = Some order \<and> mset order = mset (map fst nodes) \<and>
    (\<exists>tail. order = done @ tail \<and> (\<forall>v\<in>set tail. \<exists>u\<in>set tail. names nodes u v)) \<and>
    (\<forall>u v. names nodes u v \<and> v \<in> set done \<longrightarrow> precedes done u v)"
proof -
  let ?ks = "map fst nodes" and ?succ = "successors nodes"
  note closed = successors_closed [OF assms]
  from kahn_spec [OF closed kahn_start [OF closed], of "length nodes"] obtain d out where
    out: "kahn ?succ (length nodes) (indegrees nodes ?succ)
      (sort (map fst (filter (\<lambda>(s, n). n = 0) (indegrees nodes ?succ)))) [] = Some out"
    and inv: "kahn_inv ?ks ?succ d [] out" by auto
  let ?tail = "sort (filter (\<lambda>s. s \<notin> set out) ?ks)"
  have order: "topological nodes = Some (out @ ?tail)" using out by (simp add: topological_def Let_def)
  have o: "distinct out" "set out \<subseteq> set ?ks" and
    mem: "\<And>v. v \<in> set ?ks \<Longrightarrow> v \<in> set out \<longleftrightarrow> preds ?succ v \<subseteq> set out" and
    ord: "\<And>i. i < length out \<Longrightarrow> preds ?succ (out ! i) \<subseteq> set (take i out)"
    using inv by (auto simp: kahn_inv_def)
  have preds: "preds ?succ v = {u. names nodes u v}" for v by (simp add: preds_def adj_successors [OF assms])
  have dist: "distinct ?ks" using assms by (simp add: keyed_def)
  have "mset (out @ ?tail) = mset ?ks"
    using o dist by (intro iffD1 [OF set_eq_iff_mset_eq_distinct]) auto
  moreover have "\<exists>u\<in>set ?tail. names nodes u v" if "v \<in> set ?tail" for v
  proof -
    from that obtain u where "names nodes u v" "u \<notin> set out" using mem [of v] preds by auto
    then show ?thesis by (intro bexI [of _ u]) (auto simp: names_def)
  qed
  moreover have "precedes out u v" if "names nodes u v" "v \<in> set out" for u v
  proof -
    from that(2) obtain j where j: "j < length out" "out ! j = v" by (auto simp: in_set_conv_nth)
    then have "u \<in> set (take j out)" using ord [OF j(1)] that(1) preds by auto
    then obtain i where "i < j" "out ! i = u" using j by (auto simp: in_set_conv_nth)
    then show ?thesis using j unfolding precedes_def by blast
  qed
  ultimately show ?thesis using order by blast
qed

lemma finite_edges_of: "finite (edges_of nodes)"
proof (rule finite_subset)
  show "edges_of nodes \<subseteq> fst ` set nodes \<times> fst ` set nodes"
    by (auto simp: edges_of_def names_def mem_keys_iff)
qed simp

lemma topological_acyclic_spec:
  assumes "keyed nodes" and "acyclic (edges_of nodes)"
  shows "\<exists>order. topological nodes = Some order \<and> mset order = mset (map fst nodes) \<and>
    (\<forall>u v. names nodes u v \<longrightarrow> precedes order u v)"
proof -
  from topological_spec [OF assms(1)] obtain order out tail where
    o: "topological nodes = Some order" "mset order = mset (map fst nodes)" "order = out @ tail"
      "\<forall>v\<in>set tail. \<exists>u\<in>set tail. names nodes u v"
      "\<forall>u v. names nodes u v \<and> v \<in> set out \<longrightarrow> precedes out u v" by blast
  have "wf (edges_of nodes)" using finite_edges_of assms(2) by (rule finite_acyclic_wf)
  then have "tail = []"
    using o(4) wfE_min [of "edges_of nodes" _ "set tail"] by (fastforce simp: edges_of_def)
  moreover have "v \<in> set order" if "names nodes u v" for u v
    using that o(2) by (metis mem_keys_iff mset_eq_setD names_def set_map)
  ultimately show ?thesis using o by auto
qed

subsection \<open>Properties\<close>

definition sample_segment :: "char \<Rightarrow> string" where
  "sample_segment c = ''seg-'' @ replicate 32 c"

definition sample_digest :: string where
  "sample_digest = ''sha256:'' @ replicate 64 CHR ''0''"

definition sample_node :: "char \<Rightarrow> string list \<Rightarrow> segment_node" where
  "sample_node c named = (mk_node (sample_segment c) ''run'' ''s-1'' 1 named)
     \<lparr>n_last_sequence := Some 4, n_manifest_digest := Some sample_digest\<rparr>"

definition sample_nodes :: nodes where
  "sample_nodes = [(sample_segment CHR ''b'', sample_node CHR ''b'' [format_entry (sample_segment CHR ''a'') ''s-1'' 1 4 sample_digest]),
     (sample_segment CHR ''a'', sample_node CHR ''a'' [''none''])]"

lemma sample_segment_inject [simp]: "sample_segment c = sample_segment d \<longleftrightarrow> c = d"
  by (simp add: sample_segment_def)

lemma sample_nodes_keyed: "keyed sample_nodes"
  by (simp add: keyed_def sample_nodes_def sample_node_def mk_node_def)

lemma sample_nodes_edges: "edges_of sample_nodes \<subseteq> {(sample_segment CHR ''a'', sample_segment CHR ''b'')}"
proof -
  have "entries (sample_node CHR ''a'' [''none'']) = []" by code_simp
  moreover have "map e_segment_id (entries (sample_node CHR ''b'' [format_entry (sample_segment CHR ''a'') ''s-1'' 1 4 sample_digest])) =
      [sample_segment CHR ''a'']" by code_simp
  then have "e_segment_id ` set (entries (sample_node CHR ''b'' [format_entry (sample_segment CHR ''a'') ''s-1'' 1 4 sample_digest])) =
      {sample_segment CHR ''a''}" by (metis empty_set list.simps(15) set_map)
  ultimately show ?thesis by (auto simp: edges_of_def names_def sample_nodes_def split: if_splits)
qed

lemma sample_nodes_acyclic: "acyclic (edges_of sample_nodes)"
  using acyclic_subset [OF _ sample_nodes_edges] by (simp add: acyclic_insert acyclic_def [of "{}"])

text \<open>
  C19. The topological order always exists and lists every segment once; when no segment is its own
  ancestor, a segment comes after every segment it names as a predecessor; in general the part of the
  order before the sorted remainder has that property and each segment of the remainder names another
  one of it.
\<close>

theorem topological_order:
  assumes "keyed nodes"
  shows "\<exists>order before rest. topological nodes = Some order \<and> mset order = mset (map fst nodes) \<and>
    order = before @ rest \<and> (\<forall>v\<in>set rest. \<exists>u\<in>set rest. names nodes u v) \<and>
    (\<forall>u v. names nodes u v \<and> v \<in> set before \<longrightarrow> precedes before u v) \<and>
    (acyclic (edges_of nodes) \<longrightarrow> (\<forall>u v. names nodes u v \<longrightarrow> precedes order u v))"
proof -
  from topological_spec [OF assms] obtain order before rest where
    o: "topological nodes = Some order" "mset order = mset (map fst nodes)" "order = before @ rest"
      "\<forall>v\<in>set rest. \<exists>u\<in>set rest. names nodes u v"
      "\<forall>u v. names nodes u v \<and> v \<in> set before \<longrightarrow> precedes before u v" by blast
  have "\<forall>u v. names nodes u v \<longrightarrow> precedes order u v" if "acyclic (edges_of nodes)"
    using topological_acyclic_spec [OF assms that] o(1) by simp
  with o show ?thesis by blast
qed

theorem topological_order_witness:
  "\<exists>order. topological sample_nodes = Some order \<and> mset order = {#sample_segment CHR ''b'', sample_segment CHR ''a''#} \<and>
    (\<forall>u v. names sample_nodes u v \<longrightarrow> precedes order u v)"
proof -
  have "mset (map fst sample_nodes) = {#sample_segment CHR ''b'', sample_segment CHR ''a''#}" by (simp add: sample_nodes_def)
  then show ?thesis using topological_order [OF sample_nodes_keyed] sample_nodes_acyclic by metis
qed

end
