(* ===== verification/RunMerge.thy ===== *)
theory RunMerge
  imports SegmentGraph
begin

text \<open>
  The run-identity merge (\<^verbatim>\<open>sdk/python/src/fabric/reconstruct/_graph.py\<close>, \<^verbatim>\<open>_merge_runs\<close>):
  union-find with path halving over run ids. \<open>find\<close> is the source's \<^verbatim>\<open>while\<close> loop, so not
  returning (a parent cycle, or a \<^verbatim>\<open>KeyError\<close>) is \<open>None\<close>. The lemmas show that every look-up
  returns, that halving changes no representative, and that two runs end with one canonical id
  exactly when the merging segments connect them.
\<close>

type_synonym parents = "string \<rightharpoonup> string"

partial_function (option) find :: "parents \<Rightarrow> string \<Rightarrow> (parents \<times> string) option" where
  "find p x = do {
     y \<leftarrow> p x;
     if y = x then Some (p, x)
     else do {
       z \<leftarrow> p y;
       find (p(x \<mapsto> z)) z
     }
   }"

declare find.simps [code]

definition union_runs :: "parents \<Rightarrow> string \<Rightarrow> string \<Rightarrow> parents option" where
  "union_runs p winner loser = do {
     (p1, win) \<leftarrow> find p winner;
     (p2, lose) \<leftarrow> find p1 loser;
     Some (if win \<noteq> lose then p2(lose \<mapsto> win) else p2)
   }"

definition merging_basis :: "string option \<Rightarrow> bool" where
  "merging_basis b \<longleftrightarrow> b = Some ''caller_join'' \<or> b = Some ''legacy'' \<or> b = None"

text \<open>The unions one segment asks for, in the order of its entries: (winner, loser).\<close>

definition node_unions :: "nodes \<Rightarrow> segment_node \<Rightarrow> (string \<times> string) list" where
  "node_unions nodes n =
     (if \<not> merging_basis (n_id_basis n) then []
      else concat (map (\<lambda>e. case map_of nodes (e_segment_id e) of
          None \<Rightarrow> []
        | Some pred \<Rightarrow> if n_run_id pred = n_run_id n then []
            else if n_id_basis n = Some ''caller_join'' then [(n_run_id n, n_run_id pred)]
            else [(n_run_id pred, n_run_id n)]) (entries n)))"

fun unions :: "parents \<Rightarrow> (string \<times> string) list \<Rightarrow> parents option" where
  "unions p [] = Some p"
| "unions p ((w, l) # ops) = do { q \<leftarrow> union_runs p w l; unions q ops }"

fun merge_nodes :: "nodes \<Rightarrow> parents \<Rightarrow> string list \<Rightarrow> parents option" where
  "merge_nodes nodes p [] = Some p"
| "merge_nodes nodes p (s # ss) = do {
     n \<leftarrow> map_of nodes s;
     q \<leftarrow> unions p (node_unions nodes n);
     merge_nodes nodes q ss
   }"

fun canonical_ids :: "parents \<Rightarrow> string list \<Rightarrow> (string \<times> string) list option" where
  "canonical_ids p [] = Some []"
| "canonical_ids p (r # rs) = do {
     (q, root) \<leftarrow> find p r;
     rest \<leftarrow> canonical_ids q rs;
     Some ((r, root) # rest)
   }"

definition run_ids_of :: "nodes \<Rightarrow> string list" where
  "run_ids_of nodes = dedup (map (\<lambda>(k, n). n_run_id n) nodes)"

definition merge_runs :: "nodes \<Rightarrow> (string \<times> string) list option" where
  "merge_runs nodes = do {
     order \<leftarrow> topological nodes;
     p \<leftarrow> merge_nodes nodes (\<lambda>r. if r \<in> set (run_ids_of nodes) then Some r else None) order;
     canonical_ids p (run_ids_of nodes)
   }"

subsection \<open>Representatives\<close>

text \<open>\<open>rep p n x r\<close>: \<open>n\<close> parent steps lead from \<open>x\<close> to the root \<open>r\<close>.\<close>

inductive rep :: "parents \<Rightarrow> nat \<Rightarrow> string \<Rightarrow> string \<Rightarrow> bool" for p where
  rep_root: "p x = Some x \<Longrightarrow> rep p 0 x x"
| rep_step: "p x = Some y \<Longrightarrow> y \<noteq> x \<Longrightarrow> rep p n y r \<Longrightarrow> rep p (Suc n) x r"

inductive_cases rep_0E: "rep p 0 x r"
inductive_cases rep_SucE: "rep p (Suc n) x r"
inductive_cases repE: "rep p n x r"

lemma rep_unique: "rep p n x r \<Longrightarrow> rep p m x s \<Longrightarrow> n = m \<and> r = s"
proof (induction n x r arbitrary: m s rule: rep.induct)
  case (rep_root x)
  from rep_root.prems show ?case by (cases rule: rep.cases) (use rep_root.hyps in auto)
next
  case rep_step': (rep_step x y n r)
  from rep_step'.prems show ?case
  proof (cases rule: rep.cases)
    case (rep_step y' n')
    with rep_step'.hyps have "rep p n' y s" by simp
    from rep_step'.IH [OF this] rep_step show ?thesis by simp
  qed (use rep_step'.hyps in auto)
qed

lemma rep_rootD: "rep p n x r \<Longrightarrow> p r = Some r"
  by (induction rule: rep.induct) auto

lemma rep_domD: "rep p n x r \<Longrightarrow> \<exists>y. p x = Some y"
  by (cases rule: rep.cases) auto

definition represents :: "parents \<Rightarrow> string \<Rightarrow> string \<Rightarrow> bool" where
  "represents p x r \<longleftrightarrow> (\<exists>n. rep p n x r)"

lemma represents_unique: "represents p x r \<Longrightarrow> represents p x s \<Longrightarrow> r = s"
  using rep_unique by (auto simp: represents_def)

text \<open>Path halving keeps every representative.\<close>

lemma halve_forward:
  assumes "p x = Some y" "y \<noteq> x" "p y = Some z" "rep p n w r"
  shows "\<exists>j\<le>n. rep (p(x \<mapsto> z)) j w r"
  using assms(4)
proof (induction n arbitrary: w rule: less_induct)
  case (less n)
  from less.prems show ?case
  proof (cases rule: rep.cases)
    case 1: rep_root
    then have "w \<noteq> x" using assms(1,2) by auto
    with 1 have "rep (p(x \<mapsto> z)) 0 w w" by (intro rep_root) simp
    with 1 show ?thesis by blast
  next
    case 2: (rep_step v m)
    show ?thesis
    proof (cases "w = x")
      case False
      have "m < n" using 2 by simp
      from less.IH [OF this 2(4)] obtain j where "j \<le> m" "rep (p(x \<mapsto> z)) j v r" by blast
      moreover from this 2 False have "rep (p(x \<mapsto> z)) (Suc j) w r" by (intro rep_step) auto
      moreover from \<open>j \<le> m\<close> 2 have "Suc j \<le> n" by simp
      ultimately show ?thesis by blast
    next
      case True
      with 2 assms have v: "v = y" by simp
      show ?thesis
      proof (cases "z = y")
        case True
        with assms(1) have "p(x \<mapsto> z) = p" by (simp add: fun_upd_idem)
        then show ?thesis using less.prems by auto
      next
        case False
        have yz: "rep p m y r" using 2 v by simp
        from yz obtain m' where m': "m = Suc m'" "rep p m' z r"
          using False assms(3) by (cases rule: rep.cases) auto
        have "z \<noteq> x"
        proof
          assume "z = x"
          with rep_unique [OF m'(2)] less.prems True have "m' = n" by blast
          with m' 2 show False by simp
        qed
        have "m' < n" using m' 2 by simp
        from less.IH [OF this m'(2)] obtain j where "j \<le> m'" "rep (p(x \<mapsto> z)) j z r" by blast
        moreover from this \<open>z \<noteq> x\<close> True have "rep (p(x \<mapsto> z)) (Suc j) w r" by (intro rep_step) auto
        moreover from \<open>j \<le> m'\<close> \<open>m' < n\<close> have "Suc j \<le> n" by simp
        ultimately show ?thesis by blast
      qed
    qed
  qed
qed

lemma halve_iff:
  assumes p: "p x = Some y" "y \<noteq> x" "p y = Some z" and all: "\<forall>w\<in>dom p. \<exists>r. represents p w r"
  shows "represents (p(x \<mapsto> z)) w r \<longleftrightarrow> represents p w r"
proof
  show fwd: "represents p w r \<Longrightarrow> represents (p(x \<mapsto> z)) w r" for w r
    using halve_forward [OF p] unfolding represents_def by blast
  assume w: "represents (p(x \<mapsto> z)) w r"
  then have "w \<in> dom p" using p(1) rep_domD unfolding represents_def by (metis domI fun_upd_apply)
  with all obtain s where s: "represents p w s" by blast
  with fwd w represents_unique show "represents p w r" by blast
qed

text \<open>The invariant of the parent table: its keys, and a root above every key.\<close>

definition forest :: "string set \<Rightarrow> parents \<Rightarrow> bool" where
  "forest A p \<longleftrightarrow> dom p = A \<and> (\<forall>x\<in>A. \<exists>r. represents p x r)"

lemma represents_dom: "represents p x r \<Longrightarrow> x \<in> dom p \<and> r \<in> dom p \<and> p r = Some r"
  unfolding represents_def using rep_domD rep_rootD by blast

lemma find_spec:
  assumes "forest A p" and "x \<in> A"
  shows "\<exists>q r. find p x = Some (q, r) \<and> represents p x r \<and> forest A q \<and>
    (\<forall>w s. represents q w s \<longleftrightarrow> represents p w s)"
proof -
  from assms obtain n r where "rep p n x r" unfolding forest_def represents_def by blast
  with assms show ?thesis
  proof (induction n arbitrary: p x rule: less_induct)
    case (less n)
    from \<open>rep p n x r\<close> show ?case
    proof (cases rule: rep.cases)
      case rep_root
      then have "find p x = Some (p, x)" by (subst find.simps) simp
      with less.prems rep_root show ?thesis unfolding represents_def by blast
    next
      case (rep_step y m)
      from represents_dom [of p y r] rep_step(4) obtain z where z: "p y = Some z"
        unfolding represents_def by blast
      let ?q = "p(x \<mapsto> z)"
      have step: "find p x = find ?q z"
        using rep_step z by (subst find.simps) simp
      have same: "represents ?q w s \<longleftrightarrow> represents p w s" for w s
        using halve_iff [OF rep_step(2,3) z] less.prems(1) by (auto simp: forest_def)
      have "x \<in> A" "dom p = A" using less.prems by (auto simp: forest_def)
      then have forest: "forest A ?q" using less.prems(1) same by (auto simp: forest_def)
      obtain j where j: "j < n" "rep ?q j z r"
      proof (cases "z = y")
        case True
        have "?q = p" using True rep_step(2) by (simp add: fun_upd_idem)
        then show ?thesis using that [of m] rep_step True by simp
      next
        case False
        from rep_step(4) obtain m' where "m = Suc m'" "rep p m' z r"
          using False z by (cases rule: rep.cases) auto
        moreover from halve_forward [OF rep_step(2,3) z this(2)] obtain j where "j \<le> m'" "rep ?q j z r" by blast
        ultimately show ?thesis using that [of j] rep_step(1) by simp
      qed
      have zA: "z \<in> A" using represents_dom [of ?q z r] j(2) forest unfolding represents_def forest_def by blast
      from less.IH [OF j(1) forest zA j(2)] obtain q' r' where
        q': "find ?q z = Some (q', r')" "represents ?q z r'" "forest A q'" "\<forall>w s. represents q' w s \<longleftrightarrow> represents ?q w s"
        by blast
      have "represents p x r" using less.prems(3) unfolding represents_def by blast
      moreover have "r' = r" using q'(2) j(2) represents_unique unfolding represents_def by blast
      ultimately show ?thesis using q' step same by simp
    qed
  qed
qed

subsection \<open>Unions\<close>

lemma link_forward:
  assumes "p win = Some win" "p lose = Some lose" "win \<noteq> lose" "rep p n x r"
  shows "represents (p(lose \<mapsto> win)) x (if r = lose then win else r)"
  using assms(4)
proof (induction rule: rep.induct)
  case (rep_root x)
  have "rep (p(lose \<mapsto> win)) 0 win win" using assms by (intro rep.rep_root) simp
  moreover from this have "rep (p(lose \<mapsto> win)) (Suc 0) lose win" using assms by (intro rep_step) auto
  moreover have "rep (p(lose \<mapsto> win)) 0 x x" if "x \<noteq> lose" using that rep_root by (intro rep.rep_root) simp
  ultimately show ?case unfolding represents_def by (metis (full_types))
next
  case (rep_step x y n r)
  then have "x \<noteq> lose" using assms(2) by auto
  from rep_step.IH obtain m where "rep (p(lose \<mapsto> win)) m y (if r = lose then win else r)"
    unfolding represents_def by blast
  with rep_step.hyps \<open>x \<noteq> lose\<close> have "rep (p(lose \<mapsto> win)) (Suc m) x (if r = lose then win else r)"
    by (intro rep.rep_step) auto
  then show ?case unfolding represents_def by blast
qed

definition same_run :: "parents \<Rightarrow> string \<Rightarrow> string \<Rightarrow> bool" where
  "same_run p x y \<longleftrightarrow> (\<exists>r. represents p x r \<and> represents p y r)"

lemma same_run_sym: "same_run p x y \<longleftrightarrow> same_run p y x"
  by (auto simp: same_run_def)

lemma union_runs_spec:
  assumes f: "forest A p" and ab: "a \<in> A" "b \<in> A"
  shows "\<exists>q. union_runs p a b = Some q \<and> forest A q \<and>
    (\<forall>x y. same_run q x y \<longleftrightarrow> same_run p x y \<or> (same_run p x a \<and> same_run p b y) \<or> (same_run p x b \<and> same_run p a y))"
proof -
  from find_spec [OF f ab(1)] obtain p1 win where
    w: "find p a = Some (p1, win)" "represents p a win" "forest A p1" "\<And>x s. represents p1 x s \<longleftrightarrow> represents p x s"
    by blast
  from find_spec [OF w(3) ab(2)] obtain p2 lose where
    l: "find p1 b = Some (p2, lose)" "represents p b lose" "forest A p2" "\<And>x s. represents p2 x s \<longleftrightarrow> represents p x s"
    using w(4) by blast
  let ?q = "if win \<noteq> lose then p2(lose \<mapsto> win) else p2"
  have un: "union_runs p a b = Some ?q" using w(1) l(1) by (simp add: union_runs_def)
  have roots: "p2 win = Some win" "p2 lose = Some lose"
    using represents_dom w(2) l(2,4) by blast+
  have fwd: "represents ?q x (if r = lose then win else r)" if "represents p x r" for x r
    using that link_forward [OF roots, of _ x r] l(4) [of x r] unfolding represents_def by auto
  have dom: "dom ?q = A" using l(3) roots by (auto simp: forest_def)
  have forest: "forest A ?q" unfolding forest_def
  proof (intro conjI ballI)
    show "dom ?q = A" by (rule dom)
    fix x assume "x \<in> A"
    with f obtain r where "represents p x r" by (auto simp: forest_def)
    from fwd [OF this] show "\<exists>r. represents ?q x r" by blast
  qed
  have bwd: "\<exists>s. represents p x s \<and> r = (if s = lose then win else s)" if "represents ?q x r" for x r
  proof -
    have "x \<in> A" using that represents_dom dom by blast
    with f obtain s where "represents p x s" by (auto simp: forest_def)
    with fwd represents_unique that show ?thesis by blast
  qed
  have rep: "represents ?q x r \<longleftrightarrow> (\<exists>s. represents p x s \<and> r = (if s = lose then win else s))" for x r
    using fwd bwd by blast
  have win_iff: "represents p x win \<longleftrightarrow> same_run p x a" for x
    unfolding same_run_def using w(2) represents_unique by blast
  have lose_iff: "represents p x lose \<longleftrightarrow> same_run p x b" for x
    unfolding same_run_def using l(2) represents_unique by blast
  have "same_run ?q x y \<longleftrightarrow> same_run p x y \<or> (same_run p x a \<and> same_run p b y) \<or> (same_run p x b \<and> same_run p a y)" for x y
  proof -
    have eq: "(if s = lose then win else s) = (if t = lose then win else t) \<longleftrightarrow>
        s = t \<or> (s = win \<and> t = lose) \<or> (s = lose \<and> t = win)" for s t by auto
    have "same_run ?q x y \<longleftrightarrow> (\<exists>s t. represents p x s \<and> represents p y t \<and>
        (if s = lose then win else s) = (if t = lose then win else t))"
      unfolding same_run_def rep by (intro iffI) (elim exE conjE, metis, elim exE conjE, metis)
    also have "\<dots> \<longleftrightarrow> (\<exists>s t. represents p x s \<and> represents p y t \<and>
        (s = t \<or> (s = win \<and> t = lose) \<or> (s = lose \<and> t = win)))"
      by (simp only: eq)
    also have "\<dots> \<longleftrightarrow> same_run p x y \<or> (represents p x win \<and> represents p y lose) \<or>
        (represents p x lose \<and> represents p y win)"
      unfolding same_run_def by blast
    also have "\<dots> \<longleftrightarrow> same_run p x y \<or> (same_run p x a \<and> same_run p b y) \<or> (same_run p x b \<and> same_run p a y)"
      by (simp only: win_iff lose_iff same_run_sym [of p b y] same_run_sym [of p a y])
    finally show ?thesis .
  qed
  with un forest show ?thesis by blast
qed

subsection \<open>The merged runs are the connected ones\<close>

definition linked :: "(string \<times> string) set \<Rightarrow> (string \<times> string) set" where
  "linked E = (E \<union> E\<inverse>)\<^sup>*"

lemma linked_sym: "(x, y) \<in> linked E \<longleftrightarrow> (y, x) \<in> linked E"
proof -
  have "(E \<union> E\<inverse>)\<inverse> = E \<union> E\<inverse>" by auto
  then show ?thesis unfolding linked_def by (metis rtrancl_converseD rtrancl_converseI)
qed

lemma linked_trans: "(x, y) \<in> linked E \<Longrightarrow> (y, z) \<in> linked E \<Longrightarrow> (x, z) \<in> linked E"
  unfolding linked_def by (rule rtrancl_trans)

lemma linked_mono: "E \<subseteq> F \<Longrightarrow> linked E \<subseteq> linked F"
  unfolding linked_def by (rule rtrancl_mono) auto

lemma linked_edge: "(x, y) \<in> E \<Longrightarrow> (x, y) \<in> linked E \<and> (y, x) \<in> linked E"
  unfolding linked_def by auto

lemma linked_insert:
  "(x, y) \<in> linked (insert (a, b) E) \<longleftrightarrow> (x, y) \<in> linked E \<or>
     ((x, a) \<in> linked E \<and> (b, y) \<in> linked E) \<or> ((x, b) \<in> linked E \<and> (a, y) \<in> linked E)"
proof
  let ?F = "insert (a, b) E"
  have sub: "linked E \<subseteq> linked ?F" by (rule linked_mono) auto
  have ab: "(a, b) \<in> linked ?F" "(b, a) \<in> linked ?F" using linked_edge [of a b ?F] by auto
  show "(x, y) \<in> linked E \<or> ((x, a) \<in> linked E \<and> (b, y) \<in> linked E) \<or> ((x, b) \<in> linked E \<and> (a, y) \<in> linked E)
      \<Longrightarrow> (x, y) \<in> linked ?F"
    by (elim disjE conjE)
      (blast intro: subsetD [OF sub] linked_trans [OF subsetD [OF sub] linked_trans [OF ab(1) subsetD [OF sub]]]
        linked_trans [OF subsetD [OF sub] linked_trans [OF ab(2) subsetD [OF sub]]])+
  assume "(x, y) \<in> linked ?F"
  then have "(x, y) \<in> (?F \<union> ?F\<inverse>)\<^sup>*" by (simp add: linked_def)
  then show "(x, y) \<in> linked E \<or> ((x, a) \<in> linked E \<and> (b, y) \<in> linked E) \<or> ((x, b) \<in> linked E \<and> (a, y) \<in> linked E)"
  proof (induction rule: rtrancl_induct)
    case base
    then show ?case by (simp add: linked_def)
  next
    case (step y z)
    have refl: "(u, u) \<in> linked E" for u by (simp add: linked_def)
    from step.hyps consider "(y, z) \<in> linked E" | "y = a" "z = b" | "y = b" "z = a"
      using linked_edge by fast
    then show ?case
      using step.IH refl linked_trans linked_sym by cases metis+
  qed
qed

lemma unions_spec:
  assumes "forest A p" and "set ops \<subseteq> A \<times> A" and "\<And>x y. same_run p x y \<longleftrightarrow> x \<in> A \<and> y \<in> A \<and> (x, y) \<in> linked E"
  shows "\<exists>q. unions p ops = Some q \<and> forest A q \<and>
    (\<forall>x y. same_run q x y \<longleftrightarrow> x \<in> A \<and> y \<in> A \<and> (x, y) \<in> linked (E \<union> set ops))"
  using assms
proof (induction ops arbitrary: p E)
  case (Cons op ops)
  obtain a b where op: "op = (a, b)" by (cases op)
  have ab: "a \<in> A" "b \<in> A" using Cons.prems(2) op by auto
  from union_runs_spec [OF Cons.prems(1) ab] obtain q where
    q: "union_runs p a b = Some q" "forest A q"
      "\<And>x y. same_run q x y \<longleftrightarrow> same_run p x y \<or> (same_run p x a \<and> same_run p b y) \<or> (same_run p x b \<and> same_run p a y)"
    by blast
  have "same_run q x y \<longleftrightarrow> x \<in> A \<and> y \<in> A \<and> (x, y) \<in> linked (insert (a, b) E)" for x y
    unfolding q(3) Cons.prems(3) linked_insert using ab by blast
  from Cons.IH [OF q(2) _ this] Cons.prems(2) q(1) op show ?case by simp
qed simp

definition merge_edges :: "nodes \<Rightarrow> (string \<times> string) set" where
  "merge_edges nodes = (\<Union>(k, n)\<in>set nodes. set (node_unions nodes n))"

lemma set_run_ids_of: "set (run_ids_of nodes) = n_run_id ` snd ` set nodes"
  by (force simp: run_ids_of_def)

lemma node_unions_run_ids:
  assumes "(k, n) \<in> set nodes"
  shows "set (node_unions nodes n) \<subseteq> set (run_ids_of nodes) \<times> set (run_ids_of nodes)"
proof -
  have "n_run_id m \<in> set (run_ids_of nodes)" if "map_of nodes s = Some m" for s m
    using map_of_SomeD [OF that] by (force simp: set_run_ids_of)
  moreover have "n_run_id n \<in> set (run_ids_of nodes)" using assms by (force simp: set_run_ids_of)
  ultimately show ?thesis
    by (auto simp: node_unions_def split: option.splits if_splits)
qed

lemma merge_nodes_spec:
  assumes "forest (set (run_ids_of nodes)) p" and "set ss \<subseteq> fst ` set nodes"
    and "\<And>x y. same_run p x y \<longleftrightarrow> x \<in> set (run_ids_of nodes) \<and> y \<in> set (run_ids_of nodes) \<and> (x, y) \<in> linked E"
  shows "\<exists>q. merge_nodes nodes p ss = Some q \<and> forest (set (run_ids_of nodes)) q \<and>
    (\<forall>x y. same_run q x y \<longleftrightarrow> x \<in> set (run_ids_of nodes) \<and> y \<in> set (run_ids_of nodes) \<and>
       (x, y) \<in> linked (E \<union> (\<Union>s\<in>set ss. \<Union>n\<in>set_option (map_of nodes s). set (node_unions nodes n))))"
  using assms
proof (induction ss arbitrary: p E)
  case (Cons s ss)
  let ?A = "set (run_ids_of nodes)"
  from Cons.prems(2) obtain n where n: "map_of nodes s = Some n" by (auto simp: mem_keys_iff)
  from unions_spec [OF Cons.prems(1) node_unions_run_ids [OF map_of_SomeD [OF n]] Cons.prems(3)]
  obtain q where q: "unions p (node_unions nodes n) = Some q" "forest ?A q"
      "\<And>x y. same_run q x y \<longleftrightarrow> x \<in> ?A \<and> y \<in> ?A \<and> (x, y) \<in> linked (E \<union> set (node_unions nodes n))"
    by blast
  from Cons.IH [OF q(2) _ q(3)] Cons.prems(2) q(1) n show ?case by (simp add: Un_assoc)
qed simp

lemma canonical_ids_spec:
  assumes "forest A p" and "set rs \<subseteq> A"
  shows "\<exists>c. canonical_ids p rs = Some c \<and> map fst c = rs \<and> (\<forall>(x, r)\<in>set c. represents p x r)"
  using assms
proof (induction rs arbitrary: p)
  case (Cons x rs)
  then have "x \<in> A" by simp
  from find_spec [OF Cons.prems(1) this] obtain q r where
    q: "find p x = Some (q, r)" "represents p x r" "forest A q" "\<forall>w s. represents q w s \<longleftrightarrow> represents p w s" by blast
  from Cons.IH [OF q(3)] Cons.prems(2) obtain c where
    "canonical_ids q rs = Some c" "map fst c = rs" "\<forall>(x, r)\<in>set c. represents q x r" by auto
  with q show ?case by simp
qed simp

lemma merge_runs_spec:
  assumes keyed: "keyed nodes"
  shows "\<exists>c. merge_runs nodes = Some c \<and> map fst c = run_ids_of nodes \<and>
    (\<forall>x\<in>set (run_ids_of nodes). \<exists>r\<in>set (run_ids_of nodes). map_of c x = Some r \<and> map_of c r = Some r) \<and>
    (\<forall>x\<in>set (run_ids_of nodes). \<forall>y\<in>set (run_ids_of nodes).
       map_of c x = map_of c y \<longleftrightarrow> (x, y) \<in> linked (merge_edges nodes))"
proof -
  let ?A = "set (run_ids_of nodes)" and ?p = "\<lambda>r. if r \<in> set (run_ids_of nodes) then Some r else None"
  have root: "represents ?p x r \<longleftrightarrow> x \<in> ?A \<and> r = x" for x r
  proof
    assume "x \<in> ?A \<and> r = x"
    then have "rep ?p 0 x r" using rep_root [of ?p x] by simp
    then show "represents ?p x r" unfolding represents_def by blast
  qed (auto simp: represents_def elim: rep.cases split: if_splits)
  have f: "forest ?A ?p" unfolding forest_def root by (auto split: if_splits)
  have same: "same_run ?p x y \<longleftrightarrow> x \<in> ?A \<and> y \<in> ?A \<and> (x, y) \<in> linked {}" for x y
    unfolding same_run_def root linked_def by auto
  from topological_spec [OF keyed] obtain order where
    order: "topological nodes = Some order" "mset order = mset (map fst nodes)" by blast
  then have set_order: "set order = fst ` set nodes" by (metis set_map mset_eq_setD)
  have edges: "(\<Union>s\<in>set order. \<Union>n\<in>set_option (map_of nodes s). set (node_unions nodes n)) = merge_edges nodes"
    using keyed unfolding set_order merge_edges_def keyed_def
    by (force dest: map_of_SomeD)
  from merge_nodes_spec [OF f _ same, of order] set_order edges obtain q where
    q: "merge_nodes nodes ?p order = Some q" "forest ?A q"
      "\<And>x y. same_run q x y \<longleftrightarrow> x \<in> ?A \<and> y \<in> ?A \<and> (x, y) \<in> linked (merge_edges nodes)"
    by auto
  from canonical_ids_spec [OF q(2), of "run_ids_of nodes"] obtain c where
    c: "canonical_ids q (run_ids_of nodes) = Some c" "map fst c = run_ids_of nodes" "\<forall>(x, r)\<in>set c. represents q x r"
    by blast
  have look: "\<exists>r. map_of c x = Some r \<and> represents q x r" if "x \<in> ?A" for x
    using that c(2,3) by (metis (mono_tags, lifting) case_prodD map_of_SomeD mem_keys_iff set_map)
  have "\<exists>r\<in>?A. map_of c x = Some r \<and> map_of c r = Some r" if x: "x \<in> ?A" for x
  proof -
    from look [OF x] obtain r where r: "map_of c x = Some r" "represents q x r" by blast
    from represents_dom [OF r(2)] q(2) have "r \<in> ?A" "q r = Some r" by (auto simp: forest_def)
    moreover from this have "represents q r r" using rep_root [of q r] unfolding represents_def by blast
    ultimately show ?thesis using r look [of r] represents_unique by blast
  qed
  moreover have "map_of c x = map_of c y \<longleftrightarrow> (x, y) \<in> linked (merge_edges nodes)" if "x \<in> ?A" "y \<in> ?A" for x y
  proof -
    have "same_run q x y \<longleftrightarrow> (x, y) \<in> linked (merge_edges nodes)" using q(3) that by simp
    then show ?thesis using look [OF that(1)] look [OF that(2)] represents_unique
      unfolding same_run_def by (metis option.inject)
  qed
  ultimately show ?thesis using order q(1) c(1,2) by (simp add: merge_runs_def)
qed

subsection \<open>Properties\<close>

text \<open>
  C13. Merging runs always returns, gives every run id of the record a canonical id that is itself a run id
  and its own canonical id, and two run ids get the same canonical id exactly when a chain of joining
  segments links them: the path-compressing union-find implements the connected components.
\<close>

theorem merge_runs_components:
  assumes "keyed nodes"
  shows "\<exists>c. merge_runs nodes = Some c \<and> map fst c = run_ids_of nodes \<and>
    (\<forall>x\<in>set (run_ids_of nodes). \<exists>r\<in>set (run_ids_of nodes). map_of c x = Some r \<and> map_of c r = Some r) \<and>
    (\<forall>x\<in>set (run_ids_of nodes). \<forall>y\<in>set (run_ids_of nodes).
       map_of c x = map_of c y \<longleftrightarrow> (x, y) \<in> (merge_edges nodes \<union> (merge_edges nodes)\<inverse>)\<^sup>*)"
  using merge_runs_spec [OF assms] by (simp add: linked_def)

theorem merge_runs_components_witness:
  "\<exists>c. merge_runs sample_nodes = Some c \<and> map fst c = run_ids_of sample_nodes"
  using merge_runs_components [OF sample_nodes_keyed] by blast

end
