(* ===== verification/Cycles.thy ===== *)
theory Cycles
  imports SegmentGraph
begin

text \<open>
  The segments on a cycle (\<^verbatim>\<open>sdk/python/src/fabric/reconstruct/_graph.py\<close>, \<^verbatim>\<open>_on_cycles\<close>):
  Tarjan's algorithm with an explicit work list, one definition per branch of its loop. The stack and
  the work list are kept with their top first. A \<^verbatim>\<open>KeyError\<close> or a pop from an empty list is
  \<open>None\<close>. The lemmas carry the algorithm's invariant through every step and show that it returns
  exactly the segments that reach themselves.
\<close>

record tarjan =
  t_index :: "(string \<times> nat) list"
  t_low :: "(string \<times> nat) list"
  t_stack :: "string list"
  t_on_stack :: "string set"
  t_out :: "string list"

type_synonym frame = "string \<times> string list \<times> nat"

definition discover :: "tarjan \<Rightarrow> string \<Rightarrow> tarjan" where
  "discover st v = (let n = length (t_index st) in
     st\<lparr>t_index := AList.update v n (t_index st), t_low := AList.update v n (t_low st),
        t_stack := v # t_stack st, t_on_stack := insert v (t_on_stack st)\<rparr>)"

fun pop_component :: "string \<Rightarrow> string list \<Rightarrow> string set \<Rightarrow> (string list \<times> string list \<times> string set) option" where
  "pop_component current [] on = None"
| "pop_component current (member # stack) on =
     (if member = current then Some ([member], stack, on - {member})
      else do {
        (component, rest, on') \<leftarrow> pop_component current stack (on - {member});
        Some (member # component, rest, on')
      })"

definition lower_parent :: "tarjan \<Rightarrow> string \<Rightarrow> frame list \<Rightarrow> tarjan option" where
  "lower_parent st current work = (case work of [] \<Rightarrow> Some st
     | (parent, _, _) # _ \<Rightarrow> do {
         lp \<leftarrow> map_of (t_low st) parent;
         lc \<leftarrow> map_of (t_low st) current;
         Some (st\<lparr>t_low := AList.update parent (min lp lc) (t_low st)\<rparr>)
       })"

definition close_component :: "adjacency \<Rightarrow> tarjan \<Rightarrow> string \<Rightarrow> tarjan option" where
  "close_component succ st current = do {
     (component, stack, on) \<leftarrow> pop_component current (t_stack st) (t_on_stack st);
     following \<leftarrow> map_of succ current;
     Some (st\<lparr>t_stack := stack, t_on_stack := on,
              t_out := (if length component > 1 \<or> current \<in> set following
                        then t_out st @ component else t_out st)\<rparr>)
   }"

definition finish :: "adjacency \<Rightarrow> tarjan \<Rightarrow> string \<Rightarrow> frame list \<Rightarrow> tarjan option" where
  "finish succ st current work = do {
     st1 \<leftarrow> lower_parent st current work;
     low \<leftarrow> map_of (t_low st1) current;
     index \<leftarrow> map_of (t_index st1) current;
     if low \<noteq> index then Some st1 else close_component succ st1 current
   }"

definition visit_child ::
  "adjacency \<Rightarrow> tarjan \<Rightarrow> string \<Rightarrow> string \<Rightarrow> frame list \<Rightarrow> (tarjan \<times> frame list) option" where
  "visit_child succ st current child work =
     (case map_of (t_index st) child of
        None \<Rightarrow> do {
          following \<leftarrow> map_of succ child;
          Some (discover st child, (child, sort following, 0) # work)
        }
      | Some i \<Rightarrow>
          if child \<in> t_on_stack st then do {
            low \<leftarrow> map_of (t_low st) current;
            Some (st\<lparr>t_low := AList.update current (min low i) (t_low st)\<rparr>, work)
          } else Some (st, work))"

fun tarjan_step :: "adjacency \<Rightarrow> tarjan \<Rightarrow> frame list \<Rightarrow> (tarjan \<times> frame list) option" where
  "tarjan_step succ st [] = None"
| "tarjan_step succ st ((current, children, position) # work) =
     (if position < length children
      then visit_child succ st current (children ! position) ((current, children, position + 1) # work)
      else do { st' \<leftarrow> finish succ st current work; Some (st', work) })"

subsection \<open>The loop ends\<close>

definition unvisited :: "adjacency \<Rightarrow> tarjan \<Rightarrow> nat" where
  "unvisited succ st = card (fst ` set succ - fst ` set (t_index st))"

definition pending :: "frame list \<Rightarrow> nat" where
  "pending work = sum_list (map (\<lambda>(v, cs, p). length cs - p + 1) work)"

lemma keys_update: "fst ` set (AList.update k v d) = insert k (fst ` set d)"
  using dom_update [of k v d] by (simp add: dom_map_of_conv_image_fst [symmetric] update_conv')

lemma finish_index: "finish succ st current work = Some st' \<Longrightarrow> t_index st' = t_index st"
  by (auto simp: finish_def lower_parent_def close_component_def bind_eq_Some_conv
      split: list.splits if_splits)

lemma tarjan_step_decreases:
  assumes "tarjan_step succ st work = Some (st', work')"
  shows "(unvisited succ st', pending work') < (unvisited succ st, pending work)"
proof -
  from assms obtain current children position rest where w: "work = (current, children, position) # rest"
    by (cases work) auto
  show ?thesis
  proof (cases "position < length children")
    case True
    let ?child = "children ! position"
    have visit: "visit_child succ st current ?child ((current, children, position + 1) # rest) = Some (st', work')"
      using assms w True by simp
    show ?thesis
    proof (cases "map_of (t_index st) ?child")
      case None
      with visit obtain following where f: "map_of succ ?child = Some following" "st' = discover st ?child"
        by (auto simp: visit_child_def bind_eq_Some_conv)
      have mem: "?child \<in> fst ` set succ - fst ` set (t_index st)"
        using f(1) None by (auto simp: mem_keys_iff)
      have "fst ` set succ - fst ` set (t_index st') = (fst ` set succ - fst ` set (t_index st)) - {?child}"
        by (auto simp: f(2) discover_def Let_def keys_update)
      with mem have "unvisited succ st' < unvisited succ st"
        unfolding unvisited_def by (metis List.finite_set card_Diff1_less finite_Diff finite_imageI)
      then show ?thesis by simp
    next
      case (Some i)
      with visit True have "t_index st' = t_index st" "work' = (current, children, position + 1) # rest"
        by (auto simp: visit_child_def bind_eq_Some_conv split: if_splits)
      then show ?thesis using True w by (simp add: unvisited_def pending_def)
    qed
  next
    case False
    with assms w have "work' = rest" "t_index st' = t_index st"
      by (auto simp: bind_eq_Some_conv finish_index)
    then show ?thesis using w by (simp add: unvisited_def pending_def)
  qed
qed

function tarjan_loop :: "adjacency \<Rightarrow> tarjan \<Rightarrow> frame list \<Rightarrow> tarjan option" where
  "tarjan_loop succ st work =
     (if work = [] then Some st
      else case tarjan_step succ st work of None \<Rightarrow> None
        | Some (st', work') \<Rightarrow> tarjan_loop succ st' work')"
  by auto

termination
proof (relation "inv_image (less_than <*lex*> less_than) (\<lambda>(succ, st, work). (unvisited succ st, pending work))")
  fix succ st work x st' work'
  assume "tarjan_step succ st work = Some x" "(st', work') = x"
  then have "tarjan_step succ st work = Some (st', work')" by simp
  from tarjan_step_decreases [OF this]
  show "((succ, st', work'), (succ, st, work)) \<in> inv_image (less_than <*lex*> less_than)
      (\<lambda>(succ, st, work). (unvisited succ st, pending work))"
    by (auto simp: less_prod_def' split: if_splits)
qed auto

declare tarjan_loop.simps [simp del]

definition tarjan_start :: tarjan where
  "tarjan_start = \<lparr>t_index = [], t_low = [], t_stack = [], t_on_stack = {}, t_out = []\<rparr>"

fun tarjan_all :: "adjacency \<Rightarrow> tarjan \<Rightarrow> string list \<Rightarrow> tarjan option" where
  "tarjan_all succ st [] = Some st"
| "tarjan_all succ st (start # starts) =
     (if start \<in> fst ` set (t_index st) then tarjan_all succ st starts
      else do {
        following \<leftarrow> map_of succ start;
        st' \<leftarrow> tarjan_loop succ (discover st start) [(start, sort following, 0)];
        tarjan_all succ st' starts
      })"

definition on_cycles :: "adjacency \<Rightarrow> string list option" where
  "on_cycles succ = do { st \<leftarrow> tarjan_all succ tarjan_start (sort (map fst succ)); Some (sort (t_out st)) }"

subsection \<open>The invariant\<close>

definition edges :: "adjacency \<Rightarrow> (string \<times> string) set" where
  "edges succ = {(u, v). adj succ u v}"

definition ix :: "tarjan \<Rightarrow> string \<Rightarrow> nat" where
  "ix st v = the (map_of (t_index st) v)"

definition low_of :: "tarjan \<Rightarrow> string \<Rightarrow> nat" where
  "low_of st v = the (map_of (t_low st) v)"

definition indexed :: "tarjan \<Rightarrow> string set" where
  "indexed st = fst ` set (t_index st)"

definition gray :: "frame list \<Rightarrow> string set" where
  "gray work = fst ` set work"

definition closed_part :: "tarjan \<Rightarrow> string set" where
  "closed_part st = indexed st - set (t_stack st)"

text \<open>The successors of \<open>x\<close> the loop has looked at.\<close>

definition explored :: "adjacency \<Rightarrow> frame list \<Rightarrow> string \<Rightarrow> string set" where
  "explored succ work x = (case map_of work x of Some (cs, p) \<Rightarrow> set (take p cs) | None \<Rightarrow> {w. adj succ x w})"

text \<open>The part of the stack above \<open>v\<close> and below the next unfinished node.\<close>

definition own :: "tarjan \<Rightarrow> frame list \<Rightarrow> string \<Rightarrow> string set" where
  "own st work v = {x \<in> set (t_stack st). ix st v \<le> ix st x \<and> (\<forall>g\<in>gray work. ix st v < ix st g \<longrightarrow> ix st x < ix st g)}"

definition index_ok :: "adjacency \<Rightarrow> tarjan \<Rightarrow> bool" where
  "index_ok succ st \<longleftrightarrow> indexed st \<subseteq> fst ` set succ \<and> inj_on (ix st) (indexed st) \<and>
     (\<forall>v\<in>indexed st. ix st v < length (t_index st)) \<and> indexed st \<subseteq> fst ` set (t_low st)"

definition stack_ok :: "tarjan \<Rightarrow> bool" where
  "stack_ok st \<longleftrightarrow> sorted_wrt (\<lambda>x y. ix st y < ix st x) (t_stack st) \<and> set (t_stack st) \<subseteq> indexed st \<and>
     t_on_stack st = set (t_stack st)"

definition work_ok :: "adjacency \<Rightarrow> tarjan \<Rightarrow> frame list \<Rightarrow> bool" where
  "work_ok succ st work \<longleftrightarrow> sorted_wrt (\<lambda>f g. ix st (fst g) < ix st (fst f)) work \<and> gray work \<subseteq> set (t_stack st) \<and>
     (\<forall>(v, cs, p)\<in>set work. set cs = {w. adj succ v w} \<and> p \<le> length cs) \<and>
     (\<forall>x\<in>indexed st. explored succ work x \<subseteq> indexed st)"

definition reach_ok :: "adjacency \<Rightarrow> tarjan \<Rightarrow> frame list \<Rightarrow> bool" where
  "reach_ok succ st work \<longleftrightarrow>
     (\<forall>u\<in>gray work. \<forall>x\<in>set (t_stack st). ix st u \<le> ix st x \<longrightarrow> (u, x) \<in> (edges succ)\<^sup>*) \<and>
     (\<forall>x\<in>set (t_stack st) - gray work. \<exists>y\<in>set (t_stack st). ix st y < ix st x \<and> (x, y) \<in> (edges succ)\<^sup>*)"

definition low_at :: "adjacency \<Rightarrow> tarjan \<Rightarrow> frame list \<Rightarrow> string \<Rightarrow> bool" where
  "low_at succ st work v \<longleftrightarrow> low_of st v \<le> ix st v \<and>
     (\<exists>y\<in>set (t_stack st). ix st y = low_of st v \<and> (v, y) \<in> (edges succ)\<^sup>*) \<and>
     (\<forall>x\<in>own st work v. \<forall>w\<in>explored succ work x \<inter> set (t_stack st). low_of st v \<le> ix st w)"

definition low_ok :: "adjacency \<Rightarrow> tarjan \<Rightarrow> frame list \<Rightarrow> bool" where
  "low_ok succ st work \<longleftrightarrow> (\<forall>v\<in>gray work. low_at succ st work v)"

lemma low_atI:
  assumes "low_of st v \<le> ix st v" "y \<in> set (t_stack st)" "ix st y = low_of st v" "(v, y) \<in> (edges succ)\<^sup>*"
    "\<And>x w. x \<in> own st work v \<Longrightarrow> w \<in> explored succ work x \<Longrightarrow> w \<in> set (t_stack st) \<Longrightarrow> low_of st v \<le> ix st w"
  shows "low_at succ st work v"
  unfolding low_at_def using assms by blast

lemma low_atD:
  assumes "low_at succ st work v"
  shows "low_of st v \<le> ix st v" "\<exists>y\<in>set (t_stack st). ix st y = low_of st v \<and> (v, y) \<in> (edges succ)\<^sup>*"
    "x \<in> own st work v \<Longrightarrow> w \<in> explored succ work x \<Longrightarrow> w \<in> set (t_stack st) \<Longrightarrow> low_of st v \<le> ix st w"
  using assms by (auto simp: low_at_def)

definition out_ok :: "adjacency \<Rightarrow> tarjan \<Rightarrow> bool" where
  "out_ok succ st \<longleftrightarrow> (\<forall>x\<in>closed_part st. \<forall>w. adj succ x w \<longrightarrow> w \<in> closed_part st) \<and>
     set (t_out st) = {x \<in> closed_part st. (x, x) \<in> (edges succ)\<^sup>+}"

definition tarjan_inv :: "adjacency \<Rightarrow> tarjan \<Rightarrow> frame list \<Rightarrow> bool" where
  "tarjan_inv succ st work \<longleftrightarrow> index_ok succ st \<and> stack_ok st \<and> work_ok succ st work \<and>
     reach_ok succ st work \<and> low_ok succ st work \<and> out_ok succ st"

lemma in_edges [simp]: "(u, v) \<in> edges succ \<longleftrightarrow> adj succ u v"
  by (simp add: edges_def)

lemma indexed_iff: "v \<in> indexed st \<longleftrightarrow> (\<exists>i. map_of (t_index st) v = Some i)"
  by (simp add: indexed_def mem_keys_iff)

lemma update_new: "k \<notin> fst ` set d \<Longrightarrow> AList.update k v d = d @ [(k, v)]"
  by (induction d) auto

lemma discover_simps:
  assumes "v \<notin> indexed st"
  shows "indexed (discover st v) = insert v (indexed st)" "t_stack (discover st v) = v # t_stack st"
    "t_on_stack (discover st v) = insert v (t_on_stack st)" "t_out (discover st v) = t_out st"
    "ix (discover st v) x = (if x = v then length (t_index st) else ix st x)"
    "low_of (discover st v) x = (if x = v then length (t_index st) else low_of st x)"
    "length (t_index (discover st v)) = Suc (length (t_index st))"
    "fst ` set (t_low (discover st v)) = insert v (fst ` set (t_low st))"
  using assms by (simp_all add: discover_def Let_def indexed_def keys_update ix_def low_of_def update_conv')
    (simp add: update_new)

text \<open>Finding a new child: the node goes on the stack and its frame on the work list.\<close>

lemma discover_inv:
  assumes inv: "tarjan_inv succ st ((u, cs, p) # work)"
    and child: "p < length cs" "cs ! p = v" "v \<notin> indexed st" and fs: "map_of succ v = Some fs"
  shows "tarjan_inv succ (discover st v) ((v, sort fs, 0) # (u, cs, Suc p) # work)"
proof -
  let ?W = "(u, cs, p) # work" and ?W' = "(v, sort fs, 0) # (u, cs, Suc p) # work"
  let ?st = "discover st v" and ?n = "length (t_index st)"
  note d = discover_simps [OF child(3)]
  have ok: "index_ok succ st" "stack_ok st" "work_ok succ st ?W" "reach_ok succ st ?W" "low_ok succ st ?W" "out_ok succ st"
    using inv by (simp_all add: tarjan_inv_def)
  have grays: "gray ?W' = insert v (gray ?W)" by (auto simp: gray_def)
  have new: "v \<notin> set (t_stack st)" "v \<notin> gray ?W"
    using child(3) ok(2,3) by (auto simp: stack_ok_def work_ok_def)
  have small: "ix st x < ?n" if "x \<in> indexed st" for x using that ok(1) by (simp add: index_ok_def)
  have neq: "ix st x \<noteq> ?n" "?n \<noteq> ix st x" if "x \<in> indexed st" for x using small [OF that] by simp_all
  have stk: "set (t_stack st) \<subseteq> indexed st" "gray ?W \<subseteq> set (t_stack st)"
    using ok(2,3) by (simp_all add: stack_ok_def work_ok_def)
  have uv: "adj succ u v"
  proof -
    have "set cs = {w. adj succ u w}" using ok(3) by (simp add: work_ok_def)
    with child(1,2) nth_mem show ?thesis by blast
  qed
  have vu: "v \<noteq> u" using new by (auto simp: gray_def)
  have expl: "explored succ ?W' x = (if x = v then {} else if x = u then insert v (explored succ ?W u) else explored succ ?W x)" for x
    using child(1,2) vu by (auto simp: explored_def take_Suc_conv_app_nth)
  have vks: "v \<in> fst ` set succ" using fs by (auto simp: mem_keys_iff)
  have top: "ix st g \<le> ix st u" if "g \<in> gray ?W" for g
    using that ok(3) by (auto simp: work_ok_def gray_def)
  have "index_ok succ ?st"
    using ok(1) vks neq small unfolding index_ok_def d inj_on_def by (simp add: less_SucI subset_insertI2)
  moreover have "stack_ok ?st"
  proof -
    have "sorted_wrt (\<lambda>x y. ix ?st y < ix ?st x) (t_stack st)"
      by (rule sorted_wrt_mono_rel [where P = "\<lambda>x y. ix st y < ix st x"])
        (use new(1) ok(2) in \<open>auto simp: d stack_ok_def\<close>)
    then show ?thesis using ok(2) small stk(1) new(1) by (auto simp: stack_ok_def d)
  qed
  moreover have "work_ok succ ?st ?W'"
  proof -
    have "sorted_wrt (\<lambda>f g. ix ?st (fst g) < ix ?st (fst f)) work"
      by (rule sorted_wrt_mono_rel [where P = "\<lambda>f g. ix st (fst g) < ix st (fst f)"])
        (use new(2) ok(3) in \<open>auto simp: d gray_def work_ok_def\<close>)
    moreover have "\<forall>x\<in>indexed ?st. explored succ ?W' x \<subseteq> indexed ?st"
      using ok(3) by (auto simp: expl d work_ok_def)
    moreover have "set fs = {w. adj succ v w}" using fs by (auto simp: adj_def)
    moreover have "\<forall>f\<in>set ?W. ix st (fst f) < ?n" using small stk by (metis gray_def image_eqI subsetD)
    ultimately show ?thesis
      using ok(3) stk new vu child(1) by (auto simp: work_ok_def d gray_def)
  qed
  moreover have "reach_ok succ ?st ?W'"
  proof -
    have "(g, v) \<in> (edges succ)\<^sup>*" if "g \<in> gray ?W" for g
    proof -
      have "(g, u) \<in> (edges succ)\<^sup>*"
        using that ok(4) top [OF that] stk(2) by (auto simp: reach_ok_def gray_def)
      with uv show ?thesis by (meson in_edges rtrancl.rtrancl_into_rtrancl)
    qed
    then have to_v: "\<And>g. g \<in> gray ?W \<Longrightarrow> (g, v) \<in> (edges succ)\<^sup>*" .
    have ix_st: "ix ?st x = ix st x" if "x \<in> set (t_stack st)" for x using that new(1) by (auto simp: d)
    show ?thesis unfolding reach_ok_def grays d(2)
    proof (intro conjI ballI impI)
      fix g x assume g: "g \<in> insert v (gray ?W)" and x: "x \<in> set (v # t_stack st)" and le: "ix ?st g \<le> ix ?st x"
      show "(g, x) \<in> (edges succ)\<^sup>*"
      proof (cases "x = v")
        case True
        then show ?thesis using g to_v by auto
      next
        case False
        then have xs: "x \<in> set (t_stack st)" using x by simp
        then have "g \<noteq> v" using le small [of x] stk(1) False by (auto simp: d(5))
        then have gs: "g \<in> gray ?W" using g by simp
        then have "ix st g \<le> ix st x" using le ix_st [OF xs] ix_st [of g] stk(2) by auto
        then show ?thesis using ok(4) gs xs unfolding reach_ok_def by blast
      qed
    next
      fix x assume "x \<in> set (v # t_stack st) - insert v (gray ?W)"
      then have "x \<in> set (t_stack st) - gray ?W" by auto
      moreover from this obtain y where "y \<in> set (t_stack st)" "ix st y < ix st x" "(x, y) \<in> (edges succ)\<^sup>*"
        using ok(4) unfolding reach_ok_def by blast
      ultimately show "\<exists>y\<in>set (v # t_stack st). ix ?st y < ix ?st x \<and> (x, y) \<in> (edges succ)\<^sup>*"
        by (intro bexI [of _ y]) (auto simp: ix_st)
    qed
  qed
  moreover have "low_ok succ ?st ?W'"
  proof -
    have "own ?st ?W' v \<subseteq> {v}"
      using small stk(1) by (force simp: own_def d split: if_splits)
    then have none: "explored succ ?W' x = {}" if "x \<in> own ?st ?W' v" for x using that by (auto simp: expl)
    have "low_at succ ?st ?W' v"
      by (rule low_atI [of _ _ v]) (simp_all add: d none)
    moreover have "low_at succ ?st ?W' g"
      if g: "g \<in> gray ?W" for g
    proof -
      have gv: "g \<noteq> v" "g \<in> indexed st" using g new stk by auto
      have "low_at succ st ?W g" using ok(5) g by (simp add: low_ok_def)
      note low = low_atD [OF this]
      have own: "x \<in> own st ?W g" "x \<noteq> v" if x: "x \<in> own ?st ?W' g" for x
      proof -
        show "x \<noteq> v" using x gv small [OF gv(2)] by (auto simp: own_def grays d)
        then show "x \<in> own st ?W g" using x gv new(2) by (auto simp: own_def grays d split: if_splits)
      qed
      have "low_of st g \<le> ix ?st w" if x: "x \<in> own ?st ?W' g" and w: "w \<in> explored succ ?W' x" "w \<in> set (t_stack ?st)" for x w
      proof (cases "w = v")
        case True
        then show ?thesis using low(1) small [OF gv(2)] by (simp add: d)
      next
        case False
        with w own [OF x] have "w \<in> explored succ ?W x" "w \<in> set (t_stack st)" by (auto simp: expl d split: if_splits)
        from low(3) [OF own(1) [OF x] this] False show ?thesis by (simp add: d)
      qed
      moreover have "\<exists>y\<in>set (t_stack ?st). ix ?st y = low_of st g \<and> (g, y) \<in> (edges succ)\<^sup>*"
      proof -
        from low(2) obtain y where "y \<in> set (t_stack st)" "ix st y = low_of st g" "(g, y) \<in> (edges succ)\<^sup>*" by blast
        then show ?thesis using new(1) by (intro bexI [of _ y]) (auto simp: d)
      qed
      ultimately show ?thesis using low(1) gv(1) unfolding low_at_def by (simp add: d(5,6))
    qed
    ultimately show ?thesis unfolding low_ok_def grays by simp
  qed
  moreover have "out_ok succ ?st"
  proof -
    have "closed_part ?st = closed_part st" using child(3) by (auto simp: closed_part_def d)
    then show ?thesis using ok(6) by (simp add: out_ok_def d(4))
  qed
  ultimately show ?thesis by (simp add: tarjan_inv_def)
qed

text \<open>Looking at a child already indexed: the frame advances, and a child on the stack may lower \<open>low\<close>.\<close>

definition relow :: "tarjan \<Rightarrow> string \<Rightarrow> nat \<Rightarrow> tarjan \<Rightarrow> bool" where
  "relow st u n st' \<longleftrightarrow> t_index st' = t_index st \<and> t_stack st' = t_stack st \<and> t_on_stack st' = t_on_stack st \<and>
     t_out st' = t_out st \<and> fst ` set (t_low st) \<subseteq> fst ` set (t_low st') \<and>
     low_of st' = (\<lambda>x. if x = u then n else low_of st x)"

lemma relow_update: "relow st u n (st\<lparr>t_low := AList.update u n (t_low st)\<rparr>)"
  by (auto simp: relow_def keys_update low_of_def update_conv' fun_eq_iff)

lemma relow_same: "low_of st u = n \<Longrightarrow> relow st u n st"
  by (auto simp: relow_def fun_eq_iff)

lemma relow_simps:
  assumes "relow st u n st'"
  shows "indexed st' = indexed st" "t_stack st' = t_stack st" "ix st' = ix st" "own st' = own st"
    "low_of st' x = (if x = u then n else low_of st x)" "stack_ok st' = stack_ok st"
    "work_ok succ st' = work_ok succ st" "reach_ok succ st' = reach_ok succ st" "out_ok succ st' = out_ok succ st"
    "index_ok succ st \<Longrightarrow> index_ok succ st'"
proof -
  have eq: "t_index st' = t_index st" "t_stack st' = t_stack st" "t_on_stack st' = t_on_stack st" "t_out st' = t_out st"
    using assms by (simp_all add: relow_def)
  show idx: "indexed st' = indexed st" "ix st' = ix st" by (simp_all add: indexed_def ix_def eq fun_eq_iff)
  show "t_stack st' = t_stack st" by (rule eq)
  show "own st' = own st" by (simp add: own_def idx eq fun_eq_iff)
  show "low_of st' x = (if x = u then n else low_of st x)" using assms by (simp add: relow_def)
  show "stack_ok st' = stack_ok st" "work_ok succ st' = work_ok succ st" "reach_ok succ st' = reach_ok succ st"
      "out_ok succ st' = out_ok succ st"
    by (simp_all add: stack_ok_def work_ok_def reach_ok_def out_ok_def closed_part_def idx eq fun_eq_iff)
  show "index_ok succ st \<Longrightarrow> index_ok succ st'"
    using assms by (auto simp: index_ok_def idx eq relow_def)
qed

lemma advance_inv:
  assumes inv: "tarjan_inv succ st ((u, cs, p) # work)" and child: "p < length cs" "cs ! p = v" "v \<in> indexed st"
    and n: "n = (if v \<in> set (t_stack st) then min (low_of st u) (ix st v) else low_of st u)"
    and st': "relow st u n st'"
  shows "tarjan_inv succ st' ((u, cs, Suc p) # work)"
proof -
  let ?W = "(u, cs, p) # work" and ?W' = "(u, cs, Suc p) # work"
  have ok: "index_ok succ st" "stack_ok st" "work_ok succ st ?W" "reach_ok succ st ?W" "low_ok succ st ?W" "out_ok succ st"
    using inv by (simp_all add: tarjan_inv_def)
  have grays: "gray ?W' = gray ?W" by (simp add: gray_def)
  have own: "own st ?W' = own st ?W" by (rule ext) (simp only: own_def grays)
  have expl: "explored succ ?W' x = (if x = u then insert v (explored succ ?W u) else explored succ ?W x)" for x
    using child(1,2) by (auto simp: explored_def take_Suc_conv_app_nth)
  have uv: "adj succ u v"
  proof -
    have "set cs = {w. adj succ u w}" using ok(3) by (simp add: work_ok_def)
    with child(1,2) nth_mem show ?thesis by blast
  qed
  have u_own: "u \<in> own st ?W g \<Longrightarrow> g = u" if "g \<in> gray ?W" for g
    using that ok(3) by (auto simp: own_def gray_def work_ok_def)
  have "work_ok succ st ?W'"
    using ok(3) child(1,3) unfolding work_ok_def grays expl by (auto simp: gray_def)
  moreover have "reach_ok succ st ?W'" using ok(4) by (simp add: reach_ok_def grays)
  moreover have "low_ok succ st' ?W'"
    unfolding low_ok_def low_at_def grays relow_simps [OF st'] own
  proof (intro ballI conjI)
    fix g assume g: "g \<in> gray ?W"
    then have "low_at succ st ?W g" using ok(5) by (simp add: low_ok_def)
    note low = low_atD [OF this]
    show "(if g = u then n else low_of st g) \<le> ix st g" using low(1) n by auto
    show "\<exists>y\<in>set (t_stack st). ix st y = (if g = u then n else low_of st g) \<and> (g, y) \<in> (edges succ)\<^sup>*"
      using low(2) r_into_rtrancl [of "(u, v)" "edges succ"] uv unfolding n by (auto simp: min_def)
    fix x w assume x: "x \<in> own st ?W g" and w: "w \<in> explored succ ?W' x \<inter> set (t_stack st)"
    show "(if g = u then n else low_of st g) \<le> ix st w"
    proof (cases "x = u \<and> w = v")
      case True
      then show ?thesis using u_own [OF g] x w n by auto
    next
      case False
      then have "w \<in> explored succ ?W x" using w by (auto simp: expl split: if_splits)
      from low(3) [OF x this] w n show ?thesis by auto
    qed
  qed
  ultimately show ?thesis using ok by (simp add: tarjan_inv_def relow_simps [OF st'])
qed

text \<open>Finishing a node: its parent takes over its part of the stack, or its component closes.\<close>

lemma top_own:
  assumes "work_ok succ st ((u, cs, p) # work)"
  shows "own st ((u, cs, p) # work) u = {x \<in> set (t_stack st). ix st u \<le> ix st x}"
  using assms by (auto simp: own_def gray_def work_ok_def)

lemma explored_finished:
  assumes "work_ok succ st ((u, cs, length cs) # work)"
  shows "explored succ work x = explored succ ((u, cs, length cs) # work) x"
proof (cases "x = u")
  case True
  have "u \<notin> fst ` set work" using assms by (auto simp: work_ok_def)
  then have "map_of work u = None" by (simp add: map_of_eq_None_iff)
  moreover have "set cs = {w. adj succ u w}" using assms by (simp add: work_ok_def)
  ultimately show ?thesis using True by (simp add: explored_def)
qed (simp add: explored_def)

lemma finish_open_inv:
  assumes inv: "tarjan_inv succ st ((u, cs, length cs) # work)" and low: "low_of st u \<noteq> ix st u"
    and st': "case work of [] \<Rightarrow> st' = st | (v, _, _) # _ \<Rightarrow> relow st v (min (low_of st v) (low_of st u)) st'"
  shows "tarjan_inv succ st' work"
proof -
  let ?W = "(u, cs, length cs) # work"
  have ok: "index_ok succ st" "stack_ok st" "work_ok succ st ?W" "reach_ok succ st ?W" "low_ok succ st ?W" "out_ok succ st"
    using inv by (simp_all add: tarjan_inv_def)
  have grays: "gray ?W = insert u (gray work)" by (simp add: gray_def)
  have ug: "u \<notin> gray work" using ok(3) by (auto simp: work_ok_def gray_def)
  have below: "ix st g < ix st u" if "g \<in> gray work" for g using that ok(3) by (auto simp: work_ok_def gray_def)
  have "low_at succ st ?W u" using ok(5) grays by (simp add: low_ok_def)
  note lowu = low_atD [OF this]
  have low_lt: "low_of st u < ix st u" using lowu(1) low by simp
  have work: "work_ok succ st work"
    using ok(3) explored_finished [OF ok(3)] by (auto simp: work_ok_def grays)
  have reach: "reach_ok succ st work"
    using ok(4) low_lt lowu(2) unfolding reach_ok_def grays by (metis Diff_iff insert_iff)
  have expl: "explored succ work = explored succ ?W" using explored_finished [OF ok(3)] by (simp add: fun_eq_iff)
  show ?thesis
  proof (cases work)
    case Nil
    then show ?thesis using st' ok work reach by (simp add: tarjan_inv_def low_ok_def gray_def)
  next
    case (Cons f rest)
    obtain v ds q where f: "f = (v, ds, q)" by (cases f)
    have rl: "relow st v (min (low_of st v) (low_of st u)) st'" using st' Cons f by simp
    have vg: "v \<in> gray work" using Cons f by (simp add: gray_def)
    have vtop: "ix st g \<le> ix st v" if "g \<in> gray work" for g
      using that ok(3) Cons f by (auto simp: work_ok_def gray_def)
    have own: "x \<in> own st ?W g \<or> (g = v \<and> x \<in> own st ?W u)" if x: "x \<in> own st work g" and g: "g \<in> gray work" for x g
    proof (cases "ix st u \<le> ix st x")
      case True
      have "g = v"
      proof (rule ccontr)
        assume "g \<noteq> v"
        have "g \<in> indexed st" "v \<in> indexed st"
          using g vg grays ok(2,3) by (auto simp: work_ok_def stack_ok_def)
        then have "ix st g \<noteq> ix st v" using \<open>g \<noteq> v\<close> ok(1) by (auto simp: index_ok_def inj_on_def)
        then have "ix st g < ix st v" using vtop [OF g] by simp
        with x vg have "ix st x < ix st v" by (simp add: own_def)
        with below [OF vg] True show False by simp
      qed
      with x True show ?thesis by (simp add: top_own [OF ok(3)]) (simp add: own_def)
    next
      case False
      with x show ?thesis by (auto simp: own_def grays)
    qed
    have "low_ok succ st' work"
      unfolding low_ok_def low_at_def relow_simps [OF rl]
    proof (intro ballI conjI)
      fix g assume g: "g \<in> gray work"
      have "low_at succ st ?W g" using ok(5) g grays by (simp add: low_ok_def)
      note lg = low_atD [OF this]
      let ?l = "if g = v then min (low_of st v) (low_of st u) else low_of st g"
      show "?l \<le> ix st g" using lg(1) by auto
      have "(v, u) \<in> (edges succ)\<^sup>*"
        using ok(3,4) below [OF vg] vg grays by (auto simp: reach_ok_def work_ok_def gray_def)
      then show "\<exists>y\<in>set (t_stack st). ix st y = ?l \<and> (g, y) \<in> (edges succ)\<^sup>*"
        using lg(2) lowu(2) by (auto simp: min_def dest: rtrancl_trans)
      fix x w assume x: "x \<in> own st work g" and w: "w \<in> explored succ work x \<inter> set (t_stack st)"
      show "?l \<le> ix st w"
        using own [OF x g] lg(3) [of x w] lowu(3) [of x w] w by (auto simp: expl)
    qed
    then show ?thesis using ok work reach rl by (simp add: tarjan_inv_def relow_simps)
  qed
qed

lemma pop_component_spec:
  "current \<in> set stack \<Longrightarrow> distinct stack \<Longrightarrow> pop_component current stack on =
     Some (takeWhile (\<lambda>x. x \<noteq> current) stack @ [current], tl (dropWhile (\<lambda>x. x \<noteq> current) stack),
       on - set (takeWhile (\<lambda>x. x \<noteq> current) stack) - {current})"
proof (induction stack arbitrary: on)
  case (Cons a stack)
  have "on - {a} - S - {current} = on - insert a S - {current}" for S by blast
  with Cons show ?case by auto
qed simp

lemma sorted_wrt_distinct: "sorted_wrt (\<lambda>x y. f y < (f x :: nat)) xs \<Longrightarrow> distinct xs"
  by (induction xs) auto

lemma sorted_split:
  assumes "sorted_wrt (\<lambda>x y. f y < (f x :: nat)) xs" and "c \<in> set xs"
  shows "set (takeWhile (\<lambda>x. x \<noteq> c) xs @ [c]) = {x \<in> set xs. f c \<le> f x}"
    and "set (tl (dropWhile (\<lambda>x. x \<noteq> c) xs)) = {x \<in> set xs. f x < f c}"
    and "sorted_wrt (\<lambda>x y. f y < f x) (tl (dropWhile (\<lambda>x. x \<noteq> c) xs))"
proof -
  from assms(2) obtain ys zs where xs: "xs = ys @ c # zs" "c \<notin> set ys" by (meson split_list_first)
  then have tw: "takeWhile (\<lambda>x. x \<noteq> c) xs = ys" "dropWhile (\<lambda>x. x \<noteq> c) xs = c # zs"
    by (auto simp: takeWhile_append dropWhile_append)
  have s: "\<forall>y\<in>set ys. f c < f y" "\<forall>z\<in>set zs. f z < f c" "sorted_wrt (\<lambda>x y. f y < f x) zs"
    using assms(1) xs by (auto simp: sorted_wrt_append)
  show "set (takeWhile (\<lambda>x. x \<noteq> c) xs @ [c]) = {x \<in> set xs. f c \<le> f x}"
    using s unfolding tw by (auto simp: xs)
  show "set (tl (dropWhile (\<lambda>x. x \<noteq> c) xs)) = {x \<in> set xs. f x < f c}"
    using s unfolding tw by (auto simp: xs)
  show "sorted_wrt (\<lambda>x y. f y < f x) (tl (dropWhile (\<lambda>x. x \<noteq> c) xs))"
    using s unfolding tw by simp
qed

text \<open>A component whose root cannot go lower is strongly connected and closed.\<close>

lemma component_facts:
  assumes inv: "tarjan_inv succ st ((u, cs, length cs) # work)" and low: "low_of st u = ix st u"
  defines "T \<equiv> {x \<in> set (t_stack st). ix st u \<le> ix st x}"
  shows "u \<in> T" "\<forall>x\<in>T. \<forall>w. adj succ x w \<longrightarrow> w \<in> T \<union> closed_part st" "T \<inter> closed_part st = {}"
    "\<forall>x\<in>T. (u, x) \<in> (edges succ)\<^sup>*" "\<forall>x\<in>T. (x, u) \<in> (edges succ)\<^sup>*" "T \<inter> gray work = {}"
proof -
  let ?W = "(u, cs, length cs) # work" and ?D = "closed_part st"
  have ok: "index_ok succ st" "stack_ok st" "work_ok succ st ?W" "reach_ok succ st ?W" "low_ok succ st ?W" "out_ok succ st"
    using inv by (simp_all add: tarjan_inv_def)
  have stk: "set (t_stack st) \<subseteq> indexed st" using ok(2) by (simp add: stack_ok_def)
  show u: "u \<in> T" using ok(3) by (auto simp: T_def work_ok_def gray_def)
  show disj: "T \<inter> ?D = {}" by (auto simp: T_def closed_part_def)
  show grays: "T \<inter> gray work = {}" using ok(3) by (auto simp: T_def work_ok_def gray_def)
  have expl: "{w. adj succ x w} = explored succ ?W x" if "x \<in> T" for x
  proof -
    have "x \<notin> fst ` set work" using that grays by (auto simp: gray_def)
    then have "map_of work x = None" by (simp add: map_of_eq_None_iff)
    then show ?thesis using explored_finished [OF ok(3), of x] by (simp add: explored_def)
  qed
  show edges: "\<forall>x\<in>T. \<forall>w. adj succ x w \<longrightarrow> w \<in> T \<union> ?D"
  proof (intro ballI allI impI)
    fix x w assume x: "x \<in> T" and "adj succ x w"
    then have w: "w \<in> explored succ ?W x" using expl by auto
    then have "w \<in> indexed st" using ok(3) x stk by (auto simp: work_ok_def T_def)
    moreover have "ix st u \<le> ix st w" if "w \<in> set (t_stack st)"
      using ok(5) x w that low top_own [OF ok(3)] by (auto simp: low_ok_def low_at_def gray_def T_def)
    ultimately show "w \<in> T \<union> ?D" by (auto simp: T_def closed_part_def)
  qed
  show "\<forall>x\<in>T. (u, x) \<in> (edges succ)\<^sup>*" using ok(4) by (auto simp: reach_ok_def T_def gray_def)
  have stay: "y \<in> T \<union> ?D" if "(x, y) \<in> (edges succ)\<^sup>*" "x \<in> T \<union> ?D" for x y
    using that ok(6) edges by (induction rule: rtrancl_induct) (auto simp: out_ok_def)
  show "\<forall>x\<in>T. (x, u) \<in> (edges succ)\<^sup>*"
  proof
    fix x assume "x \<in> T"
    then show "(x, u) \<in> (edges succ)\<^sup>*"
    proof (induction "ix st x" arbitrary: x rule: less_induct)
      case less
      show ?case
      proof (cases "x = u")
        case False
        have "x \<in> set (t_stack st) - gray ?W" using less.prems False grays by (auto simp: T_def gray_def)
        then obtain y where y: "y \<in> set (t_stack st)" "ix st y < ix st x" "(x, y) \<in> (edges succ)\<^sup>*"
          using ok(4) unfolding reach_ok_def by blast
        have "y \<in> T" using stay [OF y(3)] less.prems y(1) by (auto simp: closed_part_def)
        from less.hyps [OF y(2) this] y(3) show ?thesis by simp
      qed simp
    qed
  qed
qed

lemma component_cycles:
  assumes u: "u \<in> T" and edges: "\<forall>x\<in>T. \<forall>w. adj succ x w \<longrightarrow> w \<in> T \<union> D" and disj: "T \<inter> D = {}"
    and closed: "\<forall>x\<in>D. \<forall>w. adj succ x w \<longrightarrow> w \<in> D"
    and to: "\<forall>x\<in>T. (u, x) \<in> (edges succ)\<^sup>*" and fro: "\<forall>x\<in>T. (x, u) \<in> (edges succ)\<^sup>*"
  shows "(if T \<noteq> {u} \<or> adj succ u u then T else {}) = {x \<in> T. (x, x) \<in> (edges succ)\<^sup>+}"
proof (cases "T = {u}")
  case True
  have "adj succ u u" if "(u, u) \<in> (edges succ)\<^sup>+"
  proof -
    from that obtain w where w: "adj succ u w" "(w, u) \<in> (edges succ)\<^sup>*" by (auto dest: tranclD)
    have "z \<in> D" if "(w, z) \<in> (edges succ)\<^sup>*" "w \<in> D" for z
      using that closed by (induction rule: rtrancl_induct) auto
    with w(2) u disj have "w \<notin> D" by blast
    with w(1) edges True show ?thesis by auto
  qed
  then show ?thesis using True by auto
next
  case False
  have "(x, x) \<in> (edges succ)\<^sup>+" if x: "x \<in> T" for x
  proof -
    from False u obtain y where y: "y \<in> T" "y \<noteq> x" by blast
    have "(x, y) \<in> (edges succ)\<^sup>*" "(y, x) \<in> (edges succ)\<^sup>*"
      using x y to fro by (meson rtrancl_trans)+
    with y(2) show ?thesis by (metis rtranclD trancl_trans)
  qed
  with False show ?thesis by auto
qed

lemma close_inv:
  assumes inv: "tarjan_inv succ st ((u, cs, length cs) # work)" and low: "low_of st u = ix st u"
    and close: "close_component succ st u = Some st'"
  shows "tarjan_inv succ st' work"
proof -
  let ?W = "(u, cs, length cs) # work" and ?T = "{x \<in> set (t_stack st). ix st u \<le> ix st x}"
  let ?D = "closed_part st"
  have ok: "index_ok succ st" "stack_ok st" "work_ok succ st ?W" "reach_ok succ st ?W" "low_ok succ st ?W" "out_ok succ st"
    using inv by (simp_all add: tarjan_inv_def)
  note T = component_facts [OF inv low]
  have srt: "sorted_wrt (\<lambda>x y. ix st y < ix st x) (t_stack st)" and stk: "set (t_stack st) \<subseteq> indexed st"
    "t_on_stack st = set (t_stack st)" using ok(2) by (simp_all add: stack_ok_def)
  have us: "u \<in> set (t_stack st)" using T(1) by simp
  note sp = sorted_split [OF srt us]
  have dist: "distinct (t_stack st)" using srt by (rule sorted_wrt_distinct)
  let ?comp = "takeWhile (\<lambda>x. x \<noteq> u) (t_stack st) @ [u]" and ?rest = "tl (dropWhile (\<lambda>x. x \<noteq> u) (t_stack st))"
  from close obtain fs where fs: "map_of succ u = Some fs" and st': "st' = st\<lparr>t_stack := ?rest,
      t_on_stack := t_on_stack st - set (takeWhile (\<lambda>x. x \<noteq> u) (t_stack st)) - {u},
      t_out := (if length ?comp > 1 \<or> u \<in> set fs then t_out st @ ?comp else t_out st)\<rparr>"
    by (auto simp: close_component_def pop_component_spec [OF us dist] bind_eq_Some_conv)
  have idx: "indexed st' = indexed st" "ix st' = ix st" "low_of st' = low_of st" "t_low st' = t_low st" "t_index st' = t_index st"
    by (auto simp: st' indexed_def ix_def low_of_def fun_eq_iff)
  have rest: "set (t_stack st') = {x \<in> set (t_stack st). ix st x < ix st u}" using sp(2) by (simp add: st')
  have D': "closed_part st' = ?D \<union> ?T" using stk(1) by (auto simp: closed_part_def idx rest)
  have expl: "explored succ work = explored succ ?W" using explored_finished [OF ok(3)] by (simp add: fun_eq_iff)
  have grays: "gray ?W = insert u (gray work)" by (simp add: gray_def)
  have below: "ix st g < ix st u" if "g \<in> gray work" for g using that ok(3) by (auto simp: work_ok_def gray_def)
  have "stack_ok st'"
  proof -
    have "t_on_stack st' = set (t_stack st) - set ?comp" using stk(2) by (auto simp: st')
    then have "t_on_stack st' = set (t_stack st')" using sp(1) rest by auto
    then show ?thesis using sp(3) rest stk(1) unfolding stack_ok_def idx by (auto simp: st')
  qed
  moreover have "work_ok succ st' work"
    using ok(3) below rest unfolding work_ok_def idx expl by (auto simp: grays)
  moreover have "reach_ok succ st' work"
    unfolding reach_ok_def idx
  proof (intro conjI ballI impI)
    fix g x assume "g \<in> gray work" "x \<in> set (t_stack st')" "ix st g \<le> ix st x"
    then show "(g, x) \<in> (edges succ)\<^sup>*" using ok(4) unfolding reach_ok_def grays rest by blast
  next
    fix x assume "x \<in> set (t_stack st') - gray work"
    then have "x \<in> set (t_stack st) - gray ?W" "ix st x < ix st u" by (auto simp: rest grays)
    then show "\<exists>y\<in>set (t_stack st'). ix st y < ix st x \<and> (x, y) \<in> (edges succ)\<^sup>*"
      using ok(4) unfolding reach_ok_def rest by fastforce
  qed
  moreover have "low_ok succ st' work"
    unfolding low_ok_def
  proof
    fix g assume g: "g \<in> gray work"
    have "low_at succ st ?W g" using ok(5) g grays by (simp add: low_ok_def)
    note lg = low_atD [OF this]
    from lg(2) obtain y where y: "y \<in> set (t_stack st)" "ix st y = low_of st g" "(g, y) \<in> (edges succ)\<^sup>*" by blast
    have "y \<in> set (t_stack st')" using y lg(1) below [OF g] by (simp add: rest)
    moreover have "own st' work g \<subseteq> own st ?W g" by (auto simp: own_def idx rest grays)
    ultimately show "low_at succ st' work g"
      using lg(1,3) y(2,3) rest by (intro low_atI [of _ _ y]) (auto simp: idx expl)
  qed
  moreover have "out_ok succ st'"
  proof -
    have "adj succ u u \<longleftrightarrow> u \<in> set fs" using fs by (simp add: adj_def)
    moreover have "length ?comp > 1 \<longleftrightarrow> ?T \<noteq> {u}"
    proof -
      have "takeWhile (\<lambda>x. x \<noteq> u) (t_stack st) = [] \<longleftrightarrow> set ?comp = {u}"
        using set_takeWhileD [of _ "\<lambda>x. x \<noteq> u" "t_stack st"] by (cases "takeWhile (\<lambda>x. x \<noteq> u) (t_stack st)") fastforce+
      then show ?thesis using sp(1) by auto
    qed
    ultimately have "set (t_out st') = set (t_out st) \<union> (if ?T \<noteq> {u} \<or> adj succ u u then ?T else {})"
      using sp(1) by (auto simp: st')
    moreover have "(if ?T \<noteq> {u} \<or> adj succ u u then ?T else {}) = {x \<in> ?T. (x, x) \<in> (edges succ)\<^sup>+}"
      by (rule component_cycles) (use T ok(6) in \<open>auto simp: out_ok_def\<close>)
    ultimately have "set (t_out st') = {x \<in> closed_part st'. (x, x) \<in> (edges succ)\<^sup>+}"
      using ok(6) unfolding D' out_ok_def by blast
    moreover have "\<forall>x\<in>closed_part st'. \<forall>w. adj succ x w \<longrightarrow> w \<in> closed_part st'"
      using ok(6) T(2) unfolding D' out_ok_def by blast
    ultimately show ?thesis by (simp add: out_ok_def)
  qed
  ultimately show ?thesis using ok(1) by (simp add: tarjan_inv_def index_ok_def idx)
qed

subsection \<open>Every step keeps the invariant\<close>

lemma relow_inv:
  assumes "relow st v (low_of st v) st'" and "tarjan_inv succ st work"
  shows "tarjan_inv succ st' work"
proof -
  have "low_of st' = low_of st" using relow_simps(5) [OF assms(1)] by (simp add: fun_eq_iff)
  then have "low_ok succ st' work = low_ok succ st work"
    by (simp add: low_ok_def low_at_def relow_simps [OF assms(1)])
  with assms show ?thesis by (simp add: tarjan_inv_def relow_simps)
qed

lemma low_lookup:
  assumes "tarjan_inv succ st work" and "v \<in> gray work"
  shows "map_of (t_low st) v = Some (low_of st v)" "map_of (t_index st) v = Some (ix st v)"
proof -
  have "v \<in> indexed st" "indexed st \<subseteq> fst ` set (t_low st)"
    using assms by (auto simp: tarjan_inv_def index_ok_def stack_ok_def work_ok_def)
  then show "map_of (t_low st) v = Some (low_of st v)" "map_of (t_index st) v = Some (ix st v)"
    by (auto simp: low_of_def ix_def indexed_iff mem_keys_iff subset_iff)
qed

lemma visit_inv:
  assumes closed: "adj_closed ks succ" and inv: "tarjan_inv succ st ((u, cs, p) # work)" and p: "p < length cs"
  shows "\<exists>st' work'. visit_child succ st u (cs ! p) ((u, cs, Suc p) # work) = Some (st', work') \<and> tarjan_inv succ st' work'"
proof -
  let ?v = "cs ! p"
  have "set cs = {w. adj succ u w}" using inv by (simp add: tarjan_inv_def work_ok_def)
  with p nth_mem have "adj succ u ?v" by blast
  with adj_closedD(4) [OF closed] adj_closedD(2) [OF closed] have "?v \<in> fst ` set succ" by (metis set_map)
  then obtain fs where fs: "map_of succ ?v = Some fs" by (auto simp: mem_keys_iff)
  have on: "t_on_stack st = set (t_stack st)" using inv by (simp add: tarjan_inv_def stack_ok_def)
  note low = low_lookup(1) [OF inv, of u]
  show ?thesis
  proof (cases "map_of (t_index st) ?v")
    case None
    then have "?v \<notin> indexed st" by (simp add: indexed_iff)
    from discover_inv [OF inv p refl this fs] None fs show ?thesis by (simp add: visit_child_def)
  next
    case (Some i)
    then have v: "?v \<in> indexed st" "ix st ?v = i" by (auto simp: indexed_iff ix_def)
    show ?thesis
    proof (cases "?v \<in> set (t_stack st)")
      case True
      from advance_inv [OF inv p refl v(1) refl] True v(2) relow_update low Some on show ?thesis
        by (simp add: visit_child_def gray_def)
    next
      case False
      from advance_inv [OF inv p refl v(1) refl] False relow_same Some on show ?thesis
        by (simp add: visit_child_def)
    qed
  qed
qed

lemma lower_parent_spec:
  assumes inv: "tarjan_inv succ st ((u, cs, length cs) # work)"
  shows "\<exists>st1. lower_parent st u work = Some st1 \<and>
    (case work of [] \<Rightarrow> st1 = st | (v, _, _) # _ \<Rightarrow> relow st v (min (low_of st v) (low_of st u)) st1)"
proof (cases work)
  case (Cons f rest)
  obtain v ds q where f: "f = (v, ds, q)" by (cases f)
  show ?thesis
    using low_lookup(1) [OF inv, of u] low_lookup(1) [OF inv, of v] Cons f relow_update
    by (simp add: lower_parent_def gray_def)
qed (simp add: lower_parent_def)

lemma finish_inv:
  assumes closed: "adj_closed ks succ" and inv: "tarjan_inv succ st ((u, cs, length cs) # work)"
  shows "\<exists>st'. finish succ st u work = Some st' \<and> tarjan_inv succ st' work"
proof -
  let ?W = "(u, cs, length cs) # work"
  have ok: "stack_ok st" "work_ok succ st ?W" "low_ok succ st ?W" using inv by (simp_all add: tarjan_inv_def)
  from lower_parent_spec [OF inv] obtain st1 where st1: "lower_parent st u work = Some st1"
    "case work of [] \<Rightarrow> st1 = st | (v, _, _) # _ \<Rightarrow> relow st v (min (low_of st v) (low_of st u)) st1" by blast
  have below: "v \<noteq> u \<and> ix st v < ix st u" if "v \<in> gray work" for v using that ok(2) by (auto simp: work_ok_def gray_def)
  have "low_of st1 u = low_of st u \<and> ix st1 = ix st \<and> t_index st1 = t_index st \<and>
      fst ` set (t_low st) \<subseteq> fst ` set (t_low st1)"
  proof (cases work)
    case (Cons f rest)
    obtain v ds q where f: "f = (v, ds, q)" by (cases f)
    have rl: "relow st v (min (low_of st v) (low_of st u)) st1" using st1(2) Cons f by simp
    have "v \<noteq> u" using below [of v] Cons f by (simp add: gray_def)
    then show ?thesis using relow_simps(3,5) [OF rl] rl unfolding relow_def by simp
  qed (use st1(2) in simp)
  then have same: "low_of st1 u = low_of st u" "ix st1 = ix st" "t_index st1 = t_index st"
    "fst ` set (t_low st) \<subseteq> fst ` set (t_low st1)" by blast+
  have look: "map_of (t_low st1) u = Some (low_of st u)" "map_of (t_index st1) u = Some (ix st u)"
  proof -
    have "u \<in> fst ` set (t_low st)" using low_lookup(1) [OF inv, of u] by (auto simp: gray_def mem_keys_iff)
    then have "u \<in> fst ` set (t_low st1)" using same(4) by auto
    then show "map_of (t_low st1) u = Some (low_of st u)" using same(1) by (auto simp: low_of_def mem_keys_iff)
    show "map_of (t_index st1) u = Some (ix st u)" using low_lookup(2) [OF inv, of u] same(3) by (simp add: gray_def)
  qed
  show ?thesis
  proof (cases "low_of st u = ix st u")
    case False
    from finish_open_inv [OF inv False st1(2)] False st1(1) look show ?thesis by (simp add: finish_def)
  next
    case True
    have "low_of st v \<le> low_of st u" if "v \<in> gray work" for v
      using ok(3) below [OF that] that True by (auto simp: low_ok_def low_at_def gray_def)
    then have inv1: "tarjan_inv succ st1 ?W"
      using st1(2) inv by (auto simp: gray_def min_absorb1 intro: relow_inv split: list.splits)
    have "u \<in> set (t_stack st1)" "sorted_wrt (\<lambda>x y. ix st1 y < ix st1 x) (t_stack st1)" "set (t_stack st1) \<subseteq> indexed st1"
        "indexed st1 \<subseteq> fst ` set succ"
      using inv1 by (auto simp: tarjan_inv_def stack_ok_def work_ok_def gray_def index_ok_def)
    moreover from this obtain fs where "map_of succ u = Some fs" by (metis mem_keys_iff subsetD)
    ultimately obtain st' where st': "close_component succ st1 u = Some st'"
      by (simp add: close_component_def pop_component_spec [OF _ sorted_wrt_distinct])
    have "low_of st1 u = ix st1 u" using True same by simp
    from close_inv [OF inv1 this st'] True st1(1) look st' show ?thesis by (simp add: finish_def)
  qed
qed

lemma tarjan_step_inv:
  assumes "adj_closed ks succ" and "tarjan_inv succ st work" and "work \<noteq> []"
  shows "\<exists>st' work'. tarjan_step succ st work = Some (st', work') \<and> tarjan_inv succ st' work'"
proof -
  obtain u cs p rest where w: "work = (u, cs, p) # rest" using assms(3) by (cases work) auto
  show ?thesis
  proof (cases "p < length cs")
    case True
    from visit_inv [OF assms(1) assms(2) [unfolded w] True] True w show ?thesis by simp
  next
    case False
    moreover have "p \<le> length cs" using assms(2) w by (simp add: tarjan_inv_def work_ok_def)
    ultimately have p: "p = length cs" by simp
    from finish_inv [OF assms(1) assms(2) [unfolded w p]] w p show ?thesis by auto
  qed
qed

lemma tarjan_loop_inv:
  assumes "adj_closed ks succ" and "tarjan_inv succ st work"
  shows "\<exists>st'. tarjan_loop succ st work = Some st' \<and> tarjan_inv succ st' []"
  using assms
proof (induction succ st work rule: tarjan_loop.induct)
  case (1 succ st work)
  show ?case
  proof (cases "work = []")
    case True
    then show ?thesis using 1 by (simp add: tarjan_loop.simps [of succ st "[]"])
  next
    case False
    from tarjan_step_inv [OF 1(2,3) False] obtain st' work' where
      "tarjan_step succ st work = Some (st', work')" "tarjan_inv succ st' work'" by blast
    with 1 False show ?thesis by (simp add: tarjan_loop.simps [of succ st work])
  qed
qed

lemma stack_empty: "tarjan_inv succ st [] \<Longrightarrow> t_stack st = []"
proof (rule ccontr)
  assume inv: "tarjan_inv succ st []" and ne: "t_stack st \<noteq> []"
  define x where "x = arg_min_on (ix st) (set (t_stack st))"
  have "x \<in> set (t_stack st)" "\<And>y. y \<in> set (t_stack st) \<Longrightarrow> ix st x \<le> ix st y"
    unfolding x_def using ne arg_min_if_finite [of "set (t_stack st)" "ix st"] by (auto simp: not_less [symmetric])
  then show False using inv by (fastforce simp: tarjan_inv_def reach_ok_def gray_def)
qed

lemma grow: "tarjan_loop succ st work = Some st' \<Longrightarrow> indexed st \<subseteq> indexed st'"
proof (induction succ st work rule: tarjan_loop.induct)
  case (1 succ st work)
  show ?case
  proof (cases "work = []")
    case False
    with 1(2) obtain st1 work1 where s: "tarjan_step succ st work = Some (st1, work1)" "tarjan_loop succ st1 work1 = Some st'"
      by (auto simp: tarjan_loop.simps [of succ st work] split: option.splits)
    have "t_index st1 = t_index st \<or> (\<exists>v. st1 = discover st v)"
      using s(1) by (cases "(succ, st, work)" rule: tarjan_step.cases)
        (auto simp: visit_child_def bind_eq_Some_conv finish_index split: if_splits option.splits)
    then have "indexed st \<subseteq> indexed st1"
      by (elim disjE exE) (simp_all add: indexed_def discover_def Let_def keys_update subset_insertI)
    with 1(1) [OF False s(1) refl s(2)] show ?thesis by blast
  qed (use 1 in \<open>simp add: tarjan_loop.simps\<close>)
qed

lemma start_inv:
  assumes "tarjan_inv succ st []" and "v \<notin> indexed st" and "map_of succ v = Some fs"
  shows "tarjan_inv succ (discover st v) [(v, sort fs, 0)]"
proof -
  note d = discover_simps [OF assms(2)]
  have ok: "index_ok succ st" "stack_ok st" "work_ok succ st []" "out_ok succ st"
    using assms(1) by (simp_all add: tarjan_inv_def)
  have empty: "t_stack st = []" using assms(1) by (rule stack_empty)
  have small: "ix st x < length (t_index st)" if "x \<in> indexed st" for x using that ok(1) by (simp add: index_ok_def)
  have neq: "ix st x \<noteq> length (t_index st)" "length (t_index st) \<noteq> ix st x" if "x \<in> indexed st" for x
    using small [OF that] by simp_all
  have "v \<in> fst ` set succ" using assms(3) by (auto simp: mem_keys_iff)
  then have "index_ok succ (discover st v)"
    using ok(1) neq small unfolding index_ok_def d inj_on_def by (simp add: less_SucI subset_insertI2)
  moreover have "set fs = {w. adj succ v w}" using assms(3) by (auto simp: adj_def)
  then have "work_ok succ (discover st v) [(v, sort fs, 0)]"
    using ok(3) by (auto simp: work_ok_def gray_def explored_def d empty split: if_splits)
  moreover have "low_ok succ (discover st v) [(v, sort fs, 0)]"
    by (simp add: low_ok_def gray_def) (rule low_atI [of _ _ v], auto simp: d own_def explored_def empty)
  moreover have "closed_part (discover st v) = closed_part st" using assms(2) by (auto simp: closed_part_def d empty)
  then have "out_ok succ (discover st v)" using ok(4) by (simp add: out_ok_def d(4))
  ultimately show ?thesis
    using ok(2) by (simp add: tarjan_inv_def stack_ok_def reach_ok_def gray_def d empty)
qed

lemma tarjan_all_inv:
  assumes closed: "adj_closed ks succ" and "tarjan_inv succ st []" and "set starts \<subseteq> fst ` set succ"
  shows "\<exists>st'. tarjan_all succ st starts = Some st' \<and> tarjan_inv succ st' [] \<and> indexed st \<union> set starts \<subseteq> indexed st'"
  using assms(2,3)
proof (induction starts arbitrary: st)
  case (Cons v starts)
  show ?case
  proof (cases "v \<in> fst ` set (t_index st)")
    case True
    then have v: "v \<in> indexed st" by (simp add: indexed_def)
    from Cons.IH [OF Cons.prems(1)] Cons.prems(2) obtain st' where
      "tarjan_all succ st starts = Some st'" "tarjan_inv succ st' []" "indexed st \<union> set starts \<subseteq> indexed st'" by auto
    then show ?thesis using True v by auto
  next
    case False
    then have v: "v \<notin> indexed st" by (simp add: indexed_def)
    from Cons.prems(2) obtain fs where fs: "map_of succ v = Some fs" by (auto simp: mem_keys_iff)
    from tarjan_loop_inv [OF closed start_inv [OF Cons.prems(1) v fs]] obtain st1 where
      st1: "tarjan_loop succ (discover st v) [(v, sort fs, 0)] = Some st1" "tarjan_inv succ st1 []" by blast
    from grow [OF st1(1)] have "insert v (indexed st) \<subseteq> indexed st1" by (simp add: discover_simps [OF v])
    moreover from Cons.IH [OF st1(2)] Cons.prems(2) obtain st' where
      "tarjan_all succ st1 starts = Some st'" "tarjan_inv succ st' []" "indexed st1 \<union> set starts \<subseteq> indexed st'" by auto
    ultimately show ?thesis using False fs st1(1) by auto
  qed
qed auto

lemma on_cycles_spec:
  assumes closed: "adj_closed ks succ"
  shows "\<exists>xs. on_cycles succ = Some xs \<and> sorted xs \<and> set xs = {x. (x, x) \<in> (edges succ)\<^sup>+}"
proof -
  have "tarjan_inv succ tarjan_start []"
    by (auto simp: tarjan_inv_def index_ok_def stack_ok_def work_ok_def reach_ok_def low_ok_def out_ok_def
        closed_part_def gray_def tarjan_start_def indexed_def)
  from tarjan_all_inv [OF closed this, of "sort (map fst succ)"] obtain st where
    st: "tarjan_all succ tarjan_start (sort (map fst succ)) = Some st" "tarjan_inv succ st []" "fst ` set succ \<subseteq> indexed st"
    by auto
  have all: "closed_part st = fst ` set succ"
    using st(2,3) stack_empty [OF st(2)] by (auto simp: closed_part_def tarjan_inv_def index_ok_def)
  have "x \<in> fst ` set succ" if "(x, x) \<in> (edges succ)\<^sup>+" for x
  proof -
    from that obtain w where "adj succ x w" by (auto dest: tranclD)
    then show ?thesis by (auto simp: adj_def mem_keys_iff)
  qed
  then have "set (t_out st) = {x. (x, x) \<in> (edges succ)\<^sup>+}"
    using st(2) all by (auto simp: tarjan_inv_def out_ok_def)
  then show ?thesis using st(1) by (simp add: on_cycles_def)
qed

subsection \<open>Properties\<close>

text \<open>
  C12. The iterative search for strongly connected components terminates, never looks up an unknown segment,
  and returns in sorted order exactly the segments that are their own ancestor.
\<close>

theorem on_cycles_exact:
  assumes "keyed nodes"
  shows "\<exists>xs. on_cycles (successors nodes) = Some xs \<and> sorted xs \<and> set xs = {x. (x, x) \<in> (edges_of nodes)\<^sup>+}"
proof -
  have "adj (successors nodes) u v \<longleftrightarrow> names nodes u v" for u v by (rule adj_successors [OF assms])
  then have "edges (successors nodes) = edges_of nodes" by (simp add: edges_def edges_of_def)
  with on_cycles_spec [OF successors_closed [OF assms]] show ?thesis by simp
qed

theorem on_cycles_exact_witness: "on_cycles (successors sample_nodes) = Some []"
  using on_cycles_exact [OF sample_nodes_keyed] sample_nodes_acyclic by (auto simp: acyclic_def)

end
