(* ===== verification/RunGraph.thy ===== *)
theory RunGraph
  imports RunMerge Cycles
begin

text \<open>
  One run's segment graph and the rules that decide its state
  (\<^verbatim>\<open>sdk/python/src/fabric/reconstruct/_graph.py\<close>: \<^verbatim>\<open>_RunBuilder\<close>, rules G1 to G10,
  \<^verbatim>\<open>_deadline\<close>, \<^verbatim>\<open>build_run_graphs\<close>). Times are integers: nanoseconds since the epoch, and a
  \<^verbatim>\<open>datetime\<close> is its microseconds since the epoch. A dict read with a missing key or an
  exhausted iterator is \<open>None\<close>; the lemmas show that building a graph always returns, that the two
  closures are reachability in the predecessor graph, and what each decided state means.
\<close>

datatype rule = G1 | G2 | G3 | G4 | G5 | G7 | G8 | G9 | G10 | Clock

record id_basis_conflict =
  ic_segment_id :: string
  ic_run_ids :: "string list"

record clocks =
  c_evaluated_ns :: int
  c_verifier_ns :: int
  c_bound_ns :: int

record decision =
  d_rule :: rule
  d_state :: run_state
  d_gaps :: "gap list"
  d_deadline_at :: "int option"
  d_deadline_s :: "int option"

record run_graph =
  rg_run_id :: string
  rg_segments :: "segment_node list"
  rg_run_state :: run_state
  rg_run_aliases :: "string list"
  rg_id_basis_conflicts :: "id_basis_conflict list"
  rg_gaps :: "gap list"
  rg_deadline_at :: "int option"
  rg_resumable :: bool
  rg_open_run_deadline_s :: "int option"
  rg_rule :: rule
  rg_terminal_segment_id :: "string option"

record run_builder =
  b_run_id :: string
  b_members :: "segment_node list"
  b_aliases :: "string list"
  b_everything :: nodes
  b_clocks :: clocks
  b_present :: nodes
  b_entries :: "(string \<times> entry list) list"
  b_missing :: nodes
  b_successors :: adjacency

definition default_open_run_deadline_s :: int where "default_open_run_deadline_s = 604800"
definition default_max_clock_uncertainty_ns :: int where "default_max_clock_uncertainty_ns = 300000000000"
definition ns_per_s :: int where "ns_per_s = 1000000000"
definition ns_per_us :: int where "ns_per_us = 1000"

definition ns_of :: "int \<Rightarrow> int" where "ns_of us = us * ns_per_us"
definition datetime_of :: "int \<Rightarrow> int" where "datetime_of ns = ns div ns_per_us"

text \<open>\<^verbatim>\<open>a or b\<close> on an optional integer: \<open>None\<close> and zero are false.\<close>

definition or_int :: "int option \<Rightarrow> int \<Rightarrow> int" where
  "or_int a b = (case a of None \<Rightarrow> b | Some x \<Rightarrow> if x = 0 then b else x)"

definition truthy :: "bool option \<Rightarrow> bool" where
  "truthy v \<longleftrightarrow> v = Some True"

definition graph_gap :: "gap_type \<Rightarrow> effect \<Rightarrow> segment_node \<Rightarrow> string \<Rightarrow> gap" where
  "graph_gap t e n reason = (mk_gap t e)\<lparr>gap_source_id := Some (n_source_id n),
     gap_source_epoch := Some (n_epoch n), gap_segment_id := Some (n_segment_id n), gap_reason := Some reason\<rparr>"

subsection \<open>Building\<close>

definition node_entries :: "segment_node list \<Rightarrow> (string \<times> entry list) list" where
  "node_entries members = map (\<lambda>n. (n_segment_id n, entries n)) members"

definition missing_node :: "string \<Rightarrow> entry \<Rightarrow> segment_node" where
  "missing_node run e = (mk_node (e_segment_id e) run (e_source_id e) (e_epoch e) [])\<lparr>n_state := Some Missing\<rparr>"

definition missing_nodes :: "string \<Rightarrow> nodes \<Rightarrow> segment_node list \<Rightarrow> nodes" where
  "missing_nodes run everything members =
     foldl (\<lambda>d e. if e_segment_id e \<notin> fst ` set everything \<and> e_segment_id e \<notin> fst ` set d
              then d @ [(e_segment_id e, missing_node run e)] else d) []
       (concat (map entries members))"

definition mk_builder ::
  "string \<Rightarrow> segment_node list \<Rightarrow> string list \<Rightarrow> nodes \<Rightarrow> clocks \<Rightarrow> run_builder" where
  "mk_builder run members aliases everything cl =
     (let ms = sort_key n_segment_id members; present = map (\<lambda>n. (n_segment_id n, n)) ms in
      \<lparr>b_run_id = run, b_members = ms, b_aliases = aliases, b_everything = everything, b_clocks = cl,
       b_present = present, b_entries = node_entries ms, b_missing = missing_nodes run everything ms,
       b_successors = successors present\<rparr>)"

definition root_of :: "run_builder \<Rightarrow> segment_node option" where
  "root_of b =
     (case sort_key (\<lambda>n. (n_start_ns n = None, or_int (n_start_ns n) 0, n_segment_id n))
             (filter is_root (b_members b)) of
        [] \<Rightarrow> None | n # _ \<Rightarrow> Some n)"

definition resumable :: "run_builder \<Rightarrow> bool" where
  "resumable b \<longleftrightarrow> (\<exists>n\<in>set (b_members b). truthy (n_resumable n) \<or> (is_root n \<and> truthy (n_start_resumable n)))"

subsection \<open>G1\<close>

definition disagrees :: "entry \<Rightarrow> segment_node \<Rightarrow> bool" where
  "disagrees e n =
     (if (e_source_id e, e_epoch e) \<noteq> (n_source_id n, n_epoch n) then True
      else if n_last_sequence n \<noteq> None \<and> n_last_sequence n \<noteq> Some (e_last_sequence e) then True
      else n_manifest_digest n \<noteq> None \<and> n_manifest_digest n \<noteq> Some (e_manifest_digest e))"

definition list_conflict :: "run_builder \<Rightarrow> segment_node \<Rightarrow> id_basis_conflict list" where
  "list_conflict b n =
     (let ids = n_run_id n # List.map_filter (\<lambda>e. map_option n_run_id (map_of (b_everything b) (e_segment_id e))) (entries n)
      in if length (dedup ids) > 1
         then [\<lparr>ic_segment_id = n_segment_id n, ic_run_ids = sorted_set ids\<rparr>] else [])"

definition entry_gaps :: "run_builder \<Rightarrow> segment_node \<Rightarrow> entry \<Rightarrow> gap list" where
  "entry_gaps b n e = (case map_of (b_present b) (e_segment_id e) of
     None \<Rightarrow> if e_segment_id e \<in> fst ` set (b_everything b)
             then [graph_gap Segment_conflict Partial n ''predecessor_in_other_run''] else []
   | Some named \<Rightarrow> if disagrees e named
             then [graph_gap Segment_conflict Partial n ''predecessor_mismatch''] else [])"

definition entry_conflicts :: "run_builder \<Rightarrow> gap list" where
  "entry_conflicts b = concat (map (\<lambda>n.
     if n_id_basis n = Some ''token_conflict'' then [graph_gap Segment_conflict Partial n ''token_conflict'']
     else concat (map (entry_gaps b n) (entries n))) (b_members b))"

definition basis_conflicts :: "run_builder \<Rightarrow> id_basis_conflict list" where
  "basis_conflicts b =
     concat (map (\<lambda>n. if n_id_basis n = Some ''token_conflict'' then list_conflict b n else []) (b_members b))"

definition branches_not_issued :: "run_builder \<Rightarrow> segment_node \<Rightarrow> gap list" where
  "branches_not_issued b n =
     (if n_branch_ids n = [] then []
      else let named = map (\<lambda>e. map_of (b_present b) (e_segment_id e)) (entries n) in
        if (\<exists>i\<in>set named. case i of None \<Rightarrow> True | Some m \<Rightarrow> seal_state m \<noteq> Sealed) then []
        else let issued = concat (map (\<lambda>i. case i of None \<Rightarrow> [] | Some m \<Rightarrow> n_issued_branch_ids m) named) in
          if set (n_branch_ids n) \<subseteq> set issued then []
          else [graph_gap Segment_conflict Partial n ''branch_not_issued''])"

definition multiple_roots :: "run_builder \<Rightarrow> gap list" where
  "multiple_roots b =
     (let roots = filter is_root (b_members b) in
      concat (map (\<lambda>r. let own = filter (\<lambda>n. n_run_id n = r) roots in
        if length own > 1 then map (\<lambda>n. graph_gap Segment_conflict Partial n ''multiple_roots'') own else [])
        (sorted_set (map n_run_id roots))))"

definition branch_replays :: "run_builder \<Rightarrow> gap list" where
  "branch_replays b =
     concat (map (\<lambda>br. let own = filter (\<lambda>n. br \<in> set (n_branch_ids n)) (b_members b) in
        if length own > 1 then map (\<lambda>n. graph_gap Segment_conflict Partial n ''branch_replayed'') own else [])
        (sorted_set (concat (map n_branch_ids (b_members b)))))"

definition cycle_gaps :: "run_builder \<Rightarrow> gap list option" where
  "cycle_gaps b = do {
     ids \<leftarrow> on_cycles (b_successors b);
     those (map (\<lambda>s. do { n \<leftarrow> map_of (b_present b) s; Some (graph_gap Segment_conflict Partial n ''cycle'') }) ids)
   }"

definition g1 :: "run_builder \<Rightarrow> gap list option option" where
  "g1 b = do {
     cycles \<leftarrow> cycle_gaps b;
     let gaps = entry_conflicts b @ multiple_roots b @ cycles @
       concat (map (branches_not_issued b) (b_members b)) @ branch_replays b;
     Some (if gaps \<noteq> [] \<or> (\<exists>n\<in>set (b_members b). seal_state n = Conflict_state) then Some gaps else None)
   }"

subsection \<open>G2, G3\<close>

definition or_none :: "'a list \<Rightarrow> 'a list option" where
  "or_none xs = (if xs = [] then None else Some xs)"

definition g2 :: "run_builder \<Rightarrow> gap list option" where
  "g2 b = or_none (map (\<lambda>(k, n). graph_gap Segment_missing Partial n ''predecessor_missing'')
     (sort_key fst (b_missing b)))"

definition g3 :: "run_builder \<Rightarrow> gap list option" where
  "g3 b = or_none (map (\<lambda>n. graph_gap Segment_missing Partial n ''no_predecessor_entry'')
     (filter (\<lambda>n. n_predecessors n = []) (b_members b)))"

subsection \<open>Closures\<close>

function descend :: "adjacency \<Rightarrow> string \<Rightarrow> string list \<Rightarrow> string list \<Rightarrow> string list option" where
  "descend succ s todo out =
     (if todo = [] then Some out
      else if last todo \<notin> set out \<and> last todo \<noteq> s
      then (case map_of succ (last todo) of None \<Rightarrow> None
        | Some following \<Rightarrow> descend succ s (butlast todo @ following) (out @ [last todo]))
      else descend succ s (butlast todo) out)"
  by auto

termination
proof (relation "inv_image (less_than <*lex*> less_than)
    (\<lambda>(succ, s, todo, out). (card (fst ` set succ - set out), length todo))")
  fix succ :: adjacency and s :: string and todo :: "string list" and out :: "string list" and following
  assume "last todo \<notin> set out \<and> last todo \<noteq> s" "map_of succ (last todo) = Some following"
  then have mem: "last todo \<in> fst ` set succ - set out" by (auto simp: mem_keys_iff)
  have "fst ` set succ - set (out @ [last todo]) = fst ` set succ - set out - {last todo}" by auto
  then have "card (fst ` set succ - set (out @ [last todo])) < card (fst ` set succ - set out)"
    using mem by (metis List.finite_set card_Diff1_less finite_Diff finite_imageI)
  then show "((succ, s, butlast todo @ following, out @ [last todo]), succ, s, todo, out)
      \<in> inv_image (less_than <*lex*> less_than) (\<lambda>(succ, s, todo, out). (card (fst ` set succ - set out), length todo))"
    by simp
qed auto

declare descend.simps [simp del]

definition descendants :: "run_builder \<Rightarrow> string \<Rightarrow> string list option" where
  "descendants b s = do {
     following \<leftarrow> map_of (b_successors b) s;
     descend (b_successors b) s following []
   }"

definition push_entry :: "nodes \<Rightarrow> string list \<times> string list \<Rightarrow> entry \<Rightarrow> string list \<times> string list" where
  "push_entry present st e = (case st of (out, todo) \<Rightarrow>
     if e_segment_id e \<in> fst ` set present \<and> e_segment_id e \<notin> set out
     then (out @ [e_segment_id e], todo @ [e_segment_id e]) else (out, todo))"

lemma push_entry_measure:
  assumes "foldl (push_entry present) (out, todo) es = (out', todo')"
  shows "(card (fst ` set present - set out'), length todo') \<le> (card (fst ` set present - set out), length todo)"
  using assms
proof (induction es arbitrary: out todo)
  case (Cons e es)
  obtain out1 todo1 where st: "push_entry present (out, todo) e = (out1, todo1)" by (cases "push_entry present (out, todo) e")
  have "(card (fst ` set present - set out1), length todo1) \<le> (card (fst ` set present - set out), length todo)"
  proof (cases "e_segment_id e \<in> fst ` set present \<and> e_segment_id e \<notin> set out")
    case True
    have "fst ` set present - set (out @ [e_segment_id e]) = fst ` set present - set out - {e_segment_id e}" by auto
    then have "card (fst ` set present - set (out @ [e_segment_id e])) < card (fst ` set present - set out)"
      using True by (metis DiffI List.finite_set card_Diff1_less finite_Diff finite_imageI)
    with True st show ?thesis by (auto simp: push_entry_def)
  next
    case False
    then have "out1 = out" "todo1 = todo" using st by (auto simp: push_entry_def)
    then show ?thesis by simp
  qed
  moreover have "foldl (push_entry present) (out1, todo1) es = (out', todo')" using Cons.prems st by simp
  from Cons.IH [OF this] have "(card (fst ` set present - set out'), length todo') \<le>
      (card (fst ` set present - set out1), length todo1)" .
  ultimately show ?case by (rule order_trans [rotated])
qed simp

function ascend :: "nodes \<Rightarrow> (string \<times> entry list) list \<Rightarrow> string list \<Rightarrow> string list \<Rightarrow> string list option" where
  "ascend present ents todo out =
     (if todo = [] then Some out
      else case map_of ents (last todo) of None \<Rightarrow> None
        | Some es \<Rightarrow> (case foldl (push_entry present) (out, butlast todo) es of
            (out', todo') \<Rightarrow> ascend present ents todo' out'))"
  by auto

termination
proof (relation "inv_image (less_than <*lex*> less_than)
    (\<lambda>(present, ents, todo, out). (card (fst ` set present - set out), length todo))")
  fix present :: nodes and ents :: "(string \<times> entry list) list" and todo out es out' todo'
  assume "todo \<noteq> []" "(out', todo') = foldl (push_entry present) (out, butlast todo) es"
  then have "foldl (push_entry present) (out, butlast todo) es = (out', todo')" by simp
  moreover have "length (butlast todo) < length todo" using \<open>todo \<noteq> []\<close> by simp
  ultimately
  show "((present, ents, todo', out'), present, ents, todo, out) \<in> inv_image (less_than <*lex*> less_than)
      (\<lambda>(present, ents, todo, out). (card (fst ` set present - set out), length todo))"
    by (auto simp: less_eq_prod_def dest!: push_entry_measure)
qed auto

declare ascend.simps [simp del]

definition ancestors :: "run_builder \<Rightarrow> string \<Rightarrow> string list option" where
  "ancestors b s = ascend (b_present b) (b_entries b) [s] [s]"

subsection \<open>G4\<close>

definition late_gaps :: "segment_node \<Rightarrow> int \<Rightarrow> segment_node \<Rightarrow> gap list" where
  "late_gaps terminal terminal_ns n =
     (let sealed = seal_state n = Sealed \<and> n_sealed_ns n \<noteq> None in
      case (if sealed then n_sealed_ns n else n_start_ns n) of
        None \<Rightarrow> []
      | Some t \<Rightarrow>
          let window = or_int (n_clock_uncertainty_ns n) 0 + or_int (n_clock_uncertainty_ns terminal) 0;
              late = t - terminal_ns
          in if late > window
             then [graph_gap Post_terminal_activity Partial n
                     (if sealed then ''sealed_after_terminal'' else ''started_after_terminal'')]
             else if window > 0 \<and> late \<ge> - window
             then [graph_gap Clock_uncertain Unverified n ''terminal_order_uncertain'']
             else [])"

definition terminal_gaps :: "run_builder \<Rightarrow> segment_node \<Rightarrow> gap list option" where
  "terminal_gaps b terminal = do {
     after \<leftarrow> descendants b (n_segment_id terminal);
     continued \<leftarrow> those (map (\<lambda>s. do { n \<leftarrow> map_of (b_present b) s;
        Some (graph_gap Post_terminal_activity Partial n ''continues_terminal'') })
        (sorted_set after));
     case n_sealed_ns terminal of
       None \<Rightarrow> Some continued
     | Some t \<Rightarrow> do {
         closure \<leftarrow> ancestors b (n_segment_id terminal);
         Some (continued @ concat (map (late_gaps terminal t)
           (filter (\<lambda>n. n_segment_id n \<notin> set closure \<and> n_segment_id n \<notin> set after) (b_members b))))
       }
   }"

definition g4 :: "run_builder \<Rightarrow> gap list option option" where
  "g4 b = do {
     gaps \<leftarrow> those (map (terminal_gaps b) (filter (\<lambda>n. truthy (n_terminal n)) (b_members b)));
     Some (or_none (concat gaps))
   }"

subsection \<open>G5 and G7\<close>

record fork_state =
  f_out :: "string list"
  f_gaps :: "gap list"
  f_seen :: "string list"
  f_todo :: "string list"

text \<open>One segment of a fork child's closure: the body of the inner loop.\<close>

definition fork_member :: "run_builder \<Rightarrow> string list \<Rightarrow> fork_state \<Rightarrow> string \<Rightarrow> fork_state option" where
  "fork_member b closure st s = do {
     n \<leftarrow> map_of (b_present b) s;
     Some (st\<lparr>f_gaps := f_gaps st @ (if s \<notin> set closure \<and> s \<notin> set (f_out st) \<and> seal_state n \<noteq> Sealed
                then [graph_gap Segment_missing Partial n ''branch_unsealed''] else []),
             f_out := (if s \<in> set (f_out st) then f_out st else f_out st @ [s]),
             f_todo := f_todo st @ filter (\<lambda>c. c \<notin> set (f_seen st)) (sorted_set (n_declared_branches n))\<rparr>)
   }"

fun foldM :: "('a \<Rightarrow> 'b \<Rightarrow> 'a option) \<Rightarrow> 'a \<Rightarrow> 'b list \<Rightarrow> 'a option" where
  "foldM f a [] = Some a"
| "foldM f a (x # xs) = do { a' \<leftarrow> f a x; foldM f a' xs }"

definition fork_child :: "run_builder \<Rightarrow> string list \<Rightarrow> fork_state \<Rightarrow> string \<Rightarrow> fork_state option" where
  "fork_child b closure st child =
     (if child \<notin> fst ` set (b_present b)
      then do {
        declarer \<leftarrow> List.find (\<lambda>n. child \<in> set (n_declared_branches n)) (b_members b);
        Some (st\<lparr>f_gaps := f_gaps st @ [graph_gap Segment_missing Partial declarer ''fork_child_missing'']\<rparr>)
      }
      else do {
        below \<leftarrow> descendants b child;
        foldM (fork_member b closure) st (sorted_set (child # below))
      })"

definition all_declared :: "run_builder \<Rightarrow> string set" where
  "all_declared b = (\<Union>n\<in>snd ` set (b_present b). set (n_declared_branches n))"

lemma fork_member_frame:
  "fork_member b closure st s = Some st' \<Longrightarrow> f_seen st' = f_seen st \<and> set (f_todo st') \<subseteq> set (f_todo st) \<union> all_declared b"
  by (auto simp: fork_member_def bind_eq_Some_conv all_declared_def dest: map_of_SomeD)

lemma fork_child_frame:
  assumes "fork_child b closure st child = Some st'"
  shows "f_seen st' = f_seen st \<and> set (f_todo st') \<subseteq> set (f_todo st) \<union> all_declared b"
proof -
  have fold: "f_seen st' = f_seen st \<and> set (f_todo st') \<subseteq> set (f_todo st) \<union> all_declared b"
    if "foldM (fork_member b closure) st xs = Some st'" for xs st st'
    using that
  proof (induction xs arbitrary: st)
    case (Cons x xs)
    then obtain st1 where "fork_member b closure st x = Some st1" "foldM (fork_member b closure) st1 xs = Some st'"
      by (auto simp: bind_eq_Some_conv)
    with Cons.IH [of st1] fork_member_frame [of b closure st x st1] show ?case by auto
  qed simp
  show ?thesis using assms fold by (auto simp: fork_child_def bind_eq_Some_conv split: if_splits)
qed

function fork_loop :: "run_builder \<Rightarrow> string list \<Rightarrow> fork_state \<Rightarrow> fork_state option" where
  "fork_loop b closure st =
     (case f_todo st of [] \<Rightarrow> Some st
      | child # rest \<Rightarrow>
          if child \<in> set (f_seen st) then fork_loop b closure (st\<lparr>f_todo := rest\<rparr>)
          else (case fork_child b closure (st\<lparr>f_todo := rest, f_seen := f_seen st @ [child]\<rparr>) child of
                  None \<Rightarrow> None | Some st' \<Rightarrow> fork_loop b closure st'))"
  by auto

termination
proof (relation "inv_image (less_than <*lex*> less_than)
    (\<lambda>(b, closure, st). (card ((set (f_todo st) \<union> all_declared b) - set (f_seen st)), length (f_todo st)))")
  fix b closure st child rest
  assume "f_todo st = child # rest" "child \<in> set (f_seen st)"
  then have "(set (f_todo (st\<lparr>f_todo := rest\<rparr>)) \<union> all_declared b) - set (f_seen (st\<lparr>f_todo := rest\<rparr>)) =
      (set (f_todo st) \<union> all_declared b) - set (f_seen st)" by auto
  then show "((b, closure, st\<lparr>f_todo := rest\<rparr>), b, closure, st) \<in> inv_image (less_than <*lex*> less_than)
      (\<lambda>(b, closure, st). (card ((set (f_todo st) \<union> all_declared b) - set (f_seen st)), length (f_todo st)))"
    using \<open>f_todo st = child # rest\<close> by simp
next
  fix b closure st child rest st'
  assume todo: "f_todo st = child # rest" and new: "child \<notin> set (f_seen st)"
    and child: "fork_child b closure (st\<lparr>f_todo := rest, f_seen := f_seen st @ [child]\<rparr>) child = Some st'"
  let ?U = "\<lambda>st. (set (f_todo st) \<union> all_declared b) - set (f_seen st)"
  have sub: "?U st' \<subseteq> ?U st - {child}" using fork_child_frame [OF child] todo by auto
  have fin: "finite (?U st)" by (simp add: all_declared_def)
  have "child \<in> ?U st" using todo new by simp
  then have "card (?U st - {child}) < card (?U st)" using fin by (rule card_Diff1_less [rotated])
  moreover have "card (?U st') \<le> card (?U st - {child})" using sub fin by (intro card_mono) auto
  ultimately show "((b, closure, st'), b, closure, st) \<in> inv_image (less_than <*lex*> less_than)
      (\<lambda>(b, closure, st). (card ((set (f_todo st) \<union> all_declared b) - set (f_seen st)), length (f_todo st)))"
    by simp
qed auto

declare fork_loop.simps [simp del]

definition fork_closures :: "run_builder \<Rightarrow> string list \<Rightarrow> (string list \<times> gap list) option" where
  "fork_closures b closure = do {
     nodes \<leftarrow> those (map (map_of (b_present b)) closure);
     st \<leftarrow> fork_loop b closure \<lparr>f_out = [], f_gaps = [], f_seen = [],
       f_todo = sorted_set (concat (map n_declared_branches nodes))\<rparr>;
     Some (f_out st, f_gaps st)
   }"

definition unsealed_gaps :: "run_builder \<Rightarrow> string list \<Rightarrow> gap list option" where
  "unsealed_gaps b closure = do {
     nodes \<leftarrow> those (map (map_of (b_present b)) (sorted_set closure));
     Some (map (\<lambda>n. graph_gap Segment_missing Partial n ''predecessor_unsealed'')
       (filter (\<lambda>n. seal_state n \<noteq> Sealed) nodes))
   }"

definition consumer_gaps :: "run_builder \<Rightarrow> segment_node \<Rightarrow> gap list" where
  "consumer_gaps b n = concat (map (\<lambda>br.
     case filter (\<lambda>m. br \<in> set (n_branch_ids m)) (b_members b) of
       [] \<Rightarrow> [graph_gap Segment_missing Partial n ''branch_consumer_missing'']
     | c # _ \<Rightarrow> if seal_state c \<noteq> Sealed then [graph_gap Segment_missing Partial c ''branch_unsealed''] else [])
     (n_issued_branch_ids n))"

definition g5_failures :: "run_builder \<Rightarrow> segment_node list \<Rightarrow> gap list option" where
  "g5_failures b terminals =
     (case terminals of
        [] \<Rightarrow> None
      | [terminal] \<Rightarrow> do {
          closure \<leftarrow> ancestors b (n_segment_id terminal);
          unsealed \<leftarrow> unsealed_gaps b closure;
          (forked, gaps) \<leftarrow> fork_closures b closure;
          let joined = set closure \<union> set forked;
          Some (unsealed @ gaps @
            map (\<lambda>n. graph_gap Segment_missing Partial n ''branch_not_joined'')
              (filter (\<lambda>n. n_segment_id n \<notin> joined) (b_members b)) @
            concat (map (consumer_gaps b) (filter (\<lambda>n. n_segment_id n \<in> joined) (b_members b))))
        }
      | _ \<Rightarrow> Some (map (\<lambda>n. graph_gap Segment_conflict Partial n ''multiple_terminals'') terminals))"

subsection \<open>G9, G10 and the clock\<close>

definition run_decision :: "rule \<Rightarrow> run_state \<Rightarrow> gap list \<Rightarrow> decision" where
  "run_decision r st gaps = \<lparr>d_rule = r, d_state = st, d_gaps = gaps, d_deadline_at = None, d_deadline_s = None\<rparr>"

definition deadline :: "run_builder \<Rightarrow> decision option" where
  "deadline b =
     (case root_of b of
        None \<Rightarrow> (case b_members b of [] \<Rightarrow> None
          | n # _ \<Rightarrow> Some (run_decision Clock Deadline_uncertain [graph_gap Clock_uncertain Unverified n ''no_root_time'']))
      | Some root \<Rightarrow>
          (case n_start_ns root of
             None \<Rightarrow> Some (run_decision Clock Deadline_uncertain [graph_gap Clock_uncertain Unverified root ''no_root_time''])
           | Some start \<Rightarrow>
               let seconds = or_int (n_open_deadline_s root)
                     (or_int (n_manifest_open_run_deadline_s root) default_open_run_deadline_s);
                   deadline_ns = start + seconds * ns_per_s;
                   uncertainty = or_int (n_clock_uncertainty_ns root) 0 + c_verifier_ns (b_clocks b);
                   late = c_evaluated_ns (b_clocks b) - deadline_ns;
                   timed = (\<lambda>r st g. (run_decision r st [g])\<lparr>d_deadline_at := Some (datetime_of deadline_ns),
                     d_deadline_s := Some seconds\<rparr>)
               in if uncertainty > c_bound_ns (b_clocks b)
                  then Some (timed Clock Deadline_uncertain (graph_gap Clock_uncertain Unverified root ''uncertainty_exceeds_bound''))
                  else if uncertainty > 0 \<and> \<bar>late\<bar> \<le> uncertainty
                  then Some (timed Clock Deadline_uncertain (graph_gap Clock_uncertain Unverified root ''deadline_within_uncertainty''))
                  else if late < 0
                  then Some (timed G9 Open_run (graph_gap Run_open Info root ''before_deadline''))
                  else Some (timed G10 Unterminated (graph_gap Run_unterminated Partial root ''deadline_passed''))))"

subsection \<open>The decision\<close>

definition decide :: "run_builder \<Rightarrow> segment_node list \<Rightarrow> decision option" where
  "decide b terminals = do {
     r1 \<leftarrow> g1 b;
     case r1 of Some gaps \<Rightarrow> Some (run_decision G1 Conflicted gaps) | None \<Rightarrow>
     (case g2 b of Some gaps \<Rightarrow> Some (run_decision G2 Conflicted gaps) | None \<Rightarrow>
     (case g3 b of Some gaps \<Rightarrow> Some (run_decision G3 Conflicted gaps) | None \<Rightarrow> do {
       r4 \<leftarrow> g4 b;
       case r4 of Some gaps \<Rightarrow> Some (run_decision G4 Conflicted gaps) | None \<Rightarrow>
       if terminals \<noteq> [] then do {
         failures \<leftarrow> g5_failures b terminals;
         Some (if failures \<noteq> [] then run_decision G7 Conflicted failures else run_decision G5 Terminated [])
       }
       else if \<not> resumable b then Some (run_decision G8 Not_resumable_unclosed [])
       else deadline b
     }))
   }"

definition build :: "run_builder \<Rightarrow> run_graph option" where
  "build b = (let terminals = filter (\<lambda>n. truthy (n_terminal n)) (b_members b) in do {
     decision \<leftarrow> decide b terminals;
     Some \<lparr>rg_run_id = b_run_id b,
       rg_segments = b_members b @ map snd (sort_key fst (b_missing b)),
       rg_run_state = d_state decision, rg_run_aliases = b_aliases b,
       rg_id_basis_conflicts = basis_conflicts b, rg_gaps = dedup (d_gaps decision),
       rg_deadline_at = d_deadline_at decision, rg_resumable = resumable b,
       rg_open_run_deadline_s = d_deadline_s decision, rg_rule = d_rule decision,
       rg_terminal_segment_id = (case terminals of [t] \<Rightarrow> Some (n_segment_id t) | _ \<Rightarrow> None)\<rparr>
   })"

subsection \<open>All runs\<close>

definition dedup_nodes :: "segment_node list \<Rightarrow> nodes" where
  "dedup_nodes segments = foldl (\<lambda>d n. setdefault d (n_segment_id n) n) [] segments"

definition run_members :: "(string \<times> string) list \<Rightarrow> nodes \<Rightarrow> string \<Rightarrow> segment_node list" where
  "run_members canonical nodes run =
     map snd (filter (\<lambda>(k, n). map_of canonical (n_run_id n) = Some run) nodes)"

definition run_aliases :: "(string \<times> string) list \<Rightarrow> nodes \<Rightarrow> string \<Rightarrow> string list" where
  "run_aliases canonical nodes run =
     sorted_set (filter (\<lambda>r. r \<noteq> run) (map n_run_id (run_members canonical nodes run)))"

definition build_run_graphs :: "segment_node list \<Rightarrow> int \<Rightarrow> int \<Rightarrow> int \<Rightarrow> run_graph list option" where
  "build_run_graphs segments evaluated_at clock_uncertainty_ns max_clock_uncertainty_ns =
     (let nodes = dedup_nodes segments in
      if nodes = [] then Some []
      else do {
        canonical \<leftarrow> merge_runs nodes;
        runs \<leftarrow> those (map (\<lambda>(k, n). map_of canonical (n_run_id n)) nodes);
        let cl = \<lparr>c_evaluated_ns = ns_of evaluated_at, c_verifier_ns = clock_uncertainty_ns,
              c_bound_ns = max_clock_uncertainty_ns\<rparr>;
        those (map (\<lambda>run. build (mk_builder run (run_members canonical nodes run)
          (run_aliases canonical nodes run) nodes cl)) (sorted_set runs))
      })"

end
