(* ===== verification/RunRules.thy ===== *)
theory RunRules
  imports RunGraph
begin

text \<open>
  What the decided states of a run mean (\<^verbatim>\<open>_RunBuilder\<close> and \<^verbatim>\<open>build_run_graphs\<close> of
  \<^verbatim>\<open>sdk/python/src/fabric/reconstruct/_graph.py\<close>). The closures are reachability, building always
  returns, a terminated run is acyclic with one terminal and every segment sealed, and a deadline
  decision holds under every clock error within the declared uncertainty.
\<close>

subsection \<open>A builder as \<open>build_run_graphs\<close> makes it\<close>

definition builder_ok :: "run_builder \<Rightarrow> bool" where
  "builder_ok b \<longleftrightarrow> b_present b = map (\<lambda>n. (n_segment_id n, n)) (b_members b) \<and>
     distinct (map n_segment_id (b_members b)) \<and> sorted (map n_segment_id (b_members b)) \<and>
     b_entries b = node_entries (b_members b) \<and>
     b_successors b = successors (b_present b) \<and>
     b_missing b = missing_nodes (b_run_id b) (b_everything b) (b_members b)"

lemma builder_ok_mk: "distinct (map n_segment_id members) \<Longrightarrow> builder_ok (mk_builder run members aliases everything cl)"
proof -
  assume d: "distinct (map n_segment_id members)"
  have "mset (map n_segment_id (sort_key n_segment_id members)) = mset (map n_segment_id members)" by simp
  with d have "distinct (map n_segment_id (sort_key n_segment_id members))"
    by (metis mset_eq_imp_distinct_iff)
  then show ?thesis by (simp add: builder_ok_def mk_builder_def Let_def)
qed

lemma builder_keyed:
  assumes "builder_ok b"
  shows "keyed (b_present b)" "fst ` set (b_present b) = n_segment_id ` set (b_members b)"
    "snd ` set (b_present b) = set (b_members b)"
    "map_of (b_present b) s = Some n \<longleftrightarrow> n \<in> set (b_members b) \<and> n_segment_id n = s"
proof -
  have p: "b_present b = map (\<lambda>n. (n_segment_id n, n)) (b_members b)" and d: "distinct (map n_segment_id (b_members b))"
    using assms by (simp_all add: builder_ok_def)
  have m: "map fst (b_present b) = map n_segment_id (b_members b)" by (simp add: p o_def)
  show k: "keyed (b_present b)" unfolding keyed_def m using d by (auto simp: p)
  show "fst ` set (b_present b) = n_segment_id ` set (b_members b)" "snd ` set (b_present b) = set (b_members b)"
    by (auto simp: p image_image)
  have "distinct (map fst (b_present b))" using d m by simp
  then have "map_of (b_present b) s = Some n \<longleftrightarrow> (s, n) \<in> set (b_present b)" by (rule map_of_eq_Some_iff)
  then show "map_of (b_present b) s = Some n \<longleftrightarrow> n \<in> set (b_members b) \<and> n_segment_id n = s" by (auto simp: p)
qed

lemma builder_closed: "builder_ok b \<Longrightarrow> adj_closed (map fst (b_present b)) (b_successors b)"
  using builder_keyed(1) [of b] successors_closed [of "b_present b"] unfolding builder_ok_def by metis

lemma builder_adj: "builder_ok b \<Longrightarrow> adj (b_successors b) u v \<longleftrightarrow> names (b_present b) u v"
  using builder_keyed(1) [of b] by (simp add: builder_ok_def adj_successors)

lemma builder_edges: "builder_ok b \<Longrightarrow> edges (b_successors b) = edges_of (b_present b)"
  by (auto simp: edges_def edges_of_def builder_adj)

lemma those_Some_iff: "(\<exists>ys. those xs = Some ys) \<longleftrightarrow> None \<notin> set xs"
  by (induction xs) (auto split: option.splits)

lemma those_map_SomeI: "(\<And>x. x \<in> set xs \<Longrightarrow> f x = Some (g x)) \<Longrightarrow> those (map f xs) = Some (map g xs)"
  by (induction xs) auto

lemma those_lookup:
  "set ks \<subseteq> fst ` set d \<Longrightarrow> those (map (map_of d) ks) = Some (map (\<lambda>k. the (map_of d k)) ks)"
  by (rule those_map_SomeI) (metis mem_keys_iff option.sel subsetD)

lemma those_bind_lookup:
  assumes "set ks \<subseteq> fst ` set d"
  shows "those (map (\<lambda>s. do { n \<leftarrow> map_of d s; Some (f n) }) ks) = Some (map (\<lambda>s. f (the (map_of d s))) ks)"
proof (rule those_map_SomeI)
  fix k assume "k \<in> set ks"
  with assms obtain n where "map_of d k = Some n" by (metis mem_keys_iff subsetD)
  then show "do { n \<leftarrow> map_of d k; Some (f n) } = Some (f (the (map_of d k)))" by simp
qed

subsection \<open>The closures are reachability\<close>

lemma set_butlast_last: "xs \<noteq> [] \<Longrightarrow> set xs = insert (last xs) (set (butlast xs))"
  by (induction xs) auto

lemma descend_spec:
  assumes closed: "adj_closed ks succ" and "set todo \<union> set out \<subseteq> (edges succ)\<^sup>+ `` {s}" and "s \<notin> set out"
    and "\<forall>x\<in>insert s (set out). \<forall>w. adj succ x w \<longrightarrow> w \<in> set out \<union> set todo \<union> {s}"
  shows "\<exists>d. descend succ s todo out = Some d \<and> set d = (edges succ)\<^sup>+ `` {s} - {s}"
  using assms
proof (induction succ s todo out rule: descend.induct)
  case (1 succ s todo out)
  show ?case
  proof (cases "todo = []")
    case True
    have closed_out: "y \<in> insert s (set out)" if "(s, y) \<in> (edges succ)\<^sup>*" for y
      using that 1(6) True by (induction rule: rtrancl_induct) auto
    then have "(edges succ)\<^sup>+ `` {s} - {s} \<subseteq> set out" by (auto dest: trancl_into_rtrancl)
    moreover have "set out \<subseteq> (edges succ)\<^sup>+ `` {s} - {s}" using 1(4,5) by auto
    ultimately have "set out = (edges succ)\<^sup>+ `` {s} - {s}" by (rule equalityI [rotated])
    then show ?thesis using True by (simp add: descend.simps [of succ s "[]"])
  next
    case False
    let ?c = "last todo"
    have todo: "set todo = insert ?c (set (butlast todo))" using False by (rule set_butlast_last)
    show ?thesis
    proof (cases "?c \<notin> set out \<and> ?c \<noteq> s")
      case True
      have sc: "(s, ?c) \<in> (edges succ)\<^sup>+" using 1(4) todo by auto
      then have "?c \<in> set ks" using adj_closedD(4) [OF 1(3)] by (metis in_edges tranclD2)
      then have "?c \<in> fst ` set succ" using adj_closedD(2) [OF 1(3)] by (metis set_map)
      then obtain fs where fs: "map_of succ ?c = Some fs" by (auto simp: mem_keys_iff)
      have f: "w \<in> set fs \<longleftrightarrow> adj succ ?c w" for w using fs by (auto simp: adj_def)
      have "set (butlast todo @ fs) \<union> set (out @ [?c]) \<subseteq> (edges succ)\<^sup>+ `` {s}"
        using 1(4) sc f todo by (auto intro: trancl_into_trancl)
      moreover have "s \<notin> set (out @ [?c])" using 1(5) True by auto
      moreover have "\<forall>x\<in>insert s (set (out @ [?c])). \<forall>w. adj succ x w \<longrightarrow>
          w \<in> set (out @ [?c]) \<union> set (butlast todo @ fs) \<union> {s}"
        using 1(6) f todo by auto
      ultimately show ?thesis using 1(1) [OF False True fs 1(3)] False True fs
        by (simp add: descend.simps [of succ s todo out])
    next
      case no: False
      have "\<forall>x\<in>insert s (set out). \<forall>w. adj succ x w \<longrightarrow> w \<in> set out \<union> set (butlast todo) \<union> {s}"
        using 1(6) no todo by auto
      then show ?thesis using 1(2) [OF False no 1(3) _ 1(5)] 1(4) todo False no
        by (auto simp: descend.simps [of succ s todo out])
    qed
  qed
qed

lemma descendants_spec:
  assumes b: "builder_ok b" and s: "s \<in> n_segment_id ` set (b_members b)"
  shows "\<exists>d. descendants b s = Some d \<and> set d = (edges_of (b_present b))\<^sup>+ `` {s} - {s}"
proof -
  let ?succ = "b_successors b"
  have "s \<in> fst ` set ?succ"
    using s builder_keyed(2) [OF b] adj_closedD(2) [OF builder_closed [OF b]] by (metis set_map)
  then obtain fs where fs: "map_of ?succ s = Some fs" by (auto simp: mem_keys_iff)
  have f: "w \<in> set fs \<longleftrightarrow> adj ?succ s w" for w using fs by (auto simp: adj_def)
  have "\<exists>d. descend ?succ s fs [] = Some d \<and> set d = (edges ?succ)\<^sup>+ `` {s} - {s}"
    by (rule descend_spec [OF builder_closed [OF b]]) (auto simp: f)
  then show ?thesis using fs by (simp add: descendants_def builder_edges [OF b])
qed

lemma push_fold:
  "foldl (push_entry present) (out, todo) es = (out', todo') \<Longrightarrow>
     set out' = set out \<union> (e_segment_id ` set es \<inter> fst ` set present) \<and>
     set todo' = set todo \<union> (set out' - set out)"
proof (induction es arbitrary: out todo)
  case (Cons e es)
  obtain out1 todo1 where st: "push_entry present (out, todo) e = (out1, todo1)" by (cases "push_entry present (out, todo) e")
  have one: "set out1 = set out \<union> ({e_segment_id e} \<inter> fst ` set present)" "set todo1 = set todo \<union> (set out1 - set out)"
    using st by (cases "e_segment_id e \<in> fst ` set present"; auto simp: push_entry_def split: if_splits)+
  from Cons.IH [of out1 todo1] Cons.prems st
  have "set out' = set out1 \<union> (e_segment_id ` set es \<inter> fst ` set present)" "set todo' = set todo1 \<union> (set out' - set out1)"
    by simp_all
  then show ?case unfolding one by auto
qed simp

lemma ascend_spec:
  assumes keys: "map fst ents = map fst present"
    and ents: "\<And>v es. map_of ents v = Some es \<Longrightarrow> (\<exists>n. map_of present v = Some n \<and> es = entries n)"
    and inv: "set todo \<subseteq> set out" "set out \<subseteq> ((edges_of present)\<inverse>)\<^sup>* `` {s}" "set out \<subseteq> fst ` set present" "s \<in> set out"
      "\<forall>x\<in>set out - set todo. \<forall>u. names present u x \<longrightarrow> u \<in> set out"
  shows "\<exists>a. ascend present ents todo out = Some a \<and> set a = ((edges_of present)\<inverse>)\<^sup>* `` {s}"
  using assms
proof (induction present ents todo out rule: ascend.induct)
  case (1 present ents todo out)
  let ?R = "((edges_of present)\<inverse>)\<^sup>*"
  note keys = 1(2) and ents = 1(3) and inv = 1(4-8)
  show ?case
  proof (cases "todo = []")
    case True
    have "y \<in> set out" if "(s, y) \<in> ?R" for y
      using that inv(4,5) True by (induction rule: rtrancl_induct) (auto simp: edges_of_def)
    then have "set out = ?R `` {s}" using inv(2) by auto
    then show ?thesis using True by (simp add: ascend.simps [of present ents "[]"])
  next
    case False
    let ?c = "last todo"
    have todo: "set todo = insert ?c (set (butlast todo))" using False by (rule set_butlast_last)
    have c: "?c \<in> set out" using inv(1) todo by auto
    then have "?c \<in> fst ` set ents" using inv(3) keys by (metis set_map subsetD)
    then obtain es where es: "map_of ents ?c = Some es" by (auto simp: mem_keys_iff)
    then obtain n where n: "map_of present ?c = Some n" "es = entries n" using ents by blast
    obtain out' todo' where st: "foldl (push_entry present) (out, butlast todo) es = (out', todo')"
      by (cases "foldl (push_entry present) (out, butlast todo) es")
    note p = push_fold [OF st]
    have preds: "e_segment_id ` set es \<inter> fst ` set present = {u. names present u ?c}"
      using n by (auto simp: names_def)
    have out': "set out' = set out \<union> {u. names present u ?c}" "set todo' = set (butlast todo) \<union> (set out' - set out)"
      using p preds by auto
    have cR: "(s, ?c) \<in> ?R" using c inv(2) by auto
    have "set todo' \<subseteq> set out'" using out' inv(1) todo by auto
    moreover have "set out' \<subseteq> ?R `` {s}"
      using out' inv(2) cR by (auto simp: edges_of_def intro: rtrancl.rtrancl_into_rtrancl)
    moreover have "set out' \<subseteq> fst ` set present" using out' inv(3) by (auto simp: names_def)
    moreover have "s \<in> set out'" using out' inv(4) by auto
    moreover have "\<forall>x\<in>set out' - set todo'. \<forall>u. names present u x \<longrightarrow> u \<in> set out'"
    proof (intro ballI allI impI)
      fix x u assume x: "x \<in> set out' - set todo'" and u: "names present u x"
      show "u \<in> set out'"
      proof (cases "x = ?c")
        case True
        then show ?thesis using u out' by auto
      next
        case False
        then have "x \<in> set out - set todo" using x out' todo by auto
        then show ?thesis using inv(5) u out' by auto
      qed
    qed
    ultimately have "\<exists>a. ascend present ents todo' out' = Some a \<and> set a = ?R `` {s}"
      by (intro 1(1) [OF False es st [symmetric] keys ents])
    then show ?thesis using False es st by (simp add: ascend.simps [of present ents todo out])
  qed
qed

lemma ancestors_spec:
  assumes b: "builder_ok b" and s: "s \<in> n_segment_id ` set (b_members b)"
  shows "\<exists>a. ancestors b s = Some a \<and> set a = {x. (x, s) \<in> (edges_of (b_present b))\<^sup>*}"
proof -
  have e: "b_entries b = map (\<lambda>n. (n_segment_id n, entries n)) (b_members b)"
    and p: "b_present b = map (\<lambda>n. (n_segment_id n, n)) (b_members b)"
    using b by (simp_all add: builder_ok_def node_entries_def)
  have keys: "map fst (b_entries b) = map fst (b_present b)" by (simp add: e p)
  have ents: "\<exists>n. map_of (b_present b) v = Some n \<and> es = entries n" if "map_of (b_entries b) v = Some es" for v es
    using map_of_SomeD [OF that] by (auto simp: e builder_keyed(4) [OF b])
  have "\<exists>a. ascend (b_present b) (b_entries b) [s] [s] = Some a \<and> set a = ((edges_of (b_present b))\<inverse>)\<^sup>* `` {s}"
    using s builder_keyed(2) [OF b] by (intro ascend_spec [OF keys ents]) auto
  moreover have "((edges_of (b_present b))\<inverse>)\<^sup>* `` {s} = {x. (x, s) \<in> (edges_of (b_present b))\<^sup>*}"
    by (auto simp: rtrancl_converse)
  ultimately show ?thesis by (simp add: ancestors_def)
qed

subsection \<open>Fork closures\<close>

definition sealed_id :: "run_builder \<Rightarrow> string \<Rightarrow> bool" where
  "sealed_id b s \<longleftrightarrow> (\<forall>n. map_of (b_present b) s = Some n \<longrightarrow> seal_state n = Sealed)"

text \<open>\<open>forked_from b s\<close>: the segment is a declared fork child that is present, or continues one.\<close>

definition forked_from :: "run_builder \<Rightarrow> string \<Rightarrow> bool" where
  "forked_from b s \<longleftrightarrow> (\<exists>c\<in>all_declared b \<inter> fst ` set (b_present b). (c, s) \<in> (edges_of (b_present b))\<^sup>*)"

definition fork_inv :: "run_builder \<Rightarrow> string list \<Rightarrow> fork_state \<Rightarrow> bool" where
  "fork_inv b closure st \<longleftrightarrow> set (f_todo st) \<subseteq> all_declared b \<and> (\<forall>s\<in>set (f_out st). forked_from b s) \<and>
     (f_gaps st = [] \<longrightarrow> (\<forall>s\<in>set (f_out st). s \<in> set closure \<or> sealed_id b s))"

lemma fork_member_inv:
  assumes "fork_inv b closure st" and "s \<in> fst ` set (b_present b)" and "forked_from b s"
  shows "\<exists>st'. fork_member b closure st s = Some st' \<and> fork_inv b closure st'"
proof -
  from assms(2) obtain n where n: "map_of (b_present b) s = Some n" by (auto simp: mem_keys_iff)
  then obtain st' where st': "fork_member b closure st s = Some st'" by (simp add: fork_member_def)
  have "set (f_todo st') \<subseteq> all_declared b" using fork_member_frame [OF st'] assms(1) by (auto simp: fork_inv_def)
  moreover have "f_out st' = (if s \<in> set (f_out st) then f_out st else f_out st @ [s])"
      "f_gaps st' = f_gaps st @ (if s \<notin> set closure \<and> s \<notin> set (f_out st) \<and> seal_state n \<noteq> Sealed
        then [graph_gap Segment_missing Partial n ''branch_unsealed''] else [])"
    using st' n by (auto simp: fork_member_def)
  moreover have "sealed_id b s \<longleftrightarrow> seal_state n = Sealed" using n by (simp add: sealed_id_def)
  ultimately have "fork_inv b closure st'" using assms(1,3) by (auto simp: fork_inv_def split: if_splits)
  with st' show ?thesis by blast
qed

lemma fork_members_inv:
  assumes "fork_inv b closure st" and "\<forall>s\<in>set xs. s \<in> fst ` set (b_present b) \<and> forked_from b s"
  shows "\<exists>st'. foldM (fork_member b closure) st xs = Some st' \<and> fork_inv b closure st'"
  using assms
proof (induction xs arbitrary: st)
  case (Cons x xs)
  from fork_member_inv [OF Cons.prems(1), of x] Cons.prems(2) obtain st1 where
    st1: "fork_member b closure st x = Some st1" "fork_inv b closure st1" by auto
  from Cons.IH [OF st1(2)] Cons.prems(2) st1(1) show ?case by simp
qed simp

lemma fork_child_inv:
  assumes b: "builder_ok b" and inv: "fork_inv b closure st" and child: "child \<in> all_declared b"
  shows "\<exists>st'. fork_child b closure st child = Some st' \<and> fork_inv b closure st'"
proof (cases "child \<in> fst ` set (b_present b)")
  case False
  from child obtain n where "n \<in> set (b_members b)" "child \<in> set (n_declared_branches n)"
    by (auto simp: all_declared_def builder_keyed(3) [OF b])
  then obtain d where "List.find (\<lambda>n. child \<in> set (n_declared_branches n)) (b_members b) = Some d"
    by (metis (mono_tags, lifting) find_None_iff not_None_eq)
  then show ?thesis using False inv by (auto simp: fork_child_def fork_inv_def)
next
  case True
  from descendants_spec [OF b, of child] True obtain d where
    d: "descendants b child = Some d" "set d = (edges_of (b_present b))\<^sup>+ `` {child} - {child}"
    by (auto simp: builder_keyed(2) [OF b])
  have "\<forall>s\<in>set (sorted_set (child # d)). s \<in> fst ` set (b_present b) \<and> forked_from b s"
  proof
    fix s assume "s \<in> set (sorted_set (child # d))"
    then consider "s = child" | "(child, s) \<in> (edges_of (b_present b))\<^sup>+" using d(2) by auto
    then show "s \<in> fst ` set (b_present b) \<and> forked_from b s"
    proof cases
      case 1
      then show ?thesis using True child by (auto simp: forked_from_def)
    next
      case 2
      then obtain u where "(u, s) \<in> edges_of (b_present b)" by (metis tranclD2)
      then have "s \<in> fst ` set (b_present b)" by (auto simp: edges_of_def names_def mem_keys_iff)
      moreover have "(child, s) \<in> (edges_of (b_present b))\<^sup>*" using 2 by (rule trancl_into_rtrancl)
      ultimately show ?thesis using True child unfolding forked_from_def by blast
    qed
  qed
  from fork_members_inv [OF inv this] d(1) True show ?thesis by (simp add: fork_child_def)
qed

lemma fork_loop_inv:
  assumes "builder_ok b" and "fork_inv b closure st"
  shows "\<exists>st'. fork_loop b closure st = Some st' \<and> fork_inv b closure st'"
  using assms
proof (induction b closure st rule: fork_loop.induct)
  case (1 b closure st)
  show ?case
  proof (cases "f_todo st")
    case Nil
    then show ?thesis using 1 by (simp add: fork_loop.simps [of b closure st])
  next
    case (Cons child rest)
    show ?thesis
    proof (cases "child \<in> set (f_seen st)")
      case True
      have "fork_inv b closure (st\<lparr>f_todo := rest\<rparr>)" using 1(4) Cons by (simp add: fork_inv_def)
      with 1(1) [OF Cons True 1(3)] Cons True show ?thesis by (simp add: fork_loop.simps [of b closure st])
    next
      case False
      let ?st = "st\<lparr>f_todo := rest, f_seen := f_seen st @ [child]\<rparr>"
      have "fork_inv b closure ?st" "child \<in> all_declared b" using 1(4) Cons by (simp_all add: fork_inv_def)
      from fork_child_inv [OF 1(3) this] obtain st' where
        st': "fork_child b closure ?st child = Some st'" "fork_inv b closure st'" by blast
      from 1(2) [OF Cons False st'(1) 1(3) st'(2)] Cons False st'(1) show ?thesis
        by (simp add: fork_loop.simps [of b closure st])
    qed
  qed
qed

lemma fork_closures_spec:
  assumes b: "builder_ok b" and closure: "set closure \<subseteq> fst ` set (b_present b)"
  shows "\<exists>forked gaps. fork_closures b closure = Some (forked, gaps) \<and> (\<forall>s\<in>set forked. forked_from b s) \<and>
    (gaps = [] \<longrightarrow> (\<forall>s\<in>set forked. s \<in> set closure \<or> sealed_id b s))"
proof -
  have "those (map (map_of (b_present b)) closure) = Some (map (\<lambda>s. the (map_of (b_present b) s)) closure)"
    using closure by (rule those_lookup)
  moreover have "fork_inv b closure \<lparr>f_out = [], f_gaps = [], f_seen = [],
      f_todo = sorted_set (concat (map n_declared_branches (map (\<lambda>s. the (map_of (b_present b) s)) closure)))\<rparr>"
  proof -
    have "n_declared_branches (the (map_of (b_present b) s)) \<noteq> [] \<longrightarrow>
        set (n_declared_branches (the (map_of (b_present b) s))) \<subseteq> all_declared b" if "s \<in> set closure" for s
    proof -
      from that closure obtain n where "map_of (b_present b) s = Some n" by (metis mem_keys_iff subsetD)
      from map_of_SomeD [OF this] this show ?thesis by (force simp: all_declared_def)
    qed
    then show ?thesis by (fastforce simp: fork_inv_def)
  qed
  from fork_loop_inv [OF b this] obtain st where "fork_loop b closure \<lparr>f_out = [], f_gaps = [], f_seen = [],
      f_todo = sorted_set (concat (map n_declared_branches (map (\<lambda>s. the (map_of (b_present b) s)) closure)))\<rparr> = Some st"
    "fork_inv b closure st" by blast
  ultimately show ?thesis by (auto simp: fork_closures_def fork_inv_def)
qed

subsection \<open>Every graph is built\<close>

lemma present_id:
  assumes "builder_ok b" and "n \<in> set (b_members b)"
  shows "map_of (b_present b) (n_segment_id n) = Some n" "n_segment_id n \<in> fst ` set (b_present b)"
  using assms builder_keyed(2,4) [OF assms(1)] by auto

lemma trancl_present: "(u, x) \<in> (edges_of nodes)\<^sup>+ \<Longrightarrow> x \<in> fst ` set nodes"
  by (erule trancl.cases) (auto simp: edges_of_def names_def mem_keys_iff)

lemma cycle_gaps_spec:
  assumes b: "builder_ok b"
  shows "\<exists>gaps. cycle_gaps b = Some gaps \<and> (gaps = [] \<longleftrightarrow> acyclic (edges_of (b_present b)))"
proof -
  from on_cycles_spec [OF builder_closed [OF b]] obtain xs where
    xs: "on_cycles (b_successors b) = Some xs" "set xs = {x. (x, x) \<in> (edges_of (b_present b))\<^sup>+}"
    by (auto simp: builder_edges [OF b])
  have mem: "x \<in> fst ` set (b_present b)" if "x \<in> set xs" for x
    using that xs(2) trancl_present by blast
  let ?f = "\<lambda>s. do { n \<leftarrow> map_of (b_present b) s; Some (graph_gap Segment_conflict Partial n ''cycle'') }"
  have "those (map ?f xs) = Some (map (\<lambda>s. graph_gap Segment_conflict Partial (the (map_of (b_present b) s)) ''cycle'') xs)"
    using subsetI [OF mem] by (rule those_bind_lookup [where f = "\<lambda>n. graph_gap Segment_conflict Partial n ''cycle''"])
  moreover have "xs = [] \<longleftrightarrow> acyclic (edges_of (b_present b))"
    using xs(2) by (auto simp: acyclic_def)
  ultimately show ?thesis using xs(1) by (simp add: cycle_gaps_def)
qed

lemma terminal_gaps_spec:
  assumes b: "builder_ok b" and t: "t \<in> set (b_members b)"
  shows "\<exists>gaps. terminal_gaps b t = Some gaps \<and>
    (gaps = [] \<longrightarrow> (edges_of (b_present b))\<^sup>+ `` {n_segment_id t} \<subseteq> {n_segment_id t})"
proof -
  have ts: "n_segment_id t \<in> n_segment_id ` set (b_members b)" using t by simp
  from descendants_spec [OF b ts] obtain d where
    d: "descendants b (n_segment_id t) = Some d" "set d = (edges_of (b_present b))\<^sup>+ `` {n_segment_id t} - {n_segment_id t}"
    by blast
  from ancestors_spec [OF b ts] obtain a where a: "ancestors b (n_segment_id t) = Some a" by blast
  have mem: "x \<in> fst ` set (b_present b)" if "x \<in> set (sorted_set d)" for x
    using that d(2) trancl_present by auto
  have "those (map (\<lambda>s. do { n \<leftarrow> map_of (b_present b) s;
      Some (graph_gap Post_terminal_activity Partial n ''continues_terminal'') }) (sorted_set d)) =
    Some (map (\<lambda>s. graph_gap Post_terminal_activity Partial (the (map_of (b_present b) s)) ''continues_terminal'') (sorted_set d))"
    using subsetI [OF mem]
    by (rule those_bind_lookup [where f = "\<lambda>n. graph_gap Post_terminal_activity Partial n ''continues_terminal''"])
  moreover have "(edges_of (b_present b))\<^sup>+ `` {n_segment_id t} \<subseteq> {n_segment_id t}" if "d = []" using d(2) that by auto
  ultimately show ?thesis using d(1) a by (cases "n_sealed_ns t") (simp_all add: terminal_gaps_def)
qed

lemma those_SomeD: "those xs = Some ys \<Longrightarrow> y \<in> set ys \<Longrightarrow> Some y \<in> set xs"
  by (induction xs arbitrary: ys) (auto split: option.splits)

lemma those_mem: "those (map f xs) = Some ys \<Longrightarrow> x \<in> set xs \<Longrightarrow> \<exists>y\<in>set ys. f x = Some y"
  by (induction xs arbitrary: ys) (auto split: option.splits)

lemma g4_spec:
  assumes b: "builder_ok b"
  shows "\<exists>r. g4 b = Some r \<and> (r = None \<longrightarrow> (\<forall>t\<in>set (b_members b). truthy (n_terminal t) \<longrightarrow>
    (edges_of (b_present b))\<^sup>+ `` {n_segment_id t} \<subseteq> {n_segment_id t}))"
proof -
  let ?ts = "filter (\<lambda>n. truthy (n_terminal n)) (b_members b)"
  have "None \<notin> set (map (terminal_gaps b) ?ts)"
    using terminal_gaps_spec [OF b] by (auto simp: image_iff) (metis option.distinct(1))
  then obtain gs where gs: "those (map (terminal_gaps b) ?ts) = Some gs" using those_Some_iff by blast
  have "(edges_of (b_present b))\<^sup>+ `` {n_segment_id t} \<subseteq> {n_segment_id t}"
    if none: "concat gs = []" and t: "t \<in> set (b_members b)" "truthy (n_terminal t)" for t
  proof -
    from those_mem [OF gs, of t] t obtain g where "g \<in> set gs" "terminal_gaps b t = Some g" by auto
    with none terminal_gaps_spec [OF b t(1)] show ?thesis by auto
  qed
  then show ?thesis using gs by (auto simp: g4_def or_none_def)
qed

lemma g5_failures_spec:
  assumes b: "builder_ok b" and t: "t \<in> set (b_members b)"
  shows "\<exists>gaps. g5_failures b [t] = Some gaps \<and>
    (gaps = [] \<longrightarrow> (\<forall>n\<in>set (b_members b). seal_state n = Sealed \<and>
       ((n_segment_id n, n_segment_id t) \<in> (edges_of (b_present b))\<^sup>* \<or> forked_from b (n_segment_id n))))"
proof -
  have ts: "n_segment_id t \<in> n_segment_id ` set (b_members b)" using t by simp
  from ancestors_spec [OF b ts] obtain a where
    a: "ancestors b (n_segment_id t) = Some a" "set a = {x. (x, n_segment_id t) \<in> (edges_of (b_present b))\<^sup>*}" by blast
  have sub: "set a \<subseteq> fst ` set (b_present b)"
  proof
    fix x assume "x \<in> set a"
    with a(2) have "(x, n_segment_id t) \<in> (edges_of (b_present b))\<^sup>*" by simp
    then show "x \<in> fst ` set (b_present b)"
      using present_id(2) [OF b t] by (cases rule: converse_rtranclE) (auto simp: edges_of_def names_def)
  qed
  then have look: "those (map (map_of (b_present b)) (sorted_set a)) = Some (map (\<lambda>k. the (map_of (b_present b) k)) (sorted_set a))"
    by (intro those_lookup) simp
  from fork_closures_spec [OF b sub] obtain forked gaps where
    f: "fork_closures b a = Some (forked, gaps)" "\<forall>s\<in>set forked. forked_from b s"
      "gaps = [] \<longrightarrow> (\<forall>s\<in>set forked. s \<in> set a \<or> sealed_id b s)" by blast
  let ?un = "map (\<lambda>n. graph_gap Segment_missing Partial n ''predecessor_unsealed'')
      (filter (\<lambda>n. seal_state n \<noteq> Sealed) (map (\<lambda>k. the (map_of (b_present b) k)) (sorted_set a)))"
  have un: "unsealed_gaps b a = Some ?un" using look by (simp add: unsealed_gaps_def)
  have "seal_state n = Sealed \<and> ((n_segment_id n, n_segment_id t) \<in> (edges_of (b_present b))\<^sup>* \<or> forked_from b (n_segment_id n))"
    if n: "n \<in> set (b_members b)" and none: "?un = []" "gaps = []"
      "filter (\<lambda>n. n_segment_id n \<notin> set a \<union> set forked) (b_members b) = []" for n
  proof -
    have joined: "n_segment_id n \<in> set a \<or> n_segment_id n \<in> set forked" using none(3) n by (auto simp: filter_empty_conv)
    have "seal_state n = Sealed" if "n_segment_id n \<in> set a"
      using none(1) that present_id(1) [OF b n] by (force simp: filter_empty_conv)
    moreover have "seal_state n = Sealed" if "sealed_id b (n_segment_id n)"
      using that present_id(1) [OF b n] by (simp add: sealed_id_def)
    ultimately show ?thesis using joined f(2,3) none(2) a(2) by blast
  qed
  then show ?thesis using a(1) un f(1) by (auto simp: g5_failures_def)
qed

lemma g1_spec:
  assumes b: "builder_ok b"
  shows "\<exists>r. g1 b = Some r \<and> (r = None \<longrightarrow> acyclic (edges_of (b_present b)) \<and>
    (\<forall>n\<in>set (b_members b). \<forall>e\<in>set (entries n).
       (e_segment_id e \<in> fst ` set (b_everything b) \<longrightarrow> e_segment_id e \<in> fst ` set (b_present b)) \<and>
       (\<forall>m. map_of (b_present b) (e_segment_id e) = Some m \<longrightarrow> \<not> disagrees e m)))"
proof -
  from cycle_gaps_spec [OF b] obtain cyc where
    cyc: "cycle_gaps b = Some cyc" "cyc = [] \<longleftrightarrow> acyclic (edges_of (b_present b))" by blast
  have "(e_segment_id e \<in> fst ` set (b_everything b) \<longrightarrow> e_segment_id e \<in> fst ` set (b_present b)) \<and>
       (\<forall>m. map_of (b_present b) (e_segment_id e) = Some m \<longrightarrow> \<not> disagrees e m)"
    if none: "entry_conflicts b = []" and n: "n \<in> set (b_members b)" and e: "e \<in> set (entries n)" for n e
  proof -
    have "n_id_basis n \<noteq> Some ''token_conflict'' \<and> concat (map (entry_gaps b n) (entries n)) = []"
    proof -
      have "(if n_id_basis n = Some ''token_conflict'' then [graph_gap Segment_conflict Partial n ''token_conflict'']
          else concat (map (entry_gaps b n) (entries n))) = []"
        by (rule concat_map_NilD [OF none [unfolded entry_conflicts_def] n])
      then show ?thesis by (metis list.distinct(1))
    qed
    with e have "entry_gaps b n e = []" by (simp add: concat_eq_Nil_iff)
    then show ?thesis
      by (cases "map_of (b_present b) (e_segment_id e)") (auto simp: entry_gaps_def mem_keys_iff split: if_splits)
  qed
  then show ?thesis using cyc by (auto simp: g1_def Let_def)
qed

lemma missing_nodes_keys:
  "fst ` set (missing_nodes run everything members) =
     e_segment_id ` (\<Union>n\<in>set members. set (entries n)) - fst ` set everything"
proof -
  let ?f = "\<lambda>d e. if e_segment_id e \<notin> fst ` set everything \<and> e_segment_id e \<notin> fst ` set d
      then d @ [(e_segment_id e, missing_node run e)] else d"
  have "fst ` set (foldl ?f d es) = fst ` set d \<union> (e_segment_id ` set es - fst ` set everything)" for d es
  proof (induction es arbitrary: d)
    case (Cons e es)
    have step: "fst ` set (?f d e) = fst ` set d \<union> ({e_segment_id e} - fst ` set everything)"
      by (simp add: insert_absorb insert_Diff_if)
    have "e_segment_id ` set (e # es) - fst ` set everything =
        ({e_segment_id e} - fst ` set everything) \<union> (e_segment_id ` set es - fst ` set everything)"
      by (simp add: Un_Diff [symmetric])
    then show ?case by (simp only: foldl_Cons Cons.IH step Un_assoc)
  qed simp
  from this [of "[]" "concat (map entries members)"] show ?thesis by (simp add: missing_nodes_def)
qed

lemma deadline_returns: "b_members b \<noteq> [] \<Longrightarrow> \<exists>d. deadline b = Some d"
  by (auto simp: deadline_def Let_def split: option.splits list.splits)

lemma g5_failures_returns:
  assumes "builder_ok b" and "set ts \<subseteq> set (b_members b)" and "ts \<noteq> []"
  shows "\<exists>gaps. g5_failures b ts = Some gaps"
proof (cases "length ts = 1")
  case True
  then obtain t where "ts = [t]" by (cases ts) auto
  with g5_failures_spec [OF assms(1), of t] assms(2) show ?thesis by auto
next
  case False
  with assms(3) show ?thesis by (cases ts; cases "tl ts") (auto simp: g5_failures_def)
qed

lemma decide_returns:
  assumes b: "builder_ok b" and ne: "b_members b \<noteq> []" and ts: "set ts \<subseteq> set (b_members b)"
  shows "\<exists>d. decide b ts = Some d"
proof -
  from g1_spec [OF b] obtain r1 where "g1 b = Some r1" by blast
  moreover from g4_spec [OF b] obtain r4 where "g4 b = Some r4" by blast
  ultimately show ?thesis
    using deadline_returns [OF ne] g5_failures_returns [OF b ts]
    by (auto simp: decide_def split: option.splits)
qed

lemma build_returns:
  assumes "builder_ok b" and "b_members b \<noteq> []"
  shows "\<exists>g. build b = Some g"
proof -
  have "set (filter (\<lambda>n. truthy (n_terminal n)) (b_members b)) \<subseteq> set (b_members b)" by auto
  from decide_returns [OF assms this] show ?thesis by (auto simp: build_def Let_def)
qed

subsection \<open>Terminated runs\<close>

lemma deadline_not_terminated: "deadline b = Some d \<Longrightarrow> d_state d \<noteq> Terminated"
  by (auto simp: deadline_def run_decision_def Let_def split: option.splits if_splits list.splits)

lemma decide_terminated:
  assumes "decide b ts = Some d" and "d_state d = Terminated"
  shows "g1 b = Some None \<and> g2 b = None \<and> g3 b = None \<and> g4 b = Some None \<and> ts \<noteq> [] \<and> g5_failures b ts = Some []"
proof -
  have state: "\<And>r st gaps. d_state (run_decision r st gaps) = st" by (simp add: run_decision_def)
  from assms(1) obtain r1 where r1: "g1 b = Some r1" by (cases "g1 b") (simp_all add: decide_def)
  have n1: "r1 = None" using assms r1 by (cases r1) (auto simp: decide_def state)
  have n2: "g2 b = None" using assms r1 n1 by (cases "g2 b") (auto simp: decide_def state)
  have n3: "g3 b = None" using assms r1 n1 n2 by (cases "g3 b") (auto simp: decide_def state)
  from assms(1) r1 n1 n2 n3 obtain r4 where r4: "g4 b = Some r4" by (cases "g4 b") (simp_all add: decide_def)
  have n4: "r4 = None" using assms r1 n1 n2 n3 r4 by (cases r4) (auto simp: decide_def state)
  have ts: "ts \<noteq> []"
    using assms r1 n1 n2 n3 r4 n4 deadline_not_terminated by (auto simp: decide_def state split: if_splits)
  with assms r1 n1 n2 n3 r4 n4 obtain fs where fs: "g5_failures b ts = Some fs"
    by (cases "g5_failures b ts") (simp_all add: decide_def)
  have "fs = []" using assms r1 n1 n2 n3 r4 n4 ts fs by (auto simp: decide_def state split: if_splits)
  with r1 n1 n2 n3 r4 n4 ts fs show ?thesis by simp
qed

lemma g5_failures_single: "g5_failures b ts = Some [] \<Longrightarrow> \<exists>t. ts = [t]"
  by (cases ts; cases "tl ts") (auto simp: g5_failures_def)

lemma terminated_sound:
  assumes b: "builder_ok b" and g: "build b = Some g" "rg_run_state g = Terminated"
  shows "\<exists>t\<in>set (b_members b). truthy (n_terminal t) \<and> rg_terminal_segment_id g = Some (n_segment_id t) \<and>
    (\<forall>n\<in>set (b_members b). truthy (n_terminal n) \<longrightarrow> n = t) \<and>
    acyclic (edges_of (b_present b)) \<and> (\<forall>v. \<not> names (b_present b) (n_segment_id t) v) \<and>
    (\<forall>n\<in>set (b_members b). seal_state n = Sealed \<and> n_predecessors n \<noteq> [] \<and>
       (\<forall>e\<in>set (entries n). \<exists>m\<in>set (b_members b). n_segment_id m = e_segment_id e \<and> \<not> disagrees e m) \<and>
       ((n_segment_id n, n_segment_id t) \<in> (edges_of (b_present b))\<^sup>* \<or> forked_from b (n_segment_id n)))"
proof -
  let ?ts = "filter (\<lambda>n. truthy (n_terminal n)) (b_members b)"
  from g obtain d where d: "decide b ?ts = Some d" "d_state d = Terminated"
    by (auto simp: build_def Let_def bind_eq_Some_conv)
  note gs = decide_terminated [OF d]
  then obtain t where ts: "?ts = [t]" using g5_failures_single by blast
  have t: "t \<in> set (b_members b)" "truthy (n_terminal t)" using ts [THEN arg_cong [of _ _ set]] by auto
  have only: "\<forall>n\<in>set (b_members b). truthy (n_terminal n) \<longrightarrow> n = t"
    using ts [THEN arg_cong [of _ _ set]] by auto
  have acyc: "acyclic (edges_of (b_present b))" and ent: "\<And>n e. n \<in> set (b_members b) \<Longrightarrow> e \<in> set (entries n) \<Longrightarrow>
       (e_segment_id e \<in> fst ` set (b_everything b) \<longrightarrow> e_segment_id e \<in> fst ` set (b_present b)) \<and>
       (\<forall>m. map_of (b_present b) (e_segment_id e) = Some m \<longrightarrow> \<not> disagrees e m)"
    using g1_spec [OF b] gs by auto
  have last: "\<not> names (b_present b) (n_segment_id t) v" for v
  proof
    assume v: "names (b_present b) (n_segment_id t) v"
    then have tv: "(n_segment_id t, v) \<in> (edges_of (b_present b))\<^sup>+" by (auto simp: edges_of_def)
    moreover have "(edges_of (b_present b))\<^sup>+ `` {n_segment_id t} \<subseteq> {n_segment_id t}" using g4_spec [OF b] gs t by auto
    ultimately have "v = n_segment_id t" by auto
    with tv acyc show False by (auto simp: acyclic_def)
  qed
  have "seal_state n = Sealed \<and> n_predecessors n \<noteq> [] \<and>
       (\<forall>e\<in>set (entries n). \<exists>m\<in>set (b_members b). n_segment_id m = e_segment_id e \<and> \<not> disagrees e m) \<and>
       ((n_segment_id n, n_segment_id t) \<in> (edges_of (b_present b))\<^sup>* \<or> forked_from b (n_segment_id n))"
    if n: "n \<in> set (b_members b)" for n
  proof -
    have "seal_state n = Sealed \<and> ((n_segment_id n, n_segment_id t) \<in> (edges_of (b_present b))\<^sup>* \<or> forked_from b (n_segment_id n))"
      using g5_failures_spec [OF b t(1)] gs ts n by auto
    moreover have "n_predecessors n \<noteq> []" using gs n by (auto simp: g3_def or_none_def filter_empty_conv split: if_splits)
    moreover have "\<exists>m\<in>set (b_members b). n_segment_id m = e_segment_id e \<and> \<not> disagrees e m" if e: "e \<in> set (entries n)" for e
    proof -
      have "b_missing b = []" using gs by (auto simp: g2_def or_none_def sort_key_eq_Nil split: if_splits)
      then have "e_segment_id e \<in> fst ` set (b_everything b)"
        using b missing_nodes_keys [of "b_run_id b" "b_everything b" "b_members b"] n e by (auto simp: builder_ok_def)
      with ent [OF n e] obtain m where "map_of (b_present b) (e_segment_id e) = Some m" "\<not> disagrees e m"
        by (auto simp: mem_keys_iff)
      then show ?thesis using builder_keyed(4) [OF b] by blast
    qed
    ultimately show ?thesis by blast
  qed
  moreover have "rg_terminal_segment_id g = Some (n_segment_id t)"
    using g(1) d(1) ts by (auto simp: build_def Let_def)
  ultimately show ?thesis using t only acyc last by blast
qed

subsection \<open>Deadlines under clock error\<close>

definition deadline_ns :: "segment_node \<Rightarrow> int \<Rightarrow> int" where
  "deadline_ns root start = start + or_int (n_open_deadline_s root)
     (or_int (n_manifest_open_run_deadline_s root) default_open_run_deadline_s) * ns_per_s"

definition clock_error :: "run_builder \<Rightarrow> segment_node \<Rightarrow> int" where
  "clock_error b root = or_int (n_clock_uncertainty_ns root) 0 + c_verifier_ns (b_clocks b)"

lemma deadline_robust:
  assumes d: "deadline b = Some d" and root: "root_of b = Some root" "n_start_ns root = Some start"
    and e: "\<bar>e\<bar> \<le> clock_error b root"
  shows "(d_state d = Open_run \<longrightarrow> c_evaluated_ns (b_clocks b) + e < deadline_ns root start) \<and>
    (d_state d = Unterminated \<longrightarrow> deadline_ns root start \<le> c_evaluated_ns (b_clocks b) + e) \<and>
    d_state d \<in> {Open_run, Unterminated, Deadline_uncertain} \<and>
    (d_state d \<noteq> Deadline_uncertain \<longrightarrow> clock_error b root \<le> c_bound_ns (b_clocks b))"
proof -
  let ?U = "clock_error b root" and ?late = "c_evaluated_ns (b_clocks b) - deadline_ns root start"
  have "d_state d = (if ?U > c_bound_ns (b_clocks b) then Deadline_uncertain
      else if ?U > 0 \<and> \<bar>?late\<bar> \<le> ?U then Deadline_uncertain
      else if ?late < 0 then Open_run else Unterminated)"
    using d root unfolding deadline_def Let_def deadline_ns_def [symmetric] clock_error_def [symmetric] run_decision_def
    by (auto simp: deadline_ns_def clock_error_def split: if_splits)
  then show ?thesis using e by (auto split: if_splits)
qed

subsection \<open>The runs partition the segments\<close>

lemma map_of_dedup_nodes:
  "map_of (dedup_nodes segments) s = List.find (\<lambda>n. n_segment_id n = s) segments"
proof -
  have "map_of (foldl (\<lambda>d n. setdefault d (n_segment_id n) n) d segments) s =
      (case map_of d s of Some n \<Rightarrow> Some n | None \<Rightarrow> List.find (\<lambda>n. n_segment_id n = s) segments)" for d
    by (induction segments arbitrary: d) (auto simp: map_of_setdefault split: option.splits)
  then show ?thesis by (simp add: dedup_nodes_def)
qed

lemma keyed_setdefault: "keyed d \<Longrightarrow> keyed (setdefault d (n_segment_id n) n)"
  by (auto simp: keyed_def setdefault_def map_of_eq_None_iff split: option.splits)

lemma keyed_dedup_nodes: "keyed (dedup_nodes segments)"
proof -
  have "keyed d \<Longrightarrow> keyed (foldl (\<lambda>d n. setdefault d (n_segment_id n) n) d segments)" for d
    by (induction segments arbitrary: d) (simp_all add: keyed_setdefault)
  moreover have "keyed []" by (simp add: keyed_def)
  ultimately show ?thesis unfolding dedup_nodes_def by blast
qed

lemma run_members_keyed:
  assumes "keyed nodes"
  shows "distinct (map n_segment_id (run_members c nodes run))"
    and "n \<in> set (run_members c nodes run) \<longleftrightarrow>
      map_of nodes (n_segment_id n) = Some n \<and> map_of c (n_run_id n) = Some run"
proof -
  have "map n_segment_id (map snd (filter P nodes)) = map fst (filter P nodes)" for P
    using assms by (auto simp: keyed_def)
  then show "distinct (map n_segment_id (run_members c nodes run))"
    using assms unfolding run_members_def keyed_def by (metis distinct_map_filter)
  show "n \<in> set (run_members c nodes run) \<longleftrightarrow>
      map_of nodes (n_segment_id n) = Some n \<and> map_of c (n_run_id n) = Some run"
    using assms by (force simp: run_members_def keyed_def dest: map_of_SomeD)
qed

lemma build_fields:
  "build b = Some g \<Longrightarrow> rg_run_id g = b_run_id b \<and>
     rg_segments g = b_members b @ map snd (sort_key fst (b_missing b)) \<and> rg_run_aliases g = b_aliases b"
  by (auto simp: build_def Let_def bind_eq_Some_conv)

lemma build_run_graphs_spec:
  assumes nodes: "nodes = dedup_nodes segments" and ne: "segments \<noteq> []"
  shows "\<exists>c gs. merge_runs nodes = Some c \<and> build_run_graphs segments evaluated u bound = Some gs \<and>
    map rg_run_id gs = sorted_set (map (\<lambda>r. the (map_of c r)) (run_ids_of nodes)) \<and>
    (\<forall>g\<in>set gs. \<exists>b. builder_ok b \<and> b_members b \<noteq> [] \<and> build b = Some g \<and> b_everything b = nodes \<and>
       set (b_members b) = {n. map_of nodes (n_segment_id n) = Some n \<and> map_of c (n_run_id n) = Some (rg_run_id g)})"
proof -
  have keyed: "keyed nodes" unfolding nodes by (rule keyed_dedup_nodes)
  have nodes_ne: "nodes \<noteq> []"
  proof -
    obtain n rest where "segments = n # rest" using ne by (cases segments) auto
    then have "map_of nodes (n_segment_id n) = Some n" by (simp add: nodes map_of_dedup_nodes)
    then show ?thesis by auto
  qed
  from merge_runs_spec [OF keyed] obtain c where c: "merge_runs nodes = Some c" "map fst c = run_ids_of nodes"
    "\<forall>x\<in>set (run_ids_of nodes). \<exists>r\<in>set (run_ids_of nodes). map_of c x = Some r \<and> map_of c r = Some r" by blast
  let ?runs = "map (\<lambda>(k, n). the (map_of c (n_run_id n))) nodes"
  have look: "map_of c (n_run_id n) = Some (the (map_of c (n_run_id n)))" if "(k, n) \<in> set nodes" for k n
    using that c(3) by (force simp: set_run_ids_of)
  then have runs: "those (map (\<lambda>(k, n). map_of c (n_run_id n)) nodes) = Some ?runs"
    by (intro those_map_SomeI) auto
  have set_runs: "sorted_set ?runs = sorted_set (map (\<lambda>r. the (map_of c r)) (run_ids_of nodes))"
    by (rule sorted_set_cong) (force simp: set_run_ids_of)
  define cl where "cl = \<lparr>c_evaluated_ns = ns_of evaluated, c_verifier_ns = u, c_bound_ns = bound\<rparr>"
  define mk where "mk = (\<lambda>run. mk_builder run (run_members c nodes run) (run_aliases c nodes run) nodes cl)"
  have mk_ok: "builder_ok (mk run) \<and> b_members (mk run) \<noteq> []" if r: "run \<in> set ?runs" for run
  proof -
    from r obtain k n where n: "(k, n) \<in> set nodes" "map_of c (n_run_id n) = Some run" using look by fastforce
    then have "run_members c nodes run \<noteq> []" by (force simp: run_members_def filter_empty_conv)
    then show ?thesis
      using builder_ok_mk [OF run_members_keyed(1) [OF keyed]] by (simp add: mk_def) (simp add: mk_builder_def Let_def sort_key_eq_Nil)
  qed
  have "those (map (\<lambda>run. build (mk run)) (sorted_set ?runs)) = Some (map (\<lambda>run. the (build (mk run))) (sorted_set ?runs))"
  proof (rule those_map_SomeI)
    fix run assume "run \<in> set (sorted_set ?runs)"
    then have "run \<in> set ?runs" by simp
    from build_returns [of "mk run"] mk_ok [OF this] show "build (mk run) = Some (the (build (mk run)))" by auto
  qed
  then have gs: "build_run_graphs segments evaluated u bound = Some (map (\<lambda>run. the (build (mk run))) (sorted_set ?runs))"
    using nodes_ne c(1) runs by (simp add: build_run_graphs_def nodes Let_def mk_def cl_def)
  have each: "\<exists>b. builder_ok b \<and> b_members b \<noteq> [] \<and> build b = Some (the (build (mk run))) \<and> b_everything b = nodes \<and>
       rg_run_id (the (build (mk run))) = run \<and>
       set (b_members b) = {n. map_of nodes (n_segment_id n) = Some n \<and> map_of c (n_run_id n) = Some run}"
    if r: "run \<in> set ?runs" for run
  proof -
    obtain g where g: "build (mk run) = Some g" using build_returns [of "mk run"] mk_ok [OF r] by blast
    have "b_run_id (mk run) = run" "b_everything (mk run) = nodes"
      "set (b_members (mk run)) = {n. map_of nodes (n_segment_id n) = Some n \<and> map_of c (n_run_id n) = Some run}"
      using run_members_keyed(2) [OF keyed] by (auto simp: mk_def mk_builder_def Let_def)
    with g mk_ok [OF r] build_fields [OF g] show ?thesis by (intro exI [of _ "mk run"]) simp
  qed
  let ?gs = "map (\<lambda>run. the (build (mk run))) (sorted_set ?runs)"
  have ids: "map rg_run_id ?gs = sorted_set ?runs"
    unfolding map_map by (rule map_idI) (use each in fastforce)
  have "\<exists>b. builder_ok b \<and> b_members b \<noteq> [] \<and> build b = Some g \<and> b_everything b = nodes \<and>
       set (b_members b) = {n. map_of nodes (n_segment_id n) = Some n \<and> map_of c (n_run_id n) = Some (rg_run_id g)}"
    if "g \<in> set ?gs" for g
  proof -
    from that obtain run where "run \<in> set ?runs" "g = the (build (mk run))" by auto
    from each [OF this(1)] this(2) show ?thesis by auto
  qed
  then show ?thesis using c(1) gs ids set_runs by (intro exI [of _ c] exI [of _ ?gs]) simp
qed

subsection \<open>Properties\<close>

definition sample_builder :: run_builder where
  "sample_builder = mk_builder ''run'' [(sample_node CHR ''b'' [format_entry (sample_segment CHR ''a'') ''s-1'' 1 4 sample_digest])
        \<lparr>n_terminal := Some True\<rparr>, (sample_node CHR ''a'' [''none''])\<lparr>n_start_ns := Some 1000\<rparr>] []
     sample_nodes \<lparr>c_evaluated_ns = 5000, c_verifier_ns = 3, c_bound_ns = 10\<rparr>"

lemma sample_builder_ok: "builder_ok sample_builder"
  unfolding sample_builder_def by (rule builder_ok_mk) (simp add: sample_node_def mk_node_def)

lemma sample_builder_segment: "sample_segment CHR ''a'' \<in> n_segment_id ` set (b_members sample_builder)"
  by (simp add: sample_builder_def mk_builder_def Let_def sample_node_def mk_node_def)

text \<open>
  C20. The traversals of the segment graph terminate and return exactly the segments reachable from a
  segment (without itself) and exactly its ancestors (with itself).
\<close>

theorem reachability_exact:
  assumes "builder_ok b" and "s \<in> n_segment_id ` set (b_members b)"
  shows "\<exists>d a. descendants b s = Some d \<and> ancestors b s = Some a \<and>
    set d = {x. (s, x) \<in> (edges_of (b_present b))\<^sup>+} - {s} \<and> set a = {x. (x, s) \<in> (edges_of (b_present b))\<^sup>*}"
  using descendants_spec [OF assms] ancestors_spec [OF assms] by (auto simp: Image_singleton)

theorem reachability_exact_witness:
  "\<exists>d a. descendants sample_builder (sample_segment CHR ''a'') = Some d \<and> ancestors sample_builder (sample_segment CHR ''a'') = Some a \<and>
    sample_segment CHR ''a'' \<in> set a"
proof -
  from reachability_exact [OF sample_builder_ok sample_builder_segment] obtain d a where
    "descendants sample_builder (sample_segment CHR ''a'') = Some d" "ancestors sample_builder (sample_segment CHR ''a'') = Some a"
    "set a = {x. (x, sample_segment CHR ''a'') \<in> (edges_of (b_present sample_builder))\<^sup>*}" by blast
  then show ?thesis by simp
qed

text \<open>
  C11. A run is reported terminated only with the full structure: one terminal segment, named in the report;
  no cycle and no successor of the terminal segment; every segment sealed and naming its predecessors;
  every named predecessor present with the source, epoch, last sequence and manifest digest the entry
  states; and every segment an ancestor of the terminal one or descended from a declared fork.
\<close>

theorem terminated_run_sound:
  assumes "builder_ok b" and "build b = Some g" and "rg_run_state g = Terminated"
  shows "\<exists>t\<in>set (b_members b). truthy (n_terminal t) \<and> rg_terminal_segment_id g = Some (n_segment_id t) \<and>
    (\<forall>n\<in>set (b_members b). truthy (n_terminal n) \<longrightarrow> n = t) \<and>
    acyclic (edges_of (b_present b)) \<and> (\<forall>v. \<not> names (b_present b) (n_segment_id t) v) \<and>
    (\<forall>n\<in>set (b_members b). seal_state n = Sealed \<and> n_predecessors n \<noteq> [] \<and>
       (\<forall>e\<in>set (entries n). \<exists>m\<in>set (b_members b). n_segment_id m = e_segment_id e \<and> \<not> disagrees e m) \<and>
       ((n_segment_id n, n_segment_id t) \<in> (edges_of (b_present b))\<^sup>* \<or>
        (\<exists>c\<in>all_declared b \<inter> fst ` set (b_present b). (c, n_segment_id n) \<in> (edges_of (b_present b))\<^sup>*)))"
  using terminated_sound [OF assms] unfolding forked_from_def .

theorem terminated_run_sound_witness:
  "\<exists>g t. build sample_builder = Some g \<and> rg_run_state g = Terminated \<and> t \<in> set (b_members sample_builder) \<and>
    rg_terminal_segment_id g = Some (n_segment_id t)"
proof -
  have "map_option rg_run_state (build sample_builder) = Some Terminated" by code_simp
  then obtain g where g: "build sample_builder = Some g" "rg_run_state g = Terminated" by blast
  from terminated_run_sound [OF sample_builder_ok g] g show ?thesis by blast
qed

text \<open>
  C17. The deadline decision is safe under clock error: whatever the true time is within the stated
  uncertainty of the evaluation time, a run called open has not reached its deadline and a run called
  unterminated has; a definite state is given only when the uncertainty is within its bound.
\<close>

theorem deadline_safe_under_clock_error:
  assumes "deadline b = Some d" and "root_of b = Some root" and "n_start_ns root = Some start"
    and "\<bar>e\<bar> \<le> clock_error b root"
  shows "(d_state d = Open_run \<longrightarrow> c_evaluated_ns (b_clocks b) + e < deadline_ns root start) \<and>
    (d_state d = Unterminated \<longrightarrow> deadline_ns root start \<le> c_evaluated_ns (b_clocks b) + e) \<and>
    d_state d \<in> {Open_run, Unterminated, Deadline_uncertain} \<and>
    (d_state d \<noteq> Deadline_uncertain \<longrightarrow> clock_error b root \<le> c_bound_ns (b_clocks b))"
  using assms by (rule deadline_robust)

theorem deadline_safe_under_clock_error_witness:
  "\<exists>d root. deadline sample_builder = Some d \<and> root_of sample_builder = Some root \<and> d_state d = Open_run \<and>
    c_evaluated_ns (b_clocks sample_builder) + 3 < deadline_ns root 1000"
proof -
  have "map_option d_state (deadline sample_builder) = Some Open_run" by code_simp
  then obtain d where d: "deadline sample_builder = Some d" "d_state d = Open_run" by blast
  have "map_option (\<lambda>r. (n_start_ns r, clock_error sample_builder r)) (root_of sample_builder) = Some (Some 1000, 3)" by code_simp
  then obtain r where r: "root_of sample_builder = Some r" "n_start_ns r = Some 1000" "clock_error sample_builder r = 3" by auto
  have "\<bar>3\<bar> \<le> clock_error sample_builder r" using r(3) by simp
  from deadline_safe_under_clock_error [OF d(1) r(1,2) this] d r show ?thesis by blast
qed



end
