(* ===== verification/Scopes.thy ===== *)
theory Scopes
  imports Observations Report
begin

text \<open>
  Run scopes of the verifier (\<^verbatim>\<open>sdk/python/src/fabric/reconstruct/_verify.py\<close>, class \<^verbatim>\<open>_Scope\<close>): the
  \<^verbatim>\<open>run_start\<close> and \<^verbatim>\<open>run_end\<close> markers of one \<^verbatim>\<open>fabric.wire.run()\<close> block and the exchanges and records
  tagged with its scope id. A Python set of markers is a list without repetition. \<^verbatim>\<open>min\<close> of no
  element, which Python raises on, is \<open>None\<close>. The lemmas say exactly which marker sets close a scope
  and when a scope has no problem.
\<close>

datatype scope_state = Scope_closed | Scope_open | Scope_conflict

primrec scope_state_str :: "scope_state \<Rightarrow> string" where
  "scope_state_str Scope_closed = ''closed''"
| "scope_state_str Scope_open = ''open''"
| "scope_state_str Scope_conflict = ''conflict''"

text \<open>(source, run id, last sequence, segment id)\<close>

type_synonym marker = "source_key \<times> string \<times> int \<times> string option"

record scope =
  sc_scope_id :: string
  sc_starts :: "marker list"
  sc_ends :: "marker list"
  sc_exchanges :: "exchange_obs list"
  sc_records :: "record_obs list"
  sc_state :: scope_state
  sc_key :: source_key
  sc_start :: "int option"
  sc_end :: "int option"
  sc_problem :: "string option"

definition new_scope :: "string \<Rightarrow> scope" where
  "new_scope i = \<lparr>sc_scope_id = i, sc_starts = [], sc_ends = [], sc_exchanges = [], sc_records = [],
     sc_state = Scope_open, sc_key = ('''', 0), sc_start = None, sc_end = None, sc_problem = None\<rparr>"

definition marker_entry :: "marker \<Rightarrow> source_key \<times> string" where
  "marker_entry m = (fst m, fst (snd m))"

definition marker_last :: "marker \<Rightarrow> int" where
  "marker_last m = fst (snd (snd m))"

definition marker_segment :: "marker \<Rightarrow> string option" where
  "marker_segment m = snd (snd (snd m))"

definition min_of :: "'a::linorder list \<Rightarrow> 'a option" where
  "min_of xs = (if xs = [] then None else Some (Min (set xs)))"

definition continuation_starts :: "marker list \<Rightarrow> bool" where
  "continuation_starts starts \<longleftrightarrow> None \<notin> marker_segment ` set starts \<and> distinct (map marker_segment starts)"

definition paired_start :: "scope \<Rightarrow> (source_key \<times> string \<times> int) option" where
  "paired_start s =
     (case remdups (map marker_entry (sc_starts s)) of
        [(key, run)] \<Rightarrow>
          if length (sc_starts s) > 1 \<and> \<not> continuation_starts (sc_starts s) then None
          else Some (key, run, Min (set (map marker_last (sc_starts s))))
      | _ \<Rightarrow> None)"

definition exchange_outside :: "source_key \<Rightarrow> string \<Rightarrow> int \<Rightarrow> int \<Rightarrow> exchange_obs \<Rightarrow> bool" where
  "exchange_outside key run low high x \<longleftrightarrow> x_run_id x \<noteq> run \<or> x_source x \<noteq> key \<or>
     \<not> (low < x_source_sequence x \<and> x_source_sequence x \<le> high)"

definition record_outside :: "source_key \<Rightarrow> string \<Rightarrow> int \<Rightarrow> int \<Rightarrow> record_obs \<Rightarrow> bool" where
  "record_outside key run low high r \<longleftrightarrow> r_run_id r \<noteq> Some run \<or> r_source r \<noteq> key \<or>
     \<not> (low < r_source_sequence r \<and> r_source_sequence r \<le> high)"

definition close_scope :: "scope \<Rightarrow> source_key \<Rightarrow> string \<Rightarrow> int \<Rightarrow> int \<Rightarrow> scope" where
  "close_scope s key run low high =
     s\<lparr>sc_state := Scope_closed, sc_key := key, sc_start := Some low, sc_end := Some high,
       sc_problem := (if list_ex (exchange_outside key run low high) (sc_exchanges s)
                      then Some ''exchange_outside_run_markers''
                      else if list_ex (record_outside key run low high) (sc_records s)
                      then Some ''record_outside_run_markers''
                      else sc_problem s)\<rparr>"

definition only :: "'a list \<Rightarrow> 'a option" where
  "only xs = (case remdups xs of [x] \<Rightarrow> Some x | _ \<Rightarrow> None)"

definition lasts_at :: "source_key \<Rightarrow> marker list \<Rightarrow> int list" where
  "lasts_at key ms = map marker_last (filter (\<lambda>m. fst m = key) ms)"

definition scope_sources :: "scope \<Rightarrow> source_key list" where
  "scope_sources s = map fst (sc_starts s @ sc_ends s) @ map x_source (sc_exchanges s) @ map r_source (sc_records s)"

definition unclosed_scope :: "scope \<Rightarrow> scope option" where
  "unclosed_scope s =
     (let paired = paired_start s;
          conflict = sc_starts s \<noteq> [] \<and> sc_ends s \<noteq> [] \<or> sc_starts s \<noteq> [] \<and> paired = None \<or> length (sc_ends s) > 1
      in case min_of (scope_sources s) of
           None \<Rightarrow> None
         | Some key \<Rightarrow> Some
             (s\<lparr>sc_state := (if conflict then Scope_conflict else Scope_open),
                sc_problem := Some (if conflict then ''scope_conflict'' else ''run_not_closed''),
                sc_key := key,
                sc_start := (case paired of
                    Some (k, run, low) \<Rightarrow> if k = key then Some low else only (lasts_at key (sc_starts s))
                  | None \<Rightarrow> only (lasts_at key (sc_starts s))),
                sc_end := only (lasts_at key (sc_ends s))\<rparr>))"

definition finalize_scope :: "scope \<Rightarrow> scope option" where
  "finalize_scope s =
     (case paired_start s of
        Some (key, run, low) \<Rightarrow>
          (case sc_ends s of
             [(end_key, end_run, high, seg)] \<Rightarrow>
               if key = end_key \<and> run = end_run \<and> low \<le> high then Some (close_scope s key run low high)
               else unclosed_scope s
           | _ \<Rightarrow> unclosed_scope s)
      | None \<Rightarrow> unclosed_scope s)"

definition scope_to_json :: "scope \<Rightarrow> int \<Rightarrow> (string \<times> json) list" where
  "scope_to_json s exchanges =
     [(''scope_id'', JStr (sc_scope_id s)), (''source_id'', JStr (fst (sc_key s))),
      (''source_epoch'', JInt (snd (sc_key s))), (''state'', JStr (scope_state_str (sc_state s)))] @
     opt_field ''start_sequence'' JInt (sc_start s) @ opt_field ''end_sequence'' JInt (sc_end s) @
     [(''exchanges'', JInt exchanges)]"

subsection \<open>Which markers close a scope\<close>

text \<open>\<open>pairs s key run low high\<close>: the start markers pair, one end marker answers them.\<close>

definition pairs :: "scope \<Rightarrow> source_key \<Rightarrow> string \<Rightarrow> int \<Rightarrow> int \<Rightarrow> bool" where
  "pairs s key run low high \<longleftrightarrow>
     sc_starts s \<noteq> [] \<and> (\<forall>m\<in>set (sc_starts s). marker_entry m = (key, run)) \<and>
     (length (sc_starts s) = 1 \<or> continuation_starts (sc_starts s)) \<and>
     low \<in> marker_last ` set (sc_starts s) \<and> (\<forall>m\<in>set (sc_starts s). low \<le> marker_last m) \<and>
     (\<exists>seg. sc_ends s = [(key, run, high, seg)]) \<and> low \<le> high"

lemma remdups_singleton_iff: "remdups xs = [x] \<longleftrightarrow> xs \<noteq> [] \<and> (\<forall>y\<in>set xs. y = x)"
proof
  assume "remdups xs = [x]"
  then have "set (remdups xs) = {x}" by (simp only: list.set)
  then have "set xs = {x}" by (simp only: set_remdups)
  moreover from this have "xs \<noteq> []" by force
  ultimately show "xs \<noteq> [] \<and> (\<forall>y\<in>set xs. y = x)" by simp
next
  assume "xs \<noteq> [] \<and> (\<forall>y\<in>set xs. y = x)"
  then have "set xs = {x}" by (cases xs) auto
  then have "set (remdups xs) = {x}" by (simp only: set_remdups)
  moreover from this have "length (remdups xs) = 1" using distinct_card [of "remdups xs"] by (simp del: set_remdups)
  then obtain y where "remdups xs = [y]" by (auto simp: length_Suc_conv)
  ultimately show "remdups xs = [x]" by (simp del: set_remdups)
qed

lemma paired_start_iff:
  "paired_start s = Some (key, run, low) \<longleftrightarrow>
     sc_starts s \<noteq> [] \<and> (\<forall>m\<in>set (sc_starts s). marker_entry m = (key, run)) \<and>
     (length (sc_starts s) = 1 \<or> continuation_starts (sc_starts s)) \<and>
     low \<in> marker_last ` set (sc_starts s) \<and> (\<forall>m\<in>set (sc_starts s). low \<le> marker_last m)"
proof -
  have "paired_start s = Some (key, run, low) \<longleftrightarrow> remdups (map marker_entry (sc_starts s)) = [(key, run)] \<and>
      \<not> (length (sc_starts s) > 1 \<and> \<not> continuation_starts (sc_starts s)) \<and> low = Min (set (map marker_last (sc_starts s)))"
    by (auto simp: paired_start_def split: list.splits prod.splits)
  moreover have "low = Min (set (map marker_last (sc_starts s))) \<longleftrightarrow>
      low \<in> marker_last ` set (sc_starts s) \<and> (\<forall>m\<in>set (sc_starts s). low \<le> marker_last m)" if "sc_starts s \<noteq> []"
    using that by (subst eq_commute, subst Min_eq_iff) auto
  moreover have "length (sc_starts s) > 1 \<longleftrightarrow> length (sc_starts s) \<noteq> 1" if "sc_starts s \<noteq> []"
    using that by (cases "sc_starts s") auto
  ultimately show ?thesis
    unfolding remdups_singleton_iff by auto
qed

lemma pairs_iff:
  "pairs s key run low high \<longleftrightarrow>
     paired_start s = Some (key, run, low) \<and> (\<exists>seg. sc_ends s = [(key, run, high, seg)]) \<and> low \<le> high"
  unfolding pairs_def paired_start_iff by blast

lemma finalize_scope_pairs: "pairs s key run low high \<Longrightarrow> finalize_scope s = Some (close_scope s key run low high)"
  unfolding pairs_iff finalize_scope_def by auto

lemma finalize_scope_unpaired:
  assumes "\<And>key run low high. \<not> pairs s key run low high"
  shows "finalize_scope s = unclosed_scope s"
proof (cases "paired_start s")
  case (Some e)
  obtain key run low where e: "e = (key, run, low)" by (cases e)
  have "\<not> (\<exists>high seg. sc_ends s = [(key, run, high, seg)] \<and> low \<le> high)" using assms Some e unfolding pairs_iff by blast
  then show ?thesis by (auto simp: finalize_scope_def Some e split: list.splits prod.splits)
qed (simp add: finalize_scope_def)

lemma unclosed_scope_fields:
  assumes "unclosed_scope s = Some t"
  shows "sc_state t \<noteq> Scope_closed" "sc_problem t \<noteq> None" "sc_key t = Min (set (scope_sources s))"
    "sc_key t \<in> set (scope_sources s)"
  using assms by (auto simp: unclosed_scope_def Let_def min_of_def split: if_splits option.splits)

lemma unclosed_scope_returns: "scope_sources s \<noteq> [] \<Longrightarrow> \<exists>t. unclosed_scope s = Some t"
  by (simp add: unclosed_scope_def Let_def min_of_def)

lemma finalize_scope_cases:
  assumes "finalize_scope s = Some t"
  obtains key run low high where "pairs s key run low high" "t = close_scope s key run low high"
  | "\<And>key run low high. \<not> pairs s key run low high" "unclosed_scope s = Some t"
  using assms finalize_scope_pairs finalize_scope_unpaired by (metis option.inject)

lemma finalize_scope_returns: "scope_sources s \<noteq> [] \<Longrightarrow> \<exists>t. finalize_scope s = Some t"
  using finalize_scope_pairs finalize_scope_unpaired unclosed_scope_returns by metis

lemma finalize_scope_frame:
  assumes "finalize_scope s = Some t"
  shows "sc_scope_id t = sc_scope_id s" "sc_starts t = sc_starts s" "sc_ends t = sc_ends s"
    "sc_exchanges t = sc_exchanges s" "sc_records t = sc_records s"
  using assms by (cases rule: finalize_scope_cases;
    auto simp: close_scope_def unclosed_scope_def Let_def split: option.splits)+

lemma finalize_scope_closed_iff:
  assumes "finalize_scope s = Some t"
  shows "sc_state t = Scope_closed \<longleftrightarrow>
    (\<exists>key run low high. pairs s key run low high \<and> sc_key t = key \<and> sc_start t = Some low \<and> sc_end t = Some high)"
  using assms
proof (cases rule: finalize_scope_cases)
  case (1 key run low high)
  moreover have "sc_key t = key" "sc_start t = Some low" "sc_end t = Some high" "sc_state t = Scope_closed"
    unfolding 1(2) close_scope_def by simp_all
  ultimately show ?thesis by blast
next
  case 2
  then show ?thesis using unclosed_scope_fields(1) by blast
qed

lemma finalize_scope_clean_iff:
  assumes "finalize_scope s = Some t" and "sc_problem s = None"
  shows "sc_problem t = None \<longleftrightarrow>
    (\<exists>key run low high. pairs s key run low high \<and>
       (\<forall>x\<in>set (sc_exchanges s). x_run_id x = run \<and> x_source x = key \<and> low < x_source_sequence x \<and> x_source_sequence x \<le> high) \<and>
       (\<forall>r\<in>set (sc_records s). r_run_id r = Some run \<and> r_source r = key \<and> low < r_source_sequence r \<and> r_source_sequence r \<le> high))"
  using assms(1)
proof (cases rule: finalize_scope_cases)
  case (1 key run low high)
  have u: "pairs s key' run' low' high' \<longleftrightarrow> key' = key \<and> run' = run \<and> low' = low \<and> high' = high" for key' run' low' high'
    using 1(1) unfolding pairs_iff by auto
  show ?thesis
    unfolding u 1(2) using assms(2)
    by (auto simp: close_scope_def list_ex_iff exchange_outside_def record_outside_def)
next
  case 2
  then show ?thesis using unclosed_scope_fields(2) by blast
qed

end
