(* ===== verification/Objects.thy ===== *)
theory Objects
  imports Observations Report
begin

text \<open>
  The outcome of reading one stored object (\<^verbatim>\<open>sdk/python/src/fabric/reconstruct/_objects.py\<close>: class
  \<^verbatim>\<open>ObjectResult\<close>), which the seal check and the body checks of a run consume. Bytes are character lists.
\<close>

datatype verification = Verified | Missing_obj | Digest_mismatch_obj | Not_stored | Not_checked

primrec verification_str :: "verification \<Rightarrow> string" where
  "verification_str Verified = ''verified''"
| "verification_str Missing_obj = ''missing''"
| "verification_str Digest_mismatch_obj = ''digest_mismatch''"
| "verification_str Not_stored = ''not_stored''"
| "verification_str Not_checked = ''not_checked''"

record object_result =
  or_verification :: verification
  or_object_id :: "string option"
  or_sha256 :: "string option"
  or_byte_length :: "int option"
  or_reason :: "string option"
  or_data :: "string option"
  or_media_type :: "string option"
  or_content_encoding :: string
  or_truncated :: bool
  or_source_authenticated :: bool
  or_split :: "(string \<times> int) option"
  or_parts_authenticated :: bool
  or_descriptor :: "(string \<times> json) list option"

definition object_outcome :: "verification \<Rightarrow> object_result" where
  "object_outcome v = \<lparr>or_verification = v, or_object_id = None, or_sha256 = None, or_byte_length = None, or_reason = None,
     or_data = None, or_media_type = None, or_content_encoding = ''identity'', or_truncated = False,
     or_source_authenticated = False, or_split = None, or_parts_authenticated = True, or_descriptor = None\<rparr>"

definition object_to_json :: "object_result \<Rightarrow> (string \<times> json) list" where
  "object_to_json r = opt_field ''object_id'' JStr (or_object_id r) @ opt_field ''sha256'' JStr (or_sha256 r) @
     opt_field ''byte_length'' JInt (or_byte_length r) @ [(''verification'', JStr (verification_str (or_verification r)))]"

end
