(* ===== verification/CollectRules.thy ===== *)
theory CollectRules
  imports Collect
begin

text \<open>
  What the collected state says. \<open>below\<close> orders states by what has been recorded; every operation is
  inflationary for it, an observation is \<open>absorbed\<close> once it was added, and adding an absorbed
  observation changes nothing: at-least-once delivery is harmless. \<open>exact\<close> relates the state to the
  labelled observations processed so far.
\<close>

subsection \<open>One step per labelled observation\<close>

definition step :: "observation \<Rightarrow> verifier \<Rightarrow> verifier" where
  "step ob v = dispatch ob (stamp ob v)"

definition effects :: "hash \<Rightarrow> observation \<Rightarrow> observation list option" where
  "effects H ob =
     (case labels H ob of
        None \<Rightarrow> None
      | Some (Malformed_marker_obs m) \<Rightarrow>
          (case mm_heartbeat m of
             None \<Rightarrow> Some [Malformed_marker_obs m]
           | Some h \<Rightarrow> map_option (\<lambda>h'. [Malformed_marker_obs m, Heartbeat_obs h']) (label_heartbeat H h))
      | Some ob' \<Rightarrow> Some [ob'])"

lemma add_effects: "add H ob v = map_option (\<lambda>es. fold step es v) (effects H ob)"
  by (auto simp: add_def effects_def step_def Let_def option.map_comp comp_def split: option.splits observation.splits)

lemma collect_effects:
  "collect H obs v = map_option (\<lambda>ess. fold step (concat ess) v) (those (map (effects H) obs))"
  by (induction obs arbitrary: v) (auto simp: add_effects map_option_case split: option.splits)

subsection \<open>Growth\<close>

definition below :: "verifier \<Rightarrow> verifier \<Rightarrow> bool" where
  "below v w \<longleftrightarrow>
     (\<forall>i xs. map_of (v_observations v) i = Some xs \<longrightarrow> (\<exists>ys. map_of (v_observations w) i = Some ys \<and> set xs \<subseteq> set ys)) \<and>
     set (v_records v) \<subseteq> set (v_records w) \<and> set (v_heartbeats v) \<subseteq> set (v_heartbeats w) \<and>
     set (v_seals v) \<subseteq> set (v_seals w) \<and> set (v_malformed_scopes v) \<subseteq> set (v_malformed_scopes w) \<and>
     set (v_unstamped_sources v) \<subseteq> set (v_unstamped_sources w) \<and>
     set (v_unstamped_exchanges v) \<subseteq> set (v_unstamped_exchanges w) \<and> (v_stamp_observed v \<longrightarrow> v_stamp_observed w) \<and>
     (\<forall>k s. map_of (v_sources v) k = Some s \<longrightarrow>
        (\<exists>t. map_of (v_sources w) k = Some t \<and> set (s_losses s) \<subseteq> set (s_losses t) \<and> s_heartbeat s \<le> s_heartbeat t)) \<and>
     (\<forall>k g. map_of (v_segments v) k = Some g \<longrightarrow> (\<exists>f. map_of (v_segments w) k = Some f \<and> set (g_losses g) \<subseteq> set (g_losses f))) \<and>
     (\<forall>k n. map_of (v_manifest_claims v) k = Some n \<longrightarrow> (\<exists>m. map_of (v_manifest_claims w) k = Some m \<and> n \<le> m)) \<and>
     (\<forall>k ms. map_of (v_manifest_obs v) k = Some ms \<longrightarrow> (\<exists>ns. map_of (v_manifest_obs w) k = Some ns \<and> set ms \<subseteq> set ns))"

lemma below_refl [simp, intro]: "below v v"
  by (auto simp: below_def)

lemma below_trans: "below u v \<Longrightarrow> below v w \<Longrightarrow> below u w"
  unfolding below_def by (elim conjE, intro conjI) (blast | meson order_trans subset_trans)+

lemma belowD:
  assumes "below v w"
  shows "map_of (v_observations v) i = Some xs \<Longrightarrow> \<exists>ys. map_of (v_observations w) i = Some ys \<and> set xs \<subseteq> set ys"
    and "map_of (v_sources v) k = Some s \<Longrightarrow>
      \<exists>t. map_of (v_sources w) k = Some t \<and> set (s_losses s) \<subseteq> set (s_losses t) \<and> s_heartbeat s \<le> s_heartbeat t"
    and "map_of (v_segments v) i = Some g \<Longrightarrow> \<exists>f. map_of (v_segments w) i = Some f \<and> set (g_losses g) \<subseteq> set (g_losses f)"
    and "map_of (v_manifest_claims v) k = Some n \<Longrightarrow> \<exists>m. map_of (v_manifest_claims w) k = Some m \<and> n \<le> m"
    and "map_of (v_manifest_obs v) k = Some ms \<Longrightarrow> \<exists>ns. map_of (v_manifest_obs w) k = Some ns \<and> set ms \<subseteq> set ns"
    and "set (v_records v) \<subseteq> set (v_records w)" and "set (v_heartbeats v) \<subseteq> set (v_heartbeats w)"
    and "set (v_seals v) \<subseteq> set (v_seals w)" and "set (v_malformed_scopes v) \<subseteq> set (v_malformed_scopes w)"
    and "set (v_unstamped_sources v) \<subseteq> set (v_unstamped_sources w)"
    and "set (v_unstamped_exchanges v) \<subseteq> set (v_unstamped_exchanges w)" and "v_stamp_observed v \<Longrightarrow> v_stamp_observed w"
  using assms unfolding below_def by (simp_all del: split_paired_All)

lemma below_on_source:
  assumes "\<And>s. set (s_losses s) \<subseteq> set (s_losses (f s)) \<and> s_heartbeat s \<le> s_heartbeat (f s)"
  shows "below v (on_source k f v)"
  using assms by (auto simp: below_def on_source_def map_of_upd_at get_or_def)

lemma below_on_segment:
  assumes "\<And>g. set (g_losses g) \<subseteq> set (g_losses (f g))"
  shows "below v (on_segment k f v)"
  using assms by (auto simp: below_def on_segment_def map_of_upd_at get_or_def)

lemma below_frames:
  "below v (on_scope i run f v)" "below v (claim k n who v)" "below v (refer_manifest ref v)"
  "below v (count_exchange x v)"
  by (auto simp: below_def on_scope_def claim_def refer_manifest_def count_exchange_def)

lemma below_stamp: "below v (stamp ob v)"
  by (cases ob) (auto simp: below_def stamp_source_def)

lemma below_claim_manifest: "below v (claim_manifest k n v)"
  by (auto simp: below_def claim_manifest_def map_of_upd_at get_or_def split: option.splits)

lemma below_when_some: "below u v \<Longrightarrow> (\<And>x. below v (f x v)) \<Longrightarrow> below u (when_some ob f v)"
  using below_trans by (auto simp: when_some_def split: option.splits)

lemma below_heartbeat: "below v (on_source k (allocated_to n) v)"
  by (rule below_on_source) (simp add: allocated_to_def)

lemma below_add_exchange: "below v (add_exchange x v)"
proof -
  let ?seen = "get_or (v_observations v) (x_exchange_id x) []"
  let ?v0 = "v\<lparr>v_observations := setdefault (v_observations v) (x_exchange_id x) []\<rparr>"
  let ?v1 = "?v0\<lparr>v_observations := upd_at (v_observations ?v0) (x_exchange_id x) [] (\<lambda>xs. xs @ [x]),
    v_conflicts := (if ?seen \<noteq> [] then add_new (x_exchange_id x) (v_conflicts ?v0) else v_conflicts ?v0)\<rparr>"
  have 0: "below v ?v0" by (auto simp: below_def map_of_setdefault)
  have "below ?v0 ?v1" by (auto simp: below_def map_of_upd_at get_or_def)
  with 0 have 1: "below v ?v1" by (rule below_trans)
  have 2: "below ?v1 (count_exchange x (on_source (x_source x) (fill (x_source_sequence x)) ?v1))"
    using below_frames(4) by (rule below_trans [rotated]) (rule below_on_source, simp add: fill_def)
  have 3: "below v (claim (x_source x) (x_source_sequence x) (x_exchange_id x)
      (count_exchange x (on_source (x_source x) (fill (x_source_sequence x)) ?v1)))"
    using below_trans [OF below_trans [OF 1 2] below_frames(2)] .
  show ?thesis
    unfolding add_exchange_def Let_def
    by (cases "exchange_ident x \<in> exchange_ident ` set ?seen")
      (simp_all only: if_True if_False 0, intro below_when_some 3 below_frames(1) below_on_segment, simp)
qed

lemma below_add_record: "below v (add_record r v)"
proof -
  have 1: "below v (v\<lparr>v_records := v_records v @ [r]\<rparr>)" by (auto simp: below_def)
  have 2: "below w (w\<lparr>v_run_records := f (v_run_records w)\<rparr>)" for w f by (auto simp: below_def)
  have 3: "below v (claim (r_source r) (r_source_sequence r) (''record:'' @ r_fingerprint r)
      (on_source (r_source r) (fill (r_source_sequence r)) (v\<lparr>v_records := v_records v @ [r]\<rparr>)))"
    by (rule below_trans [OF below_trans [OF 1] below_frames(2)], rule below_on_source) (simp add: fill_def)
  show ?thesis
    unfolding add_record_def Let_def
    by (cases "record_ident r \<in> record_ident ` set (v_records v)")
      (simp_all only: if_True if_False below_refl, intro below_when_some 3 below_frames(1) below_on_segment 2 below_refl, simp)
qed

lemma below_add_seal: "below v (add_seal s v)"
proof -
  let ?v0 = "claim_manifest (ss_source s) (ss_manifest_seq s) v"
  have "below ?v0 (?v0\<lparr>v_seals := v_seals ?v0 @ [s]\<rparr>)" by (auto simp: below_def)
  with below_claim_manifest have "below v (?v0\<lparr>v_seals := v_seals ?v0 @ [s]\<rparr>)" by (rule below_trans)
  then have "below v (on_source (ss_source s) (allocated_to (ss_last_sequence s)) (?v0\<lparr>v_seals := v_seals ?v0 @ [s]\<rparr>))"
    by (rule below_trans) (rule below_heartbeat)
  then have "below v (on_segment (ss_segment_id s) (\<lambda>g. g\<lparr>g_seals := add_by seal_ident s (g_seals g)\<rparr>)
      (on_source (ss_source s) (allocated_to (ss_last_sequence s)) (?v0\<lparr>v_seals := v_seals ?v0 @ [s]\<rparr>)))"
    by (rule below_trans) (rule below_on_segment, simp)
  then show ?thesis
    unfolding add_seal_def Let_def using below_claim_manifest
    by (auto intro!: below_when_some below_frames(3))
qed

lemma below_run_marker: "below v (run_marker h i run v)"
  unfolding run_marker_def Let_def
  by (intro below_when_some below_frames below_on_segment) (simp split: if_splits)

lemma below_add_heartbeat: "below v (add_heartbeat h v)"
proof -
  let ?v0 = "claim_manifest (h_source h) (h_manifest_seq h) v"
  let ?v1 = "on_source (h_source h) (allocated_to (h_last_sequence h)) (?v0\<lparr>v_heartbeats := v_heartbeats ?v0 @ [h]\<rparr>)"
  have "below ?v0 (?v0\<lparr>v_heartbeats := v_heartbeats ?v0 @ [h]\<rparr>)" by (auto simp: below_def)
  with below_claim_manifest have "below v (?v0\<lparr>v_heartbeats := v_heartbeats ?v0 @ [h]\<rparr>)" by (rule below_trans)
  then have 1: "below v ?v1" by (rule below_trans) (rule below_heartbeat)
  moreover have "below ?v1 (on_source (h_source h) (finish_at (h_last_sequence h)) ?v1)"
    by (rule below_on_source) (simp add: finish_at_def)
  moreover have "below ?v1 (?v1\<lparr>v_periodic := p\<rparr>)" for p by (auto simp: below_def)
  ultimately show ?thesis
    unfolding add_heartbeat_def Let_def using below_claim_manifest
    by (auto intro: below_trans intro!: below_when_some [OF 1] below_when_some below_run_marker)
qed

lemma below_add_loss: "below v (add_loss l v)"
  unfolding add_loss_def
  by (intro below_when_some below_on_source below_on_segment) (auto simp: add_by_def)

lemma below_add_manifest: "below v (add_manifest m v)"
proof -
  have "below v (v\<lparr>v_manifest_obs := upd_at (v_manifest_obs v) (m_source m) [] (add_by manifest_ident m)\<rparr>)"
    by (auto simp: below_def map_of_upd_at get_or_def add_by_def)
  then show ?thesis unfolding add_manifest_def by (rule below_trans) (rule below_heartbeat)
qed

lemma below_dispatch: "below v (dispatch ob v)"
  by (cases ob) (simp_all add: below_add_exchange below_add_record below_add_loss below_add_seal
      below_add_manifest below_add_heartbeat, auto simp: below_def)

lemma below_step: "below v (step ob v)"
  unfolding step_def using below_stamp below_dispatch by (rule below_trans)

lemma below_fold: "below v (fold step es v)"
  by (induction es arbitrary: v) (auto intro: below_trans below_step)

subsection \<open>Retries\<close>

definition stamped :: "bool \<Rightarrow> source_key \<Rightarrow> verifier \<Rightarrow> bool" where
  "stamped authenticated key v \<longleftrightarrow> (if authenticated then v_stamp_observed v else key \<in> set (v_unstamped_sources v))"

definition claimed :: "source_key \<Rightarrow> int option \<Rightarrow> verifier \<Rightarrow> bool" where
  "claimed key seq v \<longleftrightarrow> (\<forall>n. seq = Some n \<longrightarrow> (\<exists>m. map_of (v_manifest_claims v) key = Some m \<and> n \<le> m))"

fun absorbed :: "observation \<Rightarrow> verifier \<Rightarrow> bool" where
  "absorbed (Exchange_obs x) v \<longleftrightarrow>
     (if x_authenticated x then v_stamp_observed v else x_exchange_id x \<in> set (v_unstamped_exchanges v)) \<and>
     (\<exists>xs. map_of (v_observations v) (x_exchange_id x) = Some xs \<and> exchange_ident x \<in> exchange_ident ` set xs)"
| "absorbed (Record_obs r) v \<longleftrightarrow> stamped (r_authenticated r) (r_source r) v \<and> record_ident r \<in> record_ident ` set (v_records v)"
| "absorbed (Loss_obs l) v \<longleftrightarrow> stamped (l_authenticated l) (l_source l) v \<and>
     (\<exists>s. map_of (v_sources v) (l_source l) = Some s \<and> loss_ident l \<in> loss_ident ` set (s_losses s)) \<and>
     (\<forall>i. l_segment_id l = Some i \<longrightarrow> (\<exists>g. map_of (v_segments v) i = Some g \<and> loss_ident l \<in> loss_ident ` set (g_losses g)))"
| "absorbed (Segment_seal_obs s) v \<longleftrightarrow> stamped (ss_authenticated s) (ss_source s) v \<and>
     claimed (ss_source s) (ss_manifest_seq s) v \<and> seal_ident s \<in> seal_ident ` set (v_seals v)"
| "absorbed (Manifest_obs m) v \<longleftrightarrow> stamped (m_authenticated m) (m_source m) v \<and>
     (\<exists>ms. map_of (v_manifest_obs v) (m_source m) = Some ms \<and> manifest_ident m \<in> manifest_ident ` set ms) \<and>
     (\<exists>s. map_of (v_sources v) (m_source m) = Some s \<and> m_after_source_sequence m \<le> s_heartbeat s)"
| "absorbed (Heartbeat_obs h) v \<longleftrightarrow> stamped (h_authenticated h) (h_source h) v \<and>
     claimed (h_source h) (h_manifest_seq h) v \<and> heartbeat_ident h \<in> heartbeat_ident ` set (v_heartbeats v)"
| "absorbed (Malformed_marker_obs m) v \<longleftrightarrow> mm_scope_id m \<in> set (v_malformed_scopes v)"

lemma stamped_below: "stamped a k v \<Longrightarrow> below v w \<Longrightarrow> stamped a k w"
  using belowD(10,12) by (auto simp: stamped_def split: if_splits)

lemma claimed_below:
  assumes "claimed k seq v" and "below v w"
  shows "claimed k seq w"
  unfolding claimed_def
proof (intro allI impI)
  fix n assume "seq = Some n"
  then obtain m where m: "map_of (v_manifest_claims v) k = Some m" "n \<le> m" using assms(1) by (auto simp: claimed_def)
  from belowD(4) [OF assms(2) m(1)] m(2) show "\<exists>m. map_of (v_manifest_claims w) k = Some m \<and> n \<le> m" by auto
qed

lemma absorbed_below:
  assumes "absorbed ob v" and b: "below v w"
  shows "absorbed ob w"
proof (cases ob)
  case (Exchange_obs x)
  then obtain xs where xs: "map_of (v_observations v) (x_exchange_id x) = Some xs" "exchange_ident x \<in> exchange_ident ` set xs"
    using assms(1) by auto
  from belowD(1) [OF b xs(1)] xs(2) show ?thesis
    using Exchange_obs assms(1) belowD(11,12) [OF b] by (auto split: if_splits)
next
  case (Loss_obs l)
  then obtain s where s: "map_of (v_sources v) (l_source l) = Some s" "loss_ident l \<in> loss_ident ` set (s_losses s)"
    using assms(1) by auto
  have seg: "\<exists>g. map_of (v_segments w) i = Some g \<and> loss_ident l \<in> loss_ident ` set (g_losses g)" if i: "l_segment_id l = Some i" for i
  proof -
    obtain g where g: "map_of (v_segments v) i = Some g" "loss_ident l \<in> loss_ident ` set (g_losses g)"
      using assms(1) Loss_obs i by auto
    from belowD(3) [OF b g(1)] g(2) show ?thesis by blast
  qed
  from belowD(2) [OF b s(1)] s(2) seg show ?thesis using Loss_obs assms(1) stamped_below [OF _ b] by auto
next
  case (Manifest_obs m)
  then obtain ms s where m: "map_of (v_manifest_obs v) (m_source m) = Some ms" "manifest_ident m \<in> manifest_ident ` set ms"
    "map_of (v_sources v) (m_source m) = Some s" "m_after_source_sequence m \<le> s_heartbeat s" using assms(1) by auto
  from belowD(5) [OF b m(1)] belowD(2) [OF b m(3)] m(2,4) show ?thesis
    using Manifest_obs assms(1) stamped_below [OF _ b] by fastforce
next
  case (Heartbeat_obs h)
  then show ?thesis using assms(1) stamped_below [OF _ b] claimed_below [OF _ b] belowD(7) [OF b] by auto
next
  case (Segment_seal_obs h)
  then show ?thesis using assms(1) stamped_below [OF _ b] claimed_below [OF _ b] belowD(8) [OF b] by auto
next
  case (Record_obs r)
  then show ?thesis using assms(1) stamped_below [OF _ b] belowD(6) [OF b] by auto
next
  case (Malformed_marker_obs m)
  then show ?thesis using assms(1) belowD(9) [OF b] by auto
qed

lemma stamp_absorbed: "stamped a k (stamp_source a k v)" "stamped a k v \<Longrightarrow> stamp_source a k v = v"
  by (auto simp: stamped_def stamp_source_def)

lemma absorbed_step_same:
  assumes "absorbed ob v"
  shows "step ob v = v"
proof (cases ob)
  case (Exchange_obs x)
  then have "stamp ob v = v" using assms by auto
  moreover have "add_exchange x v = v"
    using assms Exchange_obs by (auto simp: add_exchange_def Let_def get_or_def setdefault_def)
  ultimately show ?thesis using Exchange_obs by (simp add: step_def)
next
  case (Segment_seal_obs s)
  have "claim_manifest k n v = v" if "claimed k n v" for k n
    using that by (auto simp: claimed_def claim_manifest_def upd_at_same split: option.splits)
  then show ?thesis using assms Segment_seal_obs by (simp add: step_def stamp_absorbed add_seal_def)
next
  case (Heartbeat_obs h)
  have "claim_manifest k n v = v" if "claimed k n v" for k n
    using that by (auto simp: claimed_def claim_manifest_def upd_at_same split: option.splits)
  then show ?thesis using assms Heartbeat_obs by (simp add: step_def stamp_absorbed add_heartbeat_def)
next
  case (Manifest_obs m)
  then show ?thesis using assms
    by (auto simp: step_def stamp_absorbed add_manifest_def on_source_def upd_at_same add_by_def allocated_to_def max_def)
next
  case (Loss_obs l)
  then show ?thesis using assms
    by (auto simp: step_def stamp_absorbed add_loss_def on_source_def on_segment_def when_some_def upd_at_same add_by_def
        split: option.splits)
qed (use assms in \<open>auto simp: step_def stamp_absorbed add_record_def\<close>)

lemma claimed_claim_manifest: "claimed k n (claim_manifest k n v)"
  by (auto simp: claimed_def claim_manifest_def map_of_upd_at get_or_def)

lemma absorbed_heartbeat_step: "claimed (h_source h) (h_manifest_seq h) (add_heartbeat h v) \<and>
    heartbeat_ident h \<in> heartbeat_ident ` set (v_heartbeats (add_heartbeat h v))"
proof -
  let ?v0 = "claim_manifest (h_source h) (h_manifest_seq h) v"
  let ?v1 = "on_source (h_source h) (allocated_to (h_last_sequence h)) (?v0\<lparr>v_heartbeats := v_heartbeats ?v0 @ [h]\<rparr>)"
  have c: "claimed (h_source h) (h_manifest_seq h) ?v0" by (rule claimed_claim_manifest)
  have "below ?v0 ?v1" by (rule below_trans [OF _ below_heartbeat]) (auto simp: below_def)
  with c have 1: "claimed (h_source h) (h_manifest_seq h) ?v1" "heartbeat_ident h \<in> heartbeat_ident ` set (v_heartbeats ?v1)"
    by (auto intro: claimed_below simp: on_source_def)
  have mono: "claimed (h_source h) (h_manifest_seq h) w \<and> heartbeat_ident h \<in> heartbeat_ident ` set (v_heartbeats w)"
    if "below ?v1 w" for w using 1 claimed_below [OF 1(1) that] belowD(7) [OF that] by auto
  have "below ?v1 (on_source (h_source h) (finish_at (h_last_sequence h)) ?v1)"
    by (rule below_on_source) (simp add: finish_at_def)
  moreover have "below ?v1 (?v1\<lparr>v_periodic := p\<rparr>)" for p by (auto simp: below_def)
  moreover have "below ?v1 (when_some (h_scope_id h) (\<lambda>i. when_some (h_run_id h) (\<lambda>run. run_marker h i run)) ?v1)"
    by (intro below_when_some below_refl below_run_marker)
  ultimately show ?thesis using c mono unfolding add_heartbeat_def Let_def by auto
qed

lemma absorbed_seal_step: "claimed (ss_source s) (ss_manifest_seq s) (add_seal s v) \<and>
    seal_ident s \<in> seal_ident ` set (v_seals (add_seal s v))"
proof -
  let ?v0 = "claim_manifest (ss_source s) (ss_manifest_seq s) v"
  let ?v1 = "?v0\<lparr>v_seals := v_seals ?v0 @ [s]\<rparr>"
  let ?v2 = "on_segment (ss_segment_id s) (\<lambda>g. g\<lparr>g_seals := add_by seal_ident s (g_seals g)\<rparr>)
    (on_source (ss_source s) (allocated_to (ss_last_sequence s)) ?v1)"
  have c: "claimed (ss_source s) (ss_manifest_seq s) ?v0" by (rule claimed_claim_manifest)
  have "below ?v0 ?v1" by (auto simp: below_def)
  with c have 1: "claimed (ss_source s) (ss_manifest_seq s) ?v1" "seal_ident s \<in> seal_ident ` set (v_seals ?v1)"
    by (auto intro: claimed_below)
  have "below ?v1 ?v2" by (rule below_trans [OF below_heartbeat]) (rule below_on_segment, simp)
  then have "below ?v1 (when_some (ss_manifest_digest s) (\<lambda>d. when_some (ss_run_id s)
      (\<lambda>run. refer_manifest (run, ss_source s, d, ss_scope_id s))) ?v2)"
    by (rule below_when_some) (intro below_when_some below_refl below_frames(3))
  from claimed_below [OF 1(1) this] belowD(8) [OF this] 1(2) c show ?thesis
    unfolding add_seal_def Let_def by auto
qed

lemma step_absorbs: "absorbed ob (step ob v)"
proof -
  have st: "stamped a k (dispatch ob (stamp_source a k v))" for a k
    using stamp_absorbed(1) below_dispatch by (rule stamped_below)
  show ?thesis
  proof (cases ob)
    case (Exchange_obs x)
    let ?w = "stamp ob v"
    have "if x_authenticated x then v_stamp_observed ?w else x_exchange_id x \<in> set (v_unstamped_exchanges ?w)"
      using Exchange_obs by simp
    then have a: "if x_authenticated x then v_stamp_observed (step ob v) else x_exchange_id x \<in> set (v_unstamped_exchanges (step ob v))"
      using belowD(11,12) [OF below_dispatch, of ?w ob] unfolding step_def by (auto split: if_splits)
    have "\<exists>xs. map_of (v_observations (add_exchange x ?w)) (x_exchange_id x) = Some xs \<and> exchange_ident x \<in> exchange_ident ` set xs"
      by (auto simp: add_exchange_def Let_def when_some_def on_scope_def on_segment_def claim_def count_exchange_def
          on_source_def map_of_upd_at map_of_setdefault get_or_def split: option.splits)
    then show ?thesis using a unfolding step_def Exchange_obs absorbed.simps dispatch.simps by blast
  next
    case (Record_obs r)
    have "record_ident r \<in> record_ident ` set (v_records (add_record r w))" for w
      by (auto simp: add_record_def Let_def when_some_def on_scope_def on_segment_def claim_def on_source_def split: option.splits)
    with st Record_obs show ?thesis by (auto simp: step_def)
  next
    case (Loss_obs l)
    with st show ?thesis
      by (auto simp: step_def add_loss_def when_some_def on_source_def on_segment_def map_of_upd_at add_by_def split: option.splits)
  next
    case (Manifest_obs m)
    with st show ?thesis
      by (auto simp: step_def add_manifest_def on_source_def map_of_upd_at allocated_to_def add_by_def)
  next
    case (Heartbeat_obs h)
    with st absorbed_heartbeat_step show ?thesis by (simp add: step_def)
  next
    case (Segment_seal_obs s)
    with st absorbed_seal_step show ?thesis by (simp add: step_def)
  qed (simp add: step_def)
qed

lemma fold_absorbs: "ob \<in> set es \<Longrightarrow> absorbed ob (fold step es v)"
proof (induction es arbitrary: v)
  case (Cons e es)
  then show ?case using absorbed_below [OF step_absorbs below_fold] by (cases "ob = e") auto
qed simp

lemma fold_absorbed_same: "\<forall>ob\<in>set es. absorbed ob v \<Longrightarrow> fold step es v = v"
  by (induction es) (auto simp: absorbed_step_same)

lemma collect_retry:
  assumes c: "collect H obs v = Some w" and ob: "ob \<in> set obs"
  shows "add H ob w = Some w"
proof -
  obtain ess where ess: "those (map (effects H) obs) = Some ess" and w: "w = fold step (concat ess) v"
    using c by (auto simp: collect_effects)
  have "\<exists>es\<in>set ess. effects H ob = Some es"
    using ess ob by (induction obs arbitrary: ess) (auto split: option.splits)
  then obtain es where es: "es \<in> set ess" "effects H ob = Some es" by blast
  have "absorbed e w" if "e \<in> set es" for e
    unfolding w using that es(1) by (intro fold_absorbs) auto
  then have "fold step es w = w" by (intro fold_absorbed_same) blast
  then show ?thesis using es(2) by (simp add: add_effects)
qed

subsection \<open>What has been recorded\<close>

fun position :: "observation \<Rightarrow> (source_key \<times> int) option" where
  "position (Exchange_obs x) = Some (x_source x, x_source_sequence x)"
| "position (Record_obs r) = Some (r_source r, r_source_sequence r)"
| "position _ = None"

fun claimant :: "observation \<Rightarrow> string" where
  "claimant (Exchange_obs x) = x_exchange_id x"
| "claimant (Record_obs r) = ''record:'' @ r_fingerprint r"
| "claimant _ = []"

definition at :: "observation list \<Rightarrow> source_key \<times> int \<Rightarrow> observation set" where
  "at es p = {ob \<in> set es. position ob = Some p}"

definition exchanges_of :: "observation list \<Rightarrow> string \<Rightarrow> exchange_obs set" where
  "exchanges_of es i = {x. Exchange_obs x \<in> set es \<and> x_exchange_id x = i}"

abbreviation src :: "verifier \<Rightarrow> source_key \<Rightarrow> source" where
  "src v k \<equiv> get_or (v_sources v) k (new_source k)"

definition exact :: "observation list \<Rightarrow> verifier \<Rightarrow> bool" where
  "exact es v \<longleftrightarrow>
     (\<forall>k n. n \<in> set (s_sequences (src v k)) \<longleftrightarrow> at es (k, n) \<noteq> {}) \<and>
     (\<forall>p. set (get_or (v_claims v) p []) = claimant ` at es p) \<and>
     (\<forall>i. exchange_ident ` set (get_or (v_observations v) i []) = exchange_ident ` exchanges_of es i \<and>
          distinct (map exchange_ident (get_or (v_observations v) i [])) \<and>
          (i \<in> set (v_conflicts v) \<longleftrightarrow> length (get_or (v_observations v) i []) > 1)) \<and>
     record_ident ` set (v_records v) = record_ident ` {r. Record_obs r \<in> set es}"

lemma exchange_ident_eq:
  assumes "exchange_ident x = exchange_ident y"
  shows "x_exchange_id x = x_exchange_id y" "x_source x = x_source y" "x_source_sequence x = x_source_sequence y"
    "x_run_id x = x_run_id y" "x_scope_id x = x_scope_id y"
  using arg_cong [OF assms, of x_exchange_id] arg_cong [OF assms, of x_source_id] arg_cong [OF assms, of x_source_epoch]
    arg_cong [OF assms, of x_source_sequence] arg_cong [OF assms, of x_run_id] arg_cong [OF assms, of x_scope_id]
  by (simp_all add: exchange_ident_def x_source_def)

lemma record_ident_eq:
  assumes "record_ident x = record_ident y"
  shows "r_fingerprint x = r_fingerprint y" "r_source x = r_source y" "r_source_sequence x = r_source_sequence y"
    "r_run_id x = r_run_id y" "r_scope_id x = r_scope_id y"
  using arg_cong [OF assms, of r_fingerprint] arg_cong [OF assms, of r_source_id] arg_cong [OF assms, of r_source_epoch]
    arg_cong [OF assms, of r_source_sequence] arg_cong [OF assms, of r_run_id] arg_cong [OF assms, of r_scope_id]
  by (simp_all add: record_ident_def r_source_def)

lemma at_snoc: "at (es @ [ob]) p = (if position ob = Some p then insert ob (at es p) else at es p)"
  by (auto simp: at_def)

lemma at_retry:
  assumes "ob' \<in> set es" "position ob' = position ob" "claimant ob' = claimant ob"
  shows "claimant ` at (es @ [ob]) p = claimant ` at es p" "at (es @ [ob]) p = {} \<longleftrightarrow> at es p = {}"
proof -
  have "ob' \<in> at es p" if "position ob = Some p" using assms that by (simp add: at_def)
  then show "claimant ` at (es @ [ob]) p = claimant ` at es p" "at (es @ [ob]) p = {} \<longleftrightarrow> at es p = {}"
    unfolding at_snoc using imageI [of ob' "at es p" claimant] by (auto simp: assms(3) insert_absorb)
qed

lemma exchanges_of_snoc:
  "exchanges_of (es @ [ob]) i = (case ob of Exchange_obs x \<Rightarrow> if x_exchange_id x = i then insert x (exchanges_of es i) else exchanges_of es i
     | _ \<Rightarrow> exchanges_of es i)"
  by (auto simp: exchanges_of_def split: observation.splits)

lemmas op_defs = when_some_def on_scope_def on_segment_def claim_def count_exchange_def on_source_def
  refer_manifest_def claim_manifest_def run_marker_def stamp_source_def

lemma stamp_frame [simp]:
  "v_sources (stamp ob v) = v_sources v" "v_claims (stamp ob v) = v_claims v"
  "v_observations (stamp ob v) = v_observations v" "v_conflicts (stamp ob v) = v_conflicts v"
  "v_records (stamp ob v) = v_records v" "v_scopes (stamp ob v) = v_scopes v" "v_segments (stamp ob v) = v_segments v"
  "v_seals (stamp ob v) = v_seals v" "v_heartbeats (stamp ob v) = v_heartbeats v"
  "v_manifest_obs (stamp ob v) = v_manifest_obs v" "v_manifest_claims (stamp ob v) = v_manifest_claims v"
  "v_periodic (stamp ob v) = v_periodic v"
  by (cases ob; simp add: stamp_source_def)+

lemma stamp_source_frame [simp]:
  "v_sources (stamp_source a k v) = v_sources v" "v_claims (stamp_source a k v) = v_claims v"
  "v_observations (stamp_source a k v) = v_observations v" "v_conflicts (stamp_source a k v) = v_conflicts v"
  "v_records (stamp_source a k v) = v_records v" "v_scopes (stamp_source a k v) = v_scopes v"
  "v_segments (stamp_source a k v) = v_segments v" "v_seals (stamp_source a k v) = v_seals v"
  "v_heartbeats (stamp_source a k v) = v_heartbeats v" "v_manifest_obs (stamp_source a k v) = v_manifest_obs v"
  "v_manifest_claims (stamp_source a k v) = v_manifest_claims v" "v_periodic (stamp_source a k v) = v_periodic v"
  by (simp_all add: stamp_source_def)

lemma add_exchange_fresh:
  assumes "exchange_ident x \<notin> exchange_ident ` set (get_or (v_observations v) (x_exchange_id x) [])"
  shows "v_sources (add_exchange x v) = upd_at (v_sources v) (x_source x) (new_source (x_source x)) (fill (x_source_sequence x))"
    "v_claims (add_exchange x v) = upd_at (v_claims v) (x_source x, x_source_sequence x) [] (add_new (x_exchange_id x))"
    "get_or (v_observations (add_exchange x v)) i [] =
       get_or (v_observations v) i [] @ (if i = x_exchange_id x then [x] else [])"
    "v_conflicts (add_exchange x v) = (if get_or (v_observations v) (x_exchange_id x) [] \<noteq> []
       then add_new (x_exchange_id x) (v_conflicts v) else v_conflicts v)"
    "v_records (add_exchange x v) = v_records v"
proof -
  have obs: "get_or (setdefault d k []) i [] = get_or d i []" for d :: "(string \<times> exchange_obs list) list" and k i
    by (simp add: get_or_def map_of_setdefault)
  show "v_sources (add_exchange x v) = upd_at (v_sources v) (x_source x) (new_source (x_source x)) (fill (x_source_sequence x))"
    "v_claims (add_exchange x v) = upd_at (v_claims v) (x_source x, x_source_sequence x) [] (add_new (x_exchange_id x))"
    "get_or (v_observations (add_exchange x v)) i [] =
       get_or (v_observations v) i [] @ (if i = x_exchange_id x then [x] else [])"
    "v_conflicts (add_exchange x v) = (if get_or (v_observations v) (x_exchange_id x) [] \<noteq> []
       then add_new (x_exchange_id x) (v_conflicts v) else v_conflicts v)"
    "v_records (add_exchange x v) = v_records v"
    using assms by (simp_all add: add_exchange_def Let_def op_defs get_or_upd_at obs split: option.splits)
qed

lemma add_exchange_retry:
  assumes "exchange_ident x \<in> exchange_ident ` set (get_or (v_observations v) (x_exchange_id x) [])"
  shows "add_exchange x v = v"
proof -
  have "map_of (v_observations v) (x_exchange_id x) \<noteq> None" 
    using assms by (cases "map_of (v_observations v) (x_exchange_id x)") (simp_all add: get_or_def)
  then have "setdefault (v_observations v) (x_exchange_id x) [] = v_observations v" by (auto simp: setdefault_def)
  then show ?thesis using assms by (simp add: add_exchange_def Let_def)
qed

lemma add_record_fresh:
  assumes "record_ident r \<notin> record_ident ` set (v_records v)"
  shows "v_sources (add_record r v) = upd_at (v_sources v) (r_source r) (new_source (r_source r)) (fill (r_source_sequence r))"
    "v_claims (add_record r v) = upd_at (v_claims v) (r_source r, r_source_sequence r) [] (add_new (''record:'' @ r_fingerprint r))"
    "v_observations (add_record r v) = v_observations v" "v_conflicts (add_record r v) = v_conflicts v"
    "v_records (add_record r v) = v_records v @ [r]"
  using assms by (simp_all add: add_record_def Let_def op_defs split: option.splits)

lemma other_frame [simp]:
  "v_claims (add_loss l v) = v_claims v" "v_observations (add_loss l v) = v_observations v"
  "v_conflicts (add_loss l v) = v_conflicts v" "v_records (add_loss l v) = v_records v"
  "v_claims (add_manifest m v) = v_claims v" "v_observations (add_manifest m v) = v_observations v"
  "v_conflicts (add_manifest m v) = v_conflicts v" "v_records (add_manifest m v) = v_records v"
  "v_claims (add_seal s v) = v_claims v" "v_observations (add_seal s v) = v_observations v"
  "v_conflicts (add_seal s v) = v_conflicts v" "v_records (add_seal s v) = v_records v"
  "v_claims (add_heartbeat h v) = v_claims v" "v_observations (add_heartbeat h v) = v_observations v"
  "v_conflicts (add_heartbeat h v) = v_conflicts v" "v_records (add_heartbeat h v) = v_records v"
  by (simp_all add: add_loss_def add_manifest_def add_seal_def add_heartbeat_def Let_def op_defs split: option.splits)

lemma other_sources:
  "v_sources (add_loss l v) = upd_at (v_sources v) (l_source l) (new_source (l_source l))
     (\<lambda>s. s\<lparr>s_losses := add_by loss_ident l (s_losses s)\<rparr>)"
  "v_sources (add_manifest m v) = upd_at (v_sources v) (m_source m) (new_source (m_source m)) (allocated_to (m_after_source_sequence m))"
  "v_sources (add_seal s v) = (if seal_ident s \<in> seal_ident ` set (v_seals v) then v_sources v
     else upd_at (v_sources v) (ss_source s) (new_source (ss_source s)) (allocated_to (ss_last_sequence s)))"
  "v_sources (add_heartbeat h v) = (if heartbeat_ident h \<in> heartbeat_ident ` set (v_heartbeats v) then v_sources v
     else let d = upd_at (v_sources v) (h_source h) (new_source (h_source h)) (allocated_to (h_last_sequence h))
          in if h_kind h = Some Final then upd_at d (h_source h) (new_source (h_source h)) (finish_at (h_last_sequence h)) else d)"
  by (simp_all add: add_loss_def add_manifest_def add_seal_def add_heartbeat_def Let_def op_defs split: option.splits)

lemma src_sequences_other:
  assumes "position ob = None"
  shows "s_sequences (src (step ob v) k) = s_sequences (src v k)"
  using assms by (cases ob)
    (simp_all add: step_def other_sources get_or_upd_at Let_def allocated_to_def finish_at_def)

lemma exactD:
  assumes "exact es v"
  shows "n \<in> set (s_sequences (src v k)) \<longleftrightarrow> at es (k, n) \<noteq> {}"
    "set (get_or (v_claims v) p []) = claimant ` at es p"
    "exchange_ident ` set (get_or (v_observations v) i []) = exchange_ident ` exchanges_of es i"
    "distinct (map exchange_ident (get_or (v_observations v) i []))"
    "i \<in> set (v_conflicts v) \<longleftrightarrow> length (get_or (v_observations v) i []) > 1"
    "record_ident ` set (v_records v) = record_ident ` {r. Record_obs r \<in> set es}"
  using assms unfolding exact_def by (simp_all del: split_paired_All)

lemma exactI:
  assumes "\<And>k n. n \<in> set (s_sequences (src v k)) \<longleftrightarrow> at es (k, n) \<noteq> {}"
    "\<And>p. set (get_or (v_claims v) p []) = claimant ` at es p"
    "\<And>i. exchange_ident ` set (get_or (v_observations v) i []) = exchange_ident ` exchanges_of es i"
    "\<And>i. distinct (map exchange_ident (get_or (v_observations v) i []))"
    "\<And>i. i \<in> set (v_conflicts v) \<longleftrightarrow> length (get_or (v_observations v) i []) > 1"
    "record_ident ` set (v_records v) = record_ident ` {r. Record_obs r \<in> set es}"
  shows "exact es v"
  using assms unfolding exact_def by blast

lemma exact_step:
  assumes e: "exact es v"
  shows "exact (es @ [ob]) (step ob v)"
proof (cases "position ob")
  case None
  then have at: "at (es @ [ob]) p = at es p" for p by (simp add: at_snoc)
  have ex: "exchanges_of (es @ [ob]) i = exchanges_of es i" for i
    using None by (cases ob) (simp_all add: exchanges_of_snoc)
  have rc: "{r. Record_obs r \<in> set (es @ [ob])} = {r. Record_obs r \<in> set es}" using None by auto
  have fr: "v_claims (step ob v) = v_claims v" "v_observations (step ob v) = v_observations v"
    "v_conflicts (step ob v) = v_conflicts v" "v_records (step ob v) = v_records v"
    using None by (cases ob; simp add: step_def)+
  show ?thesis using e unfolding exact_def at ex rc fr src_sequences_other [OF None] .
next
  case (Some p)
  then consider (x) x where "ob = Exchange_obs x" | (r) r where "ob = Record_obs r" by (cases ob) auto
  then show ?thesis
  proof cases
    case x
    let ?w = "stamp ob v"
    have st: "step ob v = add_exchange x ?w" by (simp add: step_def x)
    have rc: "{r. Record_obs r \<in> set (es @ [ob])} = {r. Record_obs r \<in> set es}" by (auto simp: x)
    show ?thesis
    proof (cases "exchange_ident x \<in> exchange_ident ` set (get_or (v_observations v) (x_exchange_id x) [])")
      case True
      then obtain y where y: "y \<in> exchanges_of es (x_exchange_id x)" "exchange_ident x = exchange_ident y"
        using e unfolding exact_def by (metis (no_types, lifting) imageE)
      then have "Exchange_obs y \<in> set es" by (simp add: exchanges_of_def)
      then have at: "claimant ` at (es @ [ob]) p = claimant ` at es p" "at (es @ [ob]) p = {} \<longleftrightarrow> at es p = {}" for p
        using exchange_ident_eq [OF y(2)] by (simp_all add: x at_retry [of "Exchange_obs y"])
      have ex: "exchange_ident ` exchanges_of (es @ [ob]) i = exchange_ident ` exchanges_of es i" for i
        using y by (auto simp: exchanges_of_snoc x)
      show ?thesis
        using e add_exchange_retry [of x ?w] True unfolding exact_def st rc ex at by (simp del: split_paired_All)
    next
      case False
      note fresh = add_exchange_fresh [of x ?w, simplified, OF False]
      have at: "at (es @ [ob]) p = (if p = (x_source x, x_source_sequence x) then insert ob (at es p) else at es p)" for p
        by (auto simp: at_snoc x)
      have cl: "claimant ob = x_exchange_id x" by (simp add: x)
      have ex: "exchanges_of (es @ [ob]) i = (if i = x_exchange_id x then insert x (exchanges_of es i) else exchanges_of es i)" for i
        by (auto simp: exchanges_of_snoc x)
      have new: "exchange_ident x \<notin> exchange_ident ` set (get_or (v_observations v) (x_exchange_id x) [])" by (rule False)
      show ?thesis
      proof (rule exactI)
        fix k n
        show "n \<in> set (s_sequences (src (step ob v) k)) \<longleftrightarrow> at (es @ [ob]) (k, n) \<noteq> {}"
          using exactD(1) [OF e, of n k] by (auto simp: st fresh at get_or_upd_at fill_def)
      next
        fix p show "set (get_or (v_claims (step ob v)) p []) = claimant ` at (es @ [ob]) p"
          using exactD(2) [OF e] by (simp add: st fresh at get_or_upd_at cl)
      next
        fix i
        show "exchange_ident ` set (get_or (v_observations (step ob v)) i []) = exchange_ident ` exchanges_of (es @ [ob]) i"
          using exactD(3) [OF e] by (simp add: st fresh ex)
        show "distinct (map exchange_ident (get_or (v_observations (step ob v)) i []))"
          using exactD(4) [OF e, of i] new by (auto simp: st fresh)
        show "i \<in> set (v_conflicts (step ob v)) \<longleftrightarrow> length (get_or (v_observations (step ob v)) i []) > 1"
          using exactD(5) [OF e, of i] by (auto simp: st fresh)
      qed (use exactD(6) [OF e] rc in \<open>simp add: st fresh\<close>)
    qed
  next
    case r
    let ?w = "stamp ob v"
    have st: "step ob v = add_record r ?w" by (simp add: step_def r)
    have ex: "exchanges_of (es @ [ob]) i = exchanges_of es i" for i by (auto simp: exchanges_of_snoc r)
    have rc: "{q. Record_obs q \<in> set (es @ [ob])} = insert r {q. Record_obs q \<in> set es}" by (auto simp: r)
    show ?thesis
    proof (cases "record_ident r \<in> record_ident ` set (v_records v)")
      case True
      then obtain y where y: "Record_obs y \<in> set es" "record_ident r = record_ident y"
        using e unfolding exact_def by (metis (no_types, lifting) imageE mem_Collect_eq)
      then have at: "claimant ` at (es @ [ob]) p = claimant ` at es p" "at (es @ [ob]) p = {} \<longleftrightarrow> at es p = {}" for p
        using record_ident_eq [OF y(2)] by (simp_all add: r at_retry [of "Record_obs y"])
      have "add_record r ?w = ?w" using True by (simp add: add_record_def)
      then show ?thesis
        using e y unfolding exact_def st rc ex at by auto
    next
      case False
      note fresh = add_record_fresh [of r ?w, simplified, OF False]
      have at: "at (es @ [ob]) p = (if p = (r_source r, r_source_sequence r) then insert ob (at es p) else at es p)" for p
        by (auto simp: at_snoc r)
      have cl: "claimant ob = ''record:'' @ r_fingerprint r" by (simp add: r)
      show ?thesis
      proof (rule exactI)
        fix k n
        show "n \<in> set (s_sequences (src (step ob v) k)) \<longleftrightarrow> at (es @ [ob]) (k, n) \<noteq> {}"
          using exactD(1) [OF e, of n k] by (auto simp: st fresh at get_or_upd_at fill_def)
      next
        fix p show "set (get_or (v_claims (step ob v)) p []) = claimant ` at (es @ [ob]) p"
          using exactD(2) [OF e] by (simp add: st fresh at get_or_upd_at cl)
      qed (use exactD(3,4,5,6) [OF e] rc in \<open>simp_all add: st ex fresh\<close>)
    qed
  qed
qed

lemma exact_fold: "exact es v \<Longrightarrow> exact (es @ fs) (fold step fs v)"
proof (induction fs arbitrary: es v)
  case (Cons f fs)
  from Cons.IH [OF exact_step [OF Cons.prems, of f]] show ?case by simp
qed simp

lemma exact_new: "exact [] new_verifier"
  by (simp add: exact_def new_verifier_def at_def exchanges_of_def get_or_def new_source_def)

subsection \<open>Well-formed collected states\<close>

fun valid_obs :: "observation \<Rightarrow> bool" where
  "valid_obs (Exchange_obs x) \<longleftrightarrow> 0 \<le> x_source_sequence x"
| "valid_obs (Record_obs r) \<longleftrightarrow> 0 \<le> r_source_sequence r"
| "valid_obs (Loss_obs l) \<longleftrightarrow> 0 \<le> l_first_sequence l"
| "valid_obs _ \<longleftrightarrow> True"

abbreviation known :: "verifier \<Rightarrow> source_key set" where
  "known v \<equiv> fst ` set (v_sources v)"

definition source_ok :: "source_key \<Rightarrow> source \<Rightarrow> bool" where
  "source_ok k s \<longleftrightarrow> s_key s = k \<and> collected s \<and> s_conflicted s = [] \<and> s_manifestless s = []"

definition scope_weak :: "source_key set \<Rightarrow> string \<Rightarrow> scope \<Rightarrow> bool" where
  "scope_weak K i c \<longleftrightarrow> sc_scope_id c = i \<and> sc_problem c = None \<and> set (scope_sources c) \<subseteq> K \<and>
     distinct (sc_starts c) \<and> distinct (sc_ends c)"

definition segment_weak :: "source_key set \<Rightarrow> string \<Rightarrow> vsegment \<Rightarrow> bool" where
  "segment_weak K i g \<longleftrightarrow> g_segment_id g = i \<and> g_gaps g = [] \<and> set (seg_keys g) \<subseteq> K"

definition sources_ok :: "verifier \<Rightarrow> bool" where
  "sources_ok v \<longleftrightarrow> distinct (map fst (v_sources v)) \<and> (\<forall>k s. map_of (v_sources v) k = Some s \<longrightarrow> source_ok k s)"

definition scopes_ok :: "verifier \<Rightarrow> bool" where
  "scopes_ok v \<longleftrightarrow> distinct (map fst (v_scopes v)) \<and>
     (\<forall>i c. map_of (v_scopes v) i = Some c \<longrightarrow> scope_weak (known v) i c \<and> scope_sources c \<noteq> [])"

definition segments_ok :: "verifier \<Rightarrow> bool" where
  "segments_ok v \<longleftrightarrow> distinct (map fst (v_segments v)) \<and>
     (\<forall>i g. map_of (v_segments v) i = Some g \<longrightarrow> segment_weak (known v) i g \<and> seg_keys g \<noteq> [])"

definition keys_ok :: "verifier \<Rightarrow> bool" where
  "keys_ok v \<longleftrightarrow> h_source ` set (v_heartbeats v) \<subseteq> known v \<and> ss_source ` set (v_seals v) \<subseteq> known v \<and>
     fst ` set (v_manifest_obs v) \<subseteq> known v \<and> fst ` set (v_manifest_claims v) \<subseteq> known v \<and>
     set (v_periodic v) \<subseteq> known v \<and> distinct (map fst (v_claims v)) \<and> distinct (map fst (v_manifest_obs v))"

definition state_ok :: "verifier \<Rightarrow> bool" where
  "state_ok v \<longleftrightarrow> sources_ok v \<and> scopes_ok v \<and> segments_ok v \<and> keys_ok v"

lemma all_upd_at:
  assumes "\<And>k x. map_of d k = Some x \<Longrightarrow> P k x" and "P k (f (get_or d k u))"
  shows "map_of (upd_at d k u f) k' = Some x \<Longrightarrow> P k' x"
  using assms by (auto simp: map_of_upd_at split: if_splits)

lemma source_ok_new: "source_ok k (new_source k)"
  by (simp add: source_ok_def new_source_def collected_def)

lemma source_ok_ops:
  "source_ok k s \<Longrightarrow> source_ok k (allocated_to n s)" "source_ok k s \<Longrightarrow> source_ok k (finish_at n s)"
  "source_ok k s \<Longrightarrow> 0 \<le> n \<Longrightarrow> source_ok k (fill n s)"
  "source_ok k s \<Longrightarrow> 0 \<le> l_first_sequence l \<Longrightarrow> source_ok k (s\<lparr>s_losses := add_by loss_ident l (s_losses s)\<rparr>)"
  by (auto simp: source_ok_def collected_def allocated_to_def finish_at_def fill_def add_by_def)

definition all_sources :: "(source_key \<times> source) list \<Rightarrow> bool" where
  "all_sources d \<longleftrightarrow> distinct (map fst d) \<and> (\<forall>k s. map_of d k = Some s \<longrightarrow> source_ok k s)"

lemma all_sources_upd:
  assumes "all_sources d" and "\<And>s. source_ok k s \<Longrightarrow> source_ok k (f s)"
  shows "all_sources (upd_at d k (new_source k) f)"
  using assms source_ok_new [of k] unfolding all_sources_def
  by (auto simp: map_of_upd_at get_or_def split: if_splits option.splits)

lemma sources_ok_step:
  assumes "sources_ok v" and "valid_obs ob"
  shows "sources_ok (step ob v)"
proof -
  have v: "all_sources (v_sources v)" using assms(1) by (simp add: sources_ok_def all_sources_def)
  have "all_sources (v_sources (step ob v))"
  proof (cases ob)
    case (Exchange_obs x)
    then show ?thesis using v assms(2) add_exchange_retry [of x "stamp ob v"] add_exchange_fresh(1) [of x "stamp ob v"]
      by (cases "exchange_ident x \<in> exchange_ident ` set (get_or (v_observations v) (x_exchange_id x) [])")
        (auto simp: step_def intro!: all_sources_upd source_ok_ops)
  next
    case (Record_obs r)
    then show ?thesis using v assms(2) add_record_fresh(1) [of r "stamp ob v"]
      by (cases "record_ident r \<in> record_ident ` set (v_records v)")
        (auto simp: step_def add_record_def intro!: all_sources_upd source_ok_ops)
  next
    case (Loss_obs l)
    then show ?thesis using v assms(2) by (auto simp: step_def other_sources intro!: all_sources_upd source_ok_ops)
  next
    case (Heartbeat_obs h)
    then show ?thesis using v by (auto simp: step_def other_sources Let_def intro!: all_sources_upd source_ok_ops)
  next
    case (Segment_seal_obs s)
    then show ?thesis using v by (auto simp: step_def other_sources intro!: all_sources_upd source_ok_ops)
  next
    case (Manifest_obs m)
    then show ?thesis using v by (auto simp: step_def other_sources intro!: all_sources_upd source_ok_ops)
  qed (use v in \<open>simp add: step_def\<close>)
  then show ?thesis by (simp add: sources_ok_def all_sources_def)
qed

lemma known_mono: "known v \<subseteq> known (step ob v)"
proof
  fix k assume "k \<in> known v"
  then obtain s where "map_of (v_sources v) k = Some s" by (auto simp: mem_keys_iff)
  then show "k \<in> known (step ob v)" using belowD(2) [OF below_step] by (fastforce simp: mem_keys_iff)
qed

definition all_scopes :: "source_key set \<Rightarrow> (string \<times> scope) list \<Rightarrow> bool" where
  "all_scopes K d \<longleftrightarrow> distinct (map fst d) \<and>
     (\<forall>i c. map_of d i = Some c \<longrightarrow> scope_weak K i c \<and> scope_sources c \<noteq> [])"

definition all_segments :: "source_key set \<Rightarrow> (string \<times> vsegment) list \<Rightarrow> bool" where
  "all_segments K d \<longleftrightarrow> distinct (map fst d) \<and>
     (\<forall>i g. map_of d i = Some g \<longrightarrow> segment_weak K i g \<and> seg_keys g \<noteq> [])"

lemma all_scopes_upd:
  assumes "all_scopes K d" and "\<And>c. scope_weak K i c \<Longrightarrow> scope_weak K i (f c) \<and> scope_sources (f c) \<noteq> []"
  shows "all_scopes K (upd_at d i (new_scope i) f)"
proof -
  have "scope_weak K i (new_scope i)" by (simp add: scope_weak_def new_scope_def scope_sources_def)
  then have "scope_weak K i (get_or d i (new_scope i))"
    using assms(1) by (auto simp: all_scopes_def get_or_def split: option.splits)
  from assms(2) [OF this] assms(1) show ?thesis unfolding all_scopes_def by (auto simp: map_of_upd_at split: if_splits)
qed

lemma all_segments_upd:
  assumes "all_segments K d" and "\<And>g. segment_weak K i g \<Longrightarrow> segment_weak K i (f g) \<and> seg_keys (f g) \<noteq> []"
  shows "all_segments K (upd_at d i (new_segment i) f)"
proof -
  have "segment_weak K i (new_segment i)" by (simp add: segment_weak_def new_segment_def seg_keys_def)
  then have "segment_weak K i (get_or d i (new_segment i))"
    using assms(1) by (auto simp: all_segments_def get_or_def split: option.splits)
  from assms(2) [OF this] assms(1) show ?thesis unfolding all_segments_def by (auto simp: map_of_upd_at split: if_splits)
qed

lemma all_scopes_mono: "all_scopes K d \<Longrightarrow> K \<subseteq> L \<Longrightarrow> all_scopes L d"
  unfolding all_scopes_def scope_weak_def by blast

lemma all_segments_mono: "all_segments K d \<Longrightarrow> K \<subseteq> L \<Longrightarrow> all_segments L d"
  unfolding all_segments_def segment_weak_def by blast

lemma scope_weak_ops:
  assumes "scope_weak K i c"
  shows "x_source x \<in> K \<Longrightarrow> scope_weak K i (c\<lparr>sc_exchanges := sc_exchanges c @ [x]\<rparr>) \<and> scope_sources (c\<lparr>sc_exchanges := sc_exchanges c @ [x]\<rparr>) \<noteq> []"
    "r_source r \<in> K \<Longrightarrow> scope_weak K i (c\<lparr>sc_records := sc_records c @ [r]\<rparr>) \<and> scope_sources (c\<lparr>sc_records := sc_records c @ [r]\<rparr>) \<noteq> []"
    "fst m \<in> K \<Longrightarrow> scope_weak K i (c\<lparr>sc_starts := add_new m (sc_starts c)\<rparr>) \<and> scope_sources (c\<lparr>sc_starts := add_new m (sc_starts c)\<rparr>) \<noteq> []"
    "fst m \<in> K \<Longrightarrow> scope_weak K i (c\<lparr>sc_ends := add_new m (sc_ends c)\<rparr>) \<and> scope_sources (c\<lparr>sc_ends := add_new m (sc_ends c)\<rparr>) \<noteq> []"
  using assms by (auto simp: scope_weak_def scope_sources_def)

lemma add_by_image_le: "f x \<in> K \<Longrightarrow> f ` set xs \<subseteq> K \<Longrightarrow> f ` set (add_by ident x xs) \<subseteq> K"
  by (auto simp: add_by_def)

lemma add_by_neq_Nil [simp]: "add_by ident x xs \<noteq> []"
  by (auto simp: add_by_def)

lemma seg_keys_empty_iff: "seg_keys g = [] \<longleftrightarrow> g_starts g = [] \<and> g_ends g = [] \<and> g_seals g = [] \<and> g_members g = [] \<and> g_losses g = []"
  by (auto simp: seg_keys_def)

lemma set_seg_keys: "set (seg_keys g) = h_source ` set (g_starts g) \<union> h_source ` set (g_ends g) \<union> ss_source ` set (g_seals g) \<union>
    member_source ` set (g_members g) \<union> l_source ` set (g_losses g)"
  by (auto simp: seg_keys_def)

lemma segment_weak_ops:
  assumes "segment_weak K i g"
  shows "member_source m \<in> K \<Longrightarrow> segment_weak K i (g\<lparr>g_members := g_members g @ [m]\<rparr>) \<and> seg_keys (g\<lparr>g_members := g_members g @ [m]\<rparr>) \<noteq> []"
    "h_source h \<in> K \<Longrightarrow> segment_weak K i (g\<lparr>g_starts := add_by heartbeat_ident h (g_starts g)\<rparr>) \<and> seg_keys (g\<lparr>g_starts := add_by heartbeat_ident h (g_starts g)\<rparr>) \<noteq> []"
    "h_source h \<in> K \<Longrightarrow> segment_weak K i (g\<lparr>g_ends := add_by heartbeat_ident h (g_ends g)\<rparr>) \<and> seg_keys (g\<lparr>g_ends := add_by heartbeat_ident h (g_ends g)\<rparr>) \<noteq> []"
    "ss_source s \<in> K \<Longrightarrow> segment_weak K i (g\<lparr>g_seals := add_by seal_ident s (g_seals g)\<rparr>) \<and> seg_keys (g\<lparr>g_seals := add_by seal_ident s (g_seals g)\<rparr>) \<noteq> []"
    "l_source l \<in> K \<Longrightarrow> segment_weak K i (g\<lparr>g_losses := add_by loss_ident l (g_losses g)\<rparr>) \<and> seg_keys (g\<lparr>g_losses := add_by loss_ident l (g_losses g)\<rparr>) \<noteq> []"
  using assms by (simp_all add: segment_weak_def set_seg_keys seg_keys_empty_iff add_by_image_le)

definition structured :: "verifier \<Rightarrow> bool" where
  "structured v \<longleftrightarrow> all_scopes (known v) (v_scopes v) \<and> all_segments (known v) (v_segments v) \<and> keys_ok v"

lemma structuredD:
  assumes "structured v"
  shows "all_scopes (known v) (v_scopes v)" "all_segments (known v) (v_segments v)" "keys_ok v"
  using assms by (simp_all add: structured_def)

lemma structured_grow:
  assumes "structured v"
  shows "all_scopes (insert k (known v)) (v_scopes v)" "all_segments (insert k (known v)) (v_segments v)"
  using all_scopes_mono [OF structuredD(1) [OF assms] subset_insertI]
    all_segments_mono [OF structuredD(2) [OF assms] subset_insertI] .

lemma subset_grow: "A \<subseteq> insert k B \<Longrightarrow> B \<subseteq> K \<Longrightarrow> A \<subseteq> insert k K"
  by blast

lemma keys_ok_grow:
  assumes v: "keys_ok v" and K: "known w = insert k (known v)"
    and w: "h_source ` set (v_heartbeats w) \<subseteq> insert k (h_source ` set (v_heartbeats v))"
      "ss_source ` set (v_seals w) \<subseteq> insert k (ss_source ` set (v_seals v))"
      "fst ` set (v_manifest_obs w) \<subseteq> insert k (fst ` set (v_manifest_obs v))"
      "fst ` set (v_manifest_claims w) \<subseteq> insert k (fst ` set (v_manifest_claims v))"
      "set (v_periodic w) \<subseteq> insert k (set (v_periodic v))"
    and d: "distinct (map fst (v_claims v)) \<Longrightarrow> distinct (map fst (v_claims w))"
      "distinct (map fst (v_manifest_obs v)) \<Longrightarrow> distinct (map fst (v_manifest_obs w))"
  shows "keys_ok w"
  unfolding keys_ok_def K
  using v [unfolded keys_ok_def] d
  by (intro conjI subset_grow [OF w(1)] subset_grow [OF w(2)] subset_grow [OF w(3)] subset_grow [OF w(4)]
      subset_grow [OF w(5)]) simp_all

lemma structured_fresh_exchange:
  assumes s: "structured v" and "exchange_ident x \<notin> exchange_ident ` set (get_or (v_observations v) (x_exchange_id x) [])"
  shows "structured (add_exchange x v)"
proof -
  let ?K = "insert (x_source x) (known v)"
  have K: "known (add_exchange x v) = ?K" using assms(2) by (simp add: add_exchange_fresh)
  have sc: "v_scopes (add_exchange x v) = (case x_scope_id x of None \<Rightarrow> v_scopes v
      | Some i \<Rightarrow> upd_at (v_scopes v) i (new_scope i) (\<lambda>c. c\<lparr>sc_exchanges := sc_exchanges c @ [x]\<rparr>))"
    "v_segments (add_exchange x v) = (case x_segment_id x of None \<Rightarrow> v_segments v
      | Some i \<Rightarrow> upd_at (v_segments v) i (new_segment i) (\<lambda>g. g\<lparr>g_members := g_members g @ [M_exchange x]\<rparr>))"
    using assms(2) by (simp_all add: add_exchange_def Let_def op_defs split: option.splits)
  have fr: "v_heartbeats (add_exchange x v) = v_heartbeats v" "v_seals (add_exchange x v) = v_seals v"
    "v_manifest_obs (add_exchange x v) = v_manifest_obs v" "v_manifest_claims (add_exchange x v) = v_manifest_claims v"
    "v_periodic (add_exchange x v) = v_periodic v"
    by (simp_all add: add_exchange_def Let_def op_defs split: option.splits)
  have "all_scopes ?K (v_scopes v)" "all_segments ?K (v_segments v)"
    using structured_grow [OF s] by blast+
  then have "all_scopes ?K (v_scopes (add_exchange x v))" "all_segments ?K (v_segments (add_exchange x v))"
    unfolding sc by (auto split: option.splits intro!: all_scopes_upd all_segments_upd scope_weak_ops segment_weak_ops)
  moreover have "keys_ok (add_exchange x v)"
    by (rule keys_ok_grow [OF structuredD(3) [OF s] K]) (simp_all add: fr add_exchange_fresh assms(2) subset_insertI)
  ultimately show ?thesis unfolding structured_def K by simp
qed

lemma structured_fresh_record:
  assumes s: "structured v" and "record_ident r \<notin> record_ident ` set (v_records v)"
  shows "structured (add_record r v)"
proof -
  let ?K = "insert (r_source r) (known v)"
  have K: "known (add_record r v) = ?K" using assms(2) by (simp add: add_record_fresh)
  have sc: "v_scopes (add_record r v) = (case r_run_id r of None \<Rightarrow> v_scopes v | Some run \<Rightarrow> (case r_scope_id r of None \<Rightarrow> v_scopes v
      | Some i \<Rightarrow> upd_at (v_scopes v) i (new_scope i) (\<lambda>c. c\<lparr>sc_records := sc_records c @ [r]\<rparr>)))"
    "v_segments (add_record r v) = (case r_segment_id r of None \<Rightarrow> v_segments v
      | Some i \<Rightarrow> upd_at (v_segments v) i (new_segment i) (\<lambda>g. g\<lparr>g_members := g_members g @ [M_record r]\<rparr>))"
    using assms(2) by (simp_all add: add_record_def Let_def op_defs split: option.splits)
  have fr: "v_heartbeats (add_record r v) = v_heartbeats v" "v_seals (add_record r v) = v_seals v"
    "v_manifest_obs (add_record r v) = v_manifest_obs v" "v_manifest_claims (add_record r v) = v_manifest_claims v"
    "v_periodic (add_record r v) = v_periodic v"
    by (simp_all add: add_record_def Let_def op_defs split: option.splits)
  have "all_scopes ?K (v_scopes v)" "all_segments ?K (v_segments v)"
    using structured_grow [OF s] by blast+
  then have "all_scopes ?K (v_scopes (add_record r v))" "all_segments ?K (v_segments (add_record r v))"
    unfolding sc by (auto split: option.splits intro!: all_scopes_upd all_segments_upd scope_weak_ops segment_weak_ops)
  moreover have "keys_ok (add_record r v)"
    by (rule keys_ok_grow [OF structuredD(3) [OF s] K]) (simp_all add: fr add_record_fresh assms(2) subset_insertI)
  ultimately show ?thesis unfolding structured_def K by simp
qed

lemma structured_loss:
  assumes s: "structured v"
  shows "structured (add_loss l v)"
proof -
  let ?K = "insert (l_source l) (known v)"
  have K: "known (add_loss l v) = ?K" by (simp add: other_sources)
  have sc: "v_scopes (add_loss l v) = v_scopes v"
    "v_segments (add_loss l v) = (case l_segment_id l of None \<Rightarrow> v_segments v
      | Some i \<Rightarrow> upd_at (v_segments v) i (new_segment i) (\<lambda>g. g\<lparr>g_losses := add_by loss_ident l (g_losses g)\<rparr>))"
    by (simp_all add: add_loss_def op_defs split: option.splits)
  have fr: "v_heartbeats (add_loss l v) = v_heartbeats v" "v_seals (add_loss l v) = v_seals v"
    "v_manifest_obs (add_loss l v) = v_manifest_obs v" "v_manifest_claims (add_loss l v) = v_manifest_claims v"
    "v_periodic (add_loss l v) = v_periodic v"
    by (simp_all add: add_loss_def op_defs split: option.splits)
  have m: "all_scopes ?K (v_scopes v)" "all_segments ?K (v_segments v)"
    using structured_grow [OF s] by blast+
  then have "all_segments ?K (v_segments (add_loss l v))"
    unfolding sc by (auto split: option.splits intro!: all_segments_upd segment_weak_ops)
  moreover have "keys_ok (add_loss l v)"
    by (rule keys_ok_grow [OF structuredD(3) [OF s] K]) (simp_all add: fr subset_insertI)
  ultimately show ?thesis unfolding structured_def K sc(1) using m by simp
qed

lemma structured_manifest:
  assumes s: "structured v"
  shows "structured (add_manifest m v)"
proof -
  have K: "known (add_manifest m v) = insert (m_source m) (known v)" by (simp add: other_sources)
  have "all_scopes (insert (m_source m) (known v)) (v_scopes v)" "all_segments (insert (m_source m) (known v)) (v_segments v)"
    using structured_grow [OF s] by blast+
  moreover have "keys_ok (add_manifest m v)"
    by (rule keys_ok_grow [OF structuredD(3) [OF s] K]) (simp_all add: add_manifest_def on_source_def subset_insertI)
  moreover have "v_scopes (add_manifest m v) = v_scopes v" "v_segments (add_manifest m v) = v_segments v"
    by (simp_all add: add_manifest_def on_source_def)
  ultimately show ?thesis unfolding structured_def K by simp
qed

lemma claims_keys: "fst ` set (v_manifest_claims (claim_manifest k n v)) \<subseteq> insert k (fst ` set (v_manifest_claims v))"
  by (auto simp: claim_manifest_def split: option.splits)

lemma seal_source_ident:
  assumes "seal_ident s = seal_ident t"
  shows "ss_source s = ss_source t"
  using arg_cong [OF assms, of ss_source_id] arg_cong [OF assms, of ss_source_epoch]
  by (simp_all add: seal_ident_def ss_source_def)

lemma heartbeat_source_ident:
  assumes "heartbeat_ident s = heartbeat_ident t"
  shows "h_source s = h_source t"
  using arg_cong [OF assms, of h_source_id] arg_cong [OF assms, of h_source_epoch]
  by (simp_all add: heartbeat_ident_def h_source_def)

lemma subset_known: "A \<subseteq> insert k B \<Longrightarrow> k \<in> K \<Longrightarrow> B \<subseteq> K \<Longrightarrow> A \<subseteq> K"
  by blast

lemma claim_manifest_frame [simp]:
  "v_scopes (claim_manifest k n v) = v_scopes v" "v_segments (claim_manifest k n v) = v_segments v"
  "v_sources (claim_manifest k n v) = v_sources v" "v_seals (claim_manifest k n v) = v_seals v"
  "v_heartbeats (claim_manifest k n v) = v_heartbeats v" "v_manifest_obs (claim_manifest k n v) = v_manifest_obs v"
  "v_periodic (claim_manifest k n v) = v_periodic v" "v_claims (claim_manifest k n v) = v_claims v"
  by (simp_all add: claim_manifest_def split: option.splits)

lemma structured_seal:
  assumes s: "structured v"
  shows "structured (add_seal q v)"
proof (cases "seal_ident q \<in> seal_ident ` set (v_seals v)")
  case True
  then obtain t where "t \<in> set (v_seals v)" "ss_source q = ss_source t" using seal_source_ident by blast
  then have "ss_source q \<in> known v" using s by (auto simp: structured_def keys_ok_def)
  then show ?thesis
    using s True claims_keys [of "ss_source q" "ss_manifest_seq q" v]
    unfolding add_seal_def by (simp add: Let_def structured_def keys_ok_def subset_known)
next
  case False
  let ?K = "insert (ss_source q) (known v)"
  have K: "known (add_seal q v) = ?K" using False by (simp add: other_sources)
  have sc: "v_scopes (add_seal q v) = v_scopes v"
    "v_segments (add_seal q v) = upd_at (v_segments v) (ss_segment_id q) (new_segment (ss_segment_id q)) (\<lambda>g. g\<lparr>g_seals := add_by seal_ident q (g_seals g)\<rparr>)"
    using False by (simp_all add: add_seal_def Let_def op_defs split: option.splits)
  have fr: "v_heartbeats (add_seal q v) = v_heartbeats v" "v_seals (add_seal q v) = v_seals v @ [q]"
    "v_manifest_obs (add_seal q v) = v_manifest_obs v"
    "v_manifest_claims (add_seal q v) = v_manifest_claims (claim_manifest (ss_source q) (ss_manifest_seq q) v)"
    "v_periodic (add_seal q v) = v_periodic v"
    using False by (simp_all add: add_seal_def Let_def op_defs split: option.splits)
  have m: "all_scopes ?K (v_scopes v)" "all_segments ?K (v_segments v)"
    using structured_grow [OF s] by blast+
  then have "all_segments ?K (v_segments (add_seal q v))"
    unfolding sc by (auto intro!: all_segments_upd segment_weak_ops)
  moreover have "keys_ok (add_seal q v)"
    using claims_keys [of "ss_source q" "ss_manifest_seq q" v]
    by (intro keys_ok_grow [OF structuredD(3) [OF s] K]) (simp_all add: fr subset_insertI)
  ultimately show ?thesis unfolding structured_def K sc(1) using m by simp
qed

lemma structured_heartbeat:
  assumes s: "structured v"
  shows "structured (add_heartbeat h v)"
proof (cases "heartbeat_ident h \<in> heartbeat_ident ` set (v_heartbeats v)")
  case True
  then obtain t where "t \<in> set (v_heartbeats v)" "h_source h = h_source t" using heartbeat_source_ident by blast
  then have "h_source h \<in> known v" using s by (auto simp: structured_def keys_ok_def)
  then show ?thesis
    using s True claims_keys [of "h_source h" "h_manifest_seq h" v]
    unfolding add_heartbeat_def by (simp add: Let_def structured_def keys_ok_def subset_known)
next
  case False
  let ?K = "insert (h_source h) (known v)"
  have K: "known (add_heartbeat h v) = ?K" using False by (simp add: other_sources Let_def)
  let ?start = "h_kind h = Some Run_start" and ?run = "h_kind h \<noteq> Some Final \<and> h_kind h \<noteq> Some Periodic"
  have sc: "v_scopes (add_heartbeat h v) = (if ?run then (case h_scope_id h of None \<Rightarrow> v_scopes v | Some i \<Rightarrow>
      (case h_run_id h of None \<Rightarrow> v_scopes v | Some run \<Rightarrow> upd_at (v_scopes v) i (new_scope i)
        (\<lambda>c. if ?start then c\<lparr>sc_starts := add_new (h_source h, run, h_last_sequence h, h_segment_id h) (sc_starts c)\<rparr>
             else c\<lparr>sc_ends := add_new (h_source h, run, h_last_sequence h, h_segment_id h) (sc_ends c)\<rparr>))) else v_scopes v)"
    using False by (simp add: add_heartbeat_def Let_def op_defs split: option.splits)
  have sg: "v_segments (add_heartbeat h v) = v_segments v \<or>
      (\<exists>i. v_segments (add_heartbeat h v) = upd_at (v_segments v) i (new_segment i)
        (\<lambda>g. if ?start then g\<lparr>g_starts := add_by heartbeat_ident h (g_starts g)\<rparr>
             else g\<lparr>g_ends := add_by heartbeat_ident h (g_ends g)\<rparr>))"
    using False by (auto simp: add_heartbeat_def Let_def op_defs split: option.splits)
  have fr: "v_heartbeats (add_heartbeat h v) = v_heartbeats v @ [h]" "v_seals (add_heartbeat h v) = v_seals v"
    "v_manifest_obs (add_heartbeat h v) = v_manifest_obs v"
    "v_manifest_claims (add_heartbeat h v) = v_manifest_claims (claim_manifest (h_source h) (h_manifest_seq h) v)"
    "set (v_periodic (add_heartbeat h v)) \<subseteq> insert (h_source h) (set (v_periodic v))"
    using False by (auto simp: add_heartbeat_def Let_def op_defs split: option.splits)
  have m: "all_scopes ?K (v_scopes v)" "all_segments ?K (v_segments v)"
    using structured_grow [OF s] by blast+
  have "all_scopes ?K (v_scopes (add_heartbeat h v))"
    unfolding sc using m(1) by (simp add: all_scopes_upd scope_weak_ops split: option.split)
  moreover have "all_segments ?K (v_segments (add_heartbeat h v))"
    using sg m(2) by (elim disjE exE) (simp_all add: all_segments_upd segment_weak_ops)
  moreover have "keys_ok (add_heartbeat h v)"
    using fr(5) claims_keys [of "h_source h" "h_manifest_seq h" v]
    by (intro keys_ok_grow [OF structuredD(3) [OF s] K]) (simp_all add: fr(1-4) subset_insertI)
  ultimately show ?thesis unfolding structured_def K by simp
qed

lemma structured_step:
  assumes "structured v"
  shows "structured (step ob v)"
proof -
  have w: "structured (stamp ob v)" using assms by (simp add: structured_def keys_ok_def)
  show ?thesis
  proof (cases ob)
    case (Exchange_obs x)
    then show ?thesis using w structured_fresh_exchange [OF w] add_exchange_retry [of x "stamp ob v"]
      unfolding step_def by (metis dispatch.simps(1))
  next
    case (Record_obs r)
    then show ?thesis using w structured_fresh_record [OF w] by (auto simp: step_def add_record_def)
  next
    case (Malformed_marker_obs m)
    then show ?thesis using assms by (simp add: step_def structured_def keys_ok_def)
  qed (use w in \<open>simp_all add: step_def structured_loss structured_manifest structured_seal structured_heartbeat\<close>)
qed

lemma state_ok_iff: "state_ok v \<longleftrightarrow> sources_ok v \<and> structured v"
  by (auto simp: state_ok_def structured_def scopes_ok_def segments_ok_def all_scopes_def all_segments_def)

lemma state_ok_fold: "state_ok v \<Longrightarrow> \<forall>ob\<in>set es. valid_obs ob \<Longrightarrow> state_ok (fold step es v)"
  by (induction es arbitrary: v) (auto simp: state_ok_iff sources_ok_step structured_step)

lemma state_ok_new: "state_ok new_verifier"
  by (simp add: state_ok_def sources_ok_def scopes_ok_def segments_ok_def keys_ok_def new_verifier_def)

end
