(* ===== verification/Observe.thy ===== *)
theory Observe
  imports Canonical Ids Report
begin

text \<open>
  Reading one span (\<^verbatim>\<open>sdk/python/src/fabric/reconstruct/_inputs.py\<close>: the value validators and \<^verbatim>\<open>observe\<close>
  with its classifiers). An attribute mapping is an association list; \<^verbatim>\<open>attrs.get(k)\<close> of an absent key
  and of JSON null are both \<open>JNull\<close>, and \<^verbatim>\<open>k in attrs\<close> is \<open>has\<close>. A raised \<^verbatim>\<open>ReconstructInputError\<close> is
  an \<open>Inl\<close>; the other exceptions, which \<^verbatim>\<open>_manifest\<close> catches, are \<open>None\<close>. The hash of canonical text is
  the parameter \<open>SH\<close> (the hex digest of SHA-256). The lemmas show that what \<^verbatim>\<open>observe\<close> accepts satisfies
  the bounds the accounting relies on.
\<close>

type_synonym attrs = "(string \<times> json) list"

abbreviation "A_SOURCE_ID \<equiv> ''fabric.source_id''"
abbreviation "A_SOURCE_EPOCH \<equiv> ''fabric.source.epoch''"
abbreviation "A_SOURCE_SEQUENCE \<equiv> ''fabric.source.sequence''"
abbreviation "A_RUN_ID \<equiv> ''fabric.run.id''"
abbreviation "A_SCOPE_ID \<equiv> ''fabric.run.scope_id''"
abbreviation "A_EXCHANGE_ID \<equiv> ''fabric.wire.exchange_id''"
abbreviation "A_API \<equiv> ''fabric.wire.api''"
abbreviation "A_ENDPOINT_ID \<equiv> ''fabric.wire.endpoint_id''"
abbreviation "A_REQUEST_REF \<equiv> ''fabric.content.request_ref''"
abbreviation "A_RESULT_REF \<equiv> ''fabric.content.result_ref''"
abbreviation "A_REQUEST_SHA256 \<equiv> ''fabric.wire.request_sha256''"
abbreviation "A_RESPONSE_SHA256 \<equiv> ''fabric.wire.response_sha256''"
abbreviation "A_RESPONSE_STATE \<equiv> ''fabric.wire.response_state''"
abbreviation "A_TRUNCATED \<equiv> ''fabric.wire.truncated''"
abbreviation "A_STORE_STATUS \<equiv> ''fabric.wire.store_status''"
abbreviation "A_RESPONSE_MODEL \<equiv> ''gen_ai.response.model''"
abbreviation "A_RESPONSE_ID \<equiv> ''gen_ai.response.id''"
abbreviation "A_HTTP_STATUS \<equiv> ''http.response.status_code''"
abbreviation "L_REASON \<equiv> ''fabric.loss.reason''"
abbreviation "L_COUNT \<equiv> ''fabric.loss.count''"
abbreviation "L_FIRST \<equiv> ''fabric.loss.first_sequence''"
abbreviation "L_LAST \<equiv> ''fabric.loss.last_sequence''"
abbreviation "H_LAST \<equiv> ''fabric.heartbeat.last_sequence''"
abbreviation "H_KIND \<equiv> ''fabric.heartbeat.kind''"
abbreviation "A_SOURCE_AUTHENTICATED \<equiv> ''fabric.source.authenticated''"
abbreviation "A_CAPTURE_INPUT \<equiv> ''fabric.capture.input''"
abbreviation "A_EVENT_ID \<equiv> ''fabric.event_id''"
abbreviation "A_ATTEMPT_UID \<equiv> ''fabric.attempt.uid''"
abbreviation "A_SEGMENT_ID \<equiv> ''fabric.run.segment_id''"
abbreviation "A_OBJECT_IDS \<equiv> ''fabric.content.object_ids''"
abbreviation "A_STEP_ID \<equiv> ''fabric.step.id''"
abbreviation "A_MANIFEST_ID \<equiv> ''fabric.capture.manifest_id''"
abbreviation "A_MANIFEST_DIGEST \<equiv> ''fabric.capture.manifest_digest''"
abbreviation "A_MANIFEST_SEQ \<equiv> ''fabric.capture.manifest_seq''"
abbreviation "R_PREDECESSORS \<equiv> ''fabric.run.predecessors''"
abbreviation "R_BRANCH_IDS \<equiv> ''fabric.run.branch_ids''"
abbreviation "R_DECLARED_BRANCHES \<equiv> ''fabric.run.declared_branches''"
abbreviation "R_RESUMABLE \<equiv> ''fabric.run.resumable''"
abbreviation "R_OPEN_DEADLINE \<equiv> ''fabric.run.open_deadline_s''"
abbreviation "R_ID_BASIS \<equiv> ''fabric.run.id_basis''"
abbreviation "R_TERMINAL \<equiv> ''fabric.run.terminal''"
abbreviation "R_OUTCOME \<equiv> ''fabric.run.outcome''"
abbreviation "R_STOP_REASON \<equiv> ''fabric.run.stop_reason''"
abbreviation "R_SCOPE_STATUS \<equiv> ''fabric.run.scope_status''"
abbreviation "R_PARENT \<equiv> ''fabric.run.parent_id''"
abbreviation "R_RESUMED_FROM \<equiv> ''fabric.run.resumed_from''"
abbreviation "R_LINKS \<equiv> ''fabric.run.links''"
abbreviation "A_SESSION_ID \<equiv> ''fabric.session_id''"
abbreviation "A_USER_ID \<equiv> ''fabric.user_id''"
abbreviation "S_LAST \<equiv> ''fabric.segment.last_sequence''"
abbreviation "S_MANIFEST_DIGEST \<equiv> ''fabric.segment.manifest_digest''"
abbreviation "S_SEAL_DIGEST \<equiv> ''fabric.segment.seal_digest''"
abbreviation "S_BRANCH_IDS \<equiv> ''fabric.segment.branch_ids''"
abbreviation "SPAN_MANIFEST \<equiv> ''fabric.capture_manifest''"

definition apis :: "string list" where
  "apis = [''openai.chat_completions'', ''openai.responses'', ''openai.completions'', ''openai.embeddings'', ''anthropic.messages'']"

definition response_states :: "string list" where
  "response_states = [''complete'', ''closed_early'', ''error'', ''abandoned'']"

definition store_statuses :: "string list" where
  "store_statuses = [''stored'', ''partial'', ''failed'', ''disabled'']"

definition loss_reasons :: "string list" where
  "loss_reasons = [''queue_full'', ''internal_error'', ''shutdown'', ''span_dropped'', ''uninstrumented_client'', ''disk_full'',
     ''destination_rejected'']"

definition id_bases :: "string list" where
  "id_bases = [''caller'', ''caller_join'', ''token'', ''token_conflict'', ''minted'', ''legacy'']"

definition run_outcomes :: "string list" where
  "run_outcomes = [''completed'', ''failed'', ''cancelled'', ''suspended'', ''unknown'']"

definition stop_reasons :: "string list" where
  "stop_reasons = [''goal_reached'', ''max_steps'', ''max_tokens'', ''error'', ''cancelled'', ''handoff'', ''awaiting_input'',
     ''other'', ''unknown'']"

definition scope_statuses :: "string list" where
  "scope_statuses = [''ok'', ''error'', ''cancelled'']"

definition get :: "attrs \<Rightarrow> string \<Rightarrow> json" where
  "get a k = (case map_of a k of None \<Rightarrow> JNull | Some v \<Rightarrow> v)"

definition has :: "attrs \<Rightarrow> string \<Rightarrow> bool" where
  "has a k \<longleftrightarrow> map_of a k \<noteq> None"

subsection \<open>Value validators\<close>

definition str_if :: "(string \<Rightarrow> bool) \<Rightarrow> json \<Rightarrow> string option" where
  "str_if P v = (case v of JStr s \<Rightarrow> if P s then Some s else None | _ \<Rightarrow> None)"

definition opaque_id :: "json \<Rightarrow> string option" where
  "opaque_id v = str_if opaque_id_re v"

definition int_at_least :: "json \<Rightarrow> int \<Rightarrow> int option" where
  "int_at_least v minimum = (case v of JInt i \<Rightarrow> if i < minimum then None else Some i | _ \<Rightarrow> None)"

definition enum_value :: "json \<Rightarrow> string list \<Rightarrow> string option" where
  "enum_value v allowed = str_if (\<lambda>s. s \<in> set allowed) v"

definition digest_value :: "json \<Rightarrow> string option" where
  "digest_value v = map_option (\<lambda>s. ''sha256:'' @ s) (str_if (hex_n 64) v)"

definition scope_id_value :: "json \<Rightarrow> string option" where
  "scope_id_value v = str_if uuid4_re v"

definition uuid4_value :: "json \<Rightarrow> string option" where
  "uuid4_value v = str_if uuid4_re v"

definition segment_id_value :: "json \<Rightarrow> string option" where
  "segment_id_value v = str_if segment_id_re v"

definition prefixed_digest :: "json \<Rightarrow> string option" where
  "prefixed_digest v = str_if prefixed_digest_re v"

definition predecessor_json :: "json \<Rightarrow> string option" where
  "predecessor_json v = (case v of JStr s \<Rightarrow> predecessor_value s | _ \<Rightarrow> None)"

definition branch_value :: "json \<Rightarrow> string option" where
  "branch_value v = str_if branch_id_re v"

definition list_of :: "json \<Rightarrow> (json \<Rightarrow> string option) \<Rightarrow> nat \<Rightarrow> string list option" where
  "list_of v chk limit = (case v of JList vs \<Rightarrow> if length vs > limit then None else those (map chk vs) | _ \<Rightarrow> None)"

definition id_list :: "json \<Rightarrow> (json \<Rightarrow> string option) \<Rightarrow> nat \<Rightarrow> string list" where
  "id_list v chk limit = (case list_of v chk limit of None \<Rightarrow> [] | Some xs \<Rightarrow> xs)"

definition optional_bool :: "json \<Rightarrow> bool option" where
  "optional_bool v = (case v of JBool b \<Rightarrow> Some b | _ \<Rightarrow> None)"

definition pseudonym :: "(string \<Rightarrow> string) \<Rightarrow> string \<Rightarrow> string" where
  "pseudonym SH v = ''p-'' @ take 16 (SH v)"

definition trace_id_value :: "string \<Rightarrow> string option" where
  "trace_id_value s = (if hex_n 32 s \<and> s \<noteq> replicate 32 CHR ''0'' then Some s else None)"

definition span_id_value :: "string \<Rightarrow> string option" where
  "span_id_value s = (if hex_n 16 s \<and> s \<noteq> replicate 16 CHR ''0'' then Some s else None)"

definition ref_value :: "json \<Rightarrow> string option" where
  "ref_value v = str_if (\<lambda>s. s \<noteq> []) v"

definition response_id_value :: "(string \<Rightarrow> string) \<Rightarrow> json \<Rightarrow> string option" where
  "response_id_value SH v = map_option (pseudonym SH) (ref_value v)"

definition http_status_value :: "json \<Rightarrow> int option" where
  "http_status_value v = (case int_at_least v 100 of None \<Rightarrow> None | Some s \<Rightarrow> if s \<le> 599 then Some s else None)"

definition rstrip :: "char \<Rightarrow> string \<Rightarrow> string" where
  "rstrip c s = rev (dropWhile (\<lambda>d. d = c) (rev s))"

definition object_id_from_ref :: "json \<Rightarrow> string option" where
  "object_id_from_ref v = (case ref_value v of None \<Rightarrow> None
     | Some s \<Rightarrow> opaque_id (JStr (snd (rpartition CHR ''/'' (rstrip CHR ''/'' s)))))"

definition authenticated :: "attrs \<Rightarrow> bool" where
  "authenticated a \<longleftrightarrow> get a A_SOURCE_AUTHENTICATED = JBool True"

subsection \<open>Heartbeats and seals\<close>

definition kind_value :: "json \<Rightarrow> heartbeat_kind option" where
  "kind_value v = (case v of
       JStr s \<Rightarrow> if s = ''periodic'' then Some Periodic else if s = ''run_start'' then Some Run_start
         else if s = ''run_end'' then Some Run_end else if s = ''final'' then Some Final
         else if s = ''segment_seal'' then Some Segment_seal else None
     | _ \<Rightarrow> None)"

definition is_run_marker :: "heartbeat_kind option \<Rightarrow> bool" where
  "is_run_marker k \<longleftrightarrow> k = Some Run_start \<or> k = Some Run_end"

definition marker_keys :: "string list" where
  "marker_keys = [R_PREDECESSORS, R_BRANCH_IDS, R_DECLARED_BRANCHES, R_RESUMABLE, R_OPEN_DEADLINE,
     R_ID_BASIS, A_MANIFEST_ID, A_MANIFEST_DIGEST, A_SESSION_ID, A_USER_ID, R_PARENT,
     R_RESUMED_FROM, R_LINKS, R_OUTCOME, R_STOP_REASON, R_SCOPE_STATUS, A_SEGMENT_ID, A_EVENT_ID]"

definition marker_info :: "attrs \<Rightarrow> run_marker_info option \<times> bool" where
  "marker_info a =
     (if \<not> list_ex (has a) marker_keys then (None, False)
      else
        let preds = (if has a R_PREDECESSORS then list_of (get a R_PREDECESSORS) predecessor_json 64 else Some []);
            info = \<lparr>i_predecessors = (case preds of None \<Rightarrow> [] | Some ps \<Rightarrow> ps),
              i_branch_ids = id_list (get a R_BRANCH_IDS) branch_value 64,
              i_declared_branches = id_list (get a R_DECLARED_BRANCHES) segment_id_value 64,
              i_resumable = optional_bool (get a R_RESUMABLE),
              i_open_deadline_s = (case int_at_least (get a R_OPEN_DEADLINE) 60 of None \<Rightarrow> None
                | Some d \<Rightarrow> if d \<le> 31536000 then Some d else None),
              i_id_basis = enum_value (get a R_ID_BASIS) id_bases,
              i_manifest_id = uuid4_value (get a A_MANIFEST_ID),
              i_manifest_digest = prefixed_digest (get a A_MANIFEST_DIGEST),
              i_session_id = opaque_id (get a A_SESSION_ID), i_user_id = opaque_id (get a A_USER_ID),
              i_parent_run_id = opaque_id (get a R_PARENT), i_resumed_from = opaque_id (get a R_RESUMED_FROM),
              i_links = id_list (get a R_LINKS) opaque_id 16,
              i_outcome = enum_value (get a R_OUTCOME) run_outcomes,
              i_stop_reason = enum_value (get a R_STOP_REASON) stop_reasons,
              i_scope_status = enum_value (get a R_SCOPE_STATUS) scope_statuses,
              i_start_ns = 0, i_event_id = uuid4_value (get a A_EVENT_ID)\<rparr>
        in (Some info, preds = None \<or> has a R_PREDECESSORS \<and> preds = Some []))"

definition plain_heartbeat :: "string \<Rightarrow> int \<Rightarrow> int \<Rightarrow> int option \<Rightarrow> heartbeat_obs" where
  "plain_heartbeat source epoch last_seq manifest_seq =
     \<lparr>h_source_id = source, h_source_epoch = epoch, h_kind = None, h_run_id = None, h_last_sequence = last_seq,
      h_scope_id = None, h_authenticated = False, h_segment_id = None, h_info = None, h_manifest_seq = manifest_seq\<rparr>"

definition segment_seal :: "attrs \<Rightarrow> heartbeat_obs \<Rightarrow> int \<Rightarrow> segment_seal_obs option" where
  "segment_seal a plain start_ns =
     (case (segment_id_value (get a A_SEGMENT_ID), int_at_least (get a S_LAST) (-1), prefixed_digest (get a S_SEAL_DIGEST),
            list_of (if has a S_BRANCH_IDS then get a S_BRANCH_IDS else JList []) branch_value 64) of
        (Some seg, Some seal_last, Some digest, Some branches) \<Rightarrow>
          if has a A_RUN_ID \<and> opaque_id (get a A_RUN_ID) = None then None
          else Some \<lparr>ss_source_id = h_source_id plain, ss_source_epoch = h_source_epoch plain,
            ss_last_sequence = h_last_sequence plain, ss_segment_id = seg, ss_seal_last_sequence = seal_last,
            ss_seal_digest = digest, ss_manifest_digest = prefixed_digest (get a S_MANIFEST_DIGEST),
            ss_terminal = optional_bool (get a R_TERMINAL), ss_resumable = optional_bool (get a R_RESUMABLE),
            ss_branch_ids = branches, ss_run_id = opaque_id (get a A_RUN_ID), ss_scope_id = scope_id_value (get a A_SCOPE_ID),
            ss_manifest_seq = h_manifest_seq plain, ss_authenticated = False, ss_sealed_ns = Some start_ns\<rparr>
      | _ \<Rightarrow> None)"

definition heartbeat :: "attrs \<Rightarrow> string option \<Rightarrow> int option \<Rightarrow> int \<Rightarrow> observation option" where
  "heartbeat a source epoch start_ns =
     (let kind = kind_value (get a H_KIND); manifest_seq = int_at_least (get a A_MANIFEST_SEQ) 0;
          plain = (case (source, epoch, int_at_least (get a H_LAST) (-1)) of
            (Some s, Some e, Some l) \<Rightarrow> Some (plain_heartbeat s e l manifest_seq) | _ \<Rightarrow> None)
      in if kind = Some Segment_seal then
           (case plain of None \<Rightarrow> None
            | Some p \<Rightarrow> (case segment_seal a p start_ns of Some s \<Rightarrow> Some (Segment_seal_obs s) | None \<Rightarrow> Some (Heartbeat_obs p)))
         else
           let run = opaque_id (get a A_RUN_ID); scope = scope_id_value (get a A_SCOPE_ID);
               seg = segment_id_value (get a A_SEGMENT_ID);
               (info, bad) = (if is_run_marker kind then marker_info a else (None, False));
               malformed = (bad \<or> has a A_SEGMENT_ID \<and> seg = None)
           in if is_run_marker kind \<and> scope \<noteq> None \<and> (run = None \<or> plain = None \<or> malformed)
              then Some (Malformed_marker_obs \<lparr>mm_scope_id = the scope, mm_heartbeat = plain\<rparr>)
              else case plain of
                None \<Rightarrow> None
              | Some p \<Rightarrow>
                  if \<not> is_run_marker kind then Some (Heartbeat_obs (p\<lparr>h_kind := kind\<rparr>))
                  else if run = None \<or> scope = None then Some (Heartbeat_obs p)
                  else Some (Heartbeat_obs (p\<lparr>h_kind := kind, h_run_id := run, h_scope_id := scope, h_segment_id := seg,
                         h_info := map_option (\<lambda>i. i\<lparr>i_start_ns := start_ns\<rparr>) info\<rparr>)))"

subsection \<open>Losses and records\<close>

definition loss :: "attrs \<Rightarrow> string option \<Rightarrow> int option \<Rightarrow> loss_obs option" where
  "loss a source epoch =
     (case (source, epoch, enum_value (get a L_REASON) loss_reasons, int_at_least (get a L_COUNT) 1,
            int_at_least (get a L_FIRST) 0, int_at_least (get a L_LAST) 0) of
        (Some s, Some e, Some reason, Some n, Some first, Some l) \<Rightarrow>
          if l < first \<or> n > l - first + 1 then None
          else if has a A_SEGMENT_ID \<and> segment_id_value (get a A_SEGMENT_ID) = None then None
          else Some \<lparr>l_source_id = s, l_source_epoch = e, l_reason = reason, l_count = n, l_first_sequence = first,
            l_last_sequence = l, l_authenticated = False, l_segment_id = segment_id_value (get a A_SEGMENT_ID)\<rparr>
      | _ \<Rightarrow> None)"

definition record_fingerprint :: "(string \<Rightarrow> string) \<Rightarrow> span_record \<Rightarrow> string" where
  "record_fingerprint SH sp = SH (json_str (JList [JStr (sp_name sp), JInt (sp_start_ns sp), JInt (sp_end_ns sp),
     JStr (sp_status sp), JObj (filter (\<lambda>(k, v). \<not> receiver_owned k) (sp_attributes sp))]))"

definition record_of :: "(string \<Rightarrow> string) \<Rightarrow> span_record \<Rightarrow> string option \<Rightarrow> int option \<Rightarrow> record_obs option" where
  "record_of SH sp source epoch =
     (let a = sp_attributes sp; run = opaque_id (get a A_RUN_ID); scope = scope_id_value (get a A_SCOPE_ID);
          seg = segment_id_value (get a A_SEGMENT_ID)
      in case (source, epoch, int_at_least (get a A_SOURCE_SEQUENCE) 0, uuid4_value (get a A_EVENT_ID), uuid4_value (get a A_ATTEMPT_UID)) of
           (Some s, Some e, Some n, Some event, Some attempt) \<Rightarrow>
             if has a A_RUN_ID \<and> run = None \<or> has a A_SCOPE_ID \<and> scope = None then None
             else if has a A_SEGMENT_ID \<and> seg = None then None
             else Some \<lparr>r_source_id = s, r_source_epoch = e, r_source_sequence = n, r_event_id = event, r_attempt_uid = attempt,
               r_run_id = run, r_scope_id = scope, r_segment_id = seg, r_fingerprint = record_fingerprint SH sp,
               r_span = sp, r_authenticated = False\<rparr>
         | _ \<Rightarrow> None)"

subsection \<open>Exchanges\<close>

datatype input_error = Malformed_identity | Both_marker_classes

definition exchange_identity ::
  "(string \<Rightarrow> string) \<Rightarrow> span_record \<Rightarrow> string option \<Rightarrow> int option \<Rightarrow> exchange_obs option" where
  "exchange_identity SH sp source epoch =
     (let a = sp_attributes sp; scope = scope_id_value (get a A_SCOPE_ID); seg = segment_id_value (get a A_SEGMENT_ID)
      in case (source, epoch, opaque_id (get a A_EXCHANGE_ID), int_at_least (get a A_SOURCE_SEQUENCE) 0, opaque_id (get a A_RUN_ID)) of
           (Some s, Some e, Some i, Some n, Some run) \<Rightarrow>
             if has a A_SCOPE_ID \<and> scope = None \<or> has a A_SEGMENT_ID \<and> seg = None then None
             else Some \<lparr>x_exchange_id = i, x_source_id = s, x_source_epoch = e, x_source_sequence = n, x_run_id = run,
               x_api = [], x_response_state = [], x_store_status = [], x_truncated = False, x_request_sha256 = Some [],
               x_response_sha256 = None, x_request_ref = None, x_response_ref = None, x_start_ns = sp_start_ns sp,
               x_end_ns = max (sp_end_ns sp) (sp_start_ns sp), x_trace_id = trace_id_value (sp_trace_id sp),
               x_span_id = span_id_value (sp_span_id sp), x_model = None, x_response_id = None, x_http_status = None,
               x_scope_id = scope, x_malformed = True, x_authenticated = authenticated a, x_segment_id = seg,
               x_fingerprint = (if seg = None then None else Some (record_fingerprint SH sp)),
               x_span = (if seg = None then None else Some sp),
               x_endpoint_id = str_if (\<lambda>s. True) (get a A_ENDPOINT_ID)\<rparr>
         | _ \<Rightarrow> None)"

definition exchange_malformed :: "attrs \<Rightarrow> bool \<Rightarrow> bool" where
  "exchange_malformed a ambiguous \<longleftrightarrow>
     ambiguous \<or> enum_value (get a A_API) apis = None \<or> enum_value (get a A_RESPONSE_STATE) response_states = None \<or>
     enum_value (get a A_STORE_STATUS) store_statuses = None \<or>
     has a A_REQUEST_REF \<and> digest_value (get a A_REQUEST_SHA256) = None \<or>
     has a A_REQUEST_SHA256 \<and> digest_value (get a A_REQUEST_SHA256) = None \<or>
     has a A_RESULT_REF \<and> digest_value (get a A_RESPONSE_SHA256) = None \<or>
     optional_bool (get a A_TRUNCATED) = None \<or>
     has a A_RESPONSE_SHA256 \<and> digest_value (get a A_RESPONSE_SHA256) = None \<or>
     has a A_HTTP_STATUS \<and> http_status_value (get a A_HTTP_STATUS) = None \<or>
     list_ex (\<lambda>k. has a k \<and> ref_value (get a k) = None) [A_REQUEST_REF, A_RESULT_REF]"

definition exchange ::
  "(string \<Rightarrow> string) \<Rightarrow> span_record \<Rightarrow> string option \<Rightarrow> int option \<Rightarrow> bool \<Rightarrow> input_error + exchange_obs" where
  "exchange SH sp source epoch ambiguous =
     (let a = sp_attributes sp in
      case exchange_identity SH sp source epoch of
        None \<Rightarrow> Inl Malformed_identity
      | Some x \<Rightarrow> Inr (if exchange_malformed a ambiguous then x
          else x\<lparr>x_api := the (enum_value (get a A_API) apis),
                 x_response_state := the (enum_value (get a A_RESPONSE_STATE) response_states),
                 x_store_status := the (enum_value (get a A_STORE_STATUS) store_statuses),
                 x_truncated := the (optional_bool (get a A_TRUNCATED)),
                 x_request_sha256 := digest_value (get a A_REQUEST_SHA256),
                 x_response_sha256 := digest_value (get a A_RESPONSE_SHA256),
                 x_request_ref := ref_value (get a A_REQUEST_REF), x_response_ref := ref_value (get a A_RESULT_REF),
                 x_model := ref_value (get a A_RESPONSE_MODEL), x_response_id := response_id_value SH (get a A_RESPONSE_ID),
                 x_http_status := http_status_value (get a A_HTTP_STATUS), x_malformed := False\<rparr>))"

subsection \<open>Manifests\<close>

definition manifest_span_keys :: "(string list \<times> string) list" where
  "manifest_span_keys = [
     ([''manifest_id''], ''fabric.capture.manifest_id''),
     ([''after_source_sequence''], ''fabric.manifest.after_source_sequence''),
     ([''capture_points'', ''fields''], ''fabric.manifest.capture_point_fields''),
     ([''capture_points''], ''fabric.manifest.capture_points''),
     ([''capture_policy'', ''encrypted_store_required''], ''fabric.manifest.capture_policy.encrypted_store_required''),
     ([''capture_policy'', ''policy_digest''], ''fabric.manifest.capture_policy.policy_digest''),
     ([''capture_policy'', ''policy_id''], ''fabric.manifest.capture_policy.policy_id''),
     ([''capture_policy'', ''policy_version''], ''fabric.manifest.capture_policy.policy_version''),
     ([''chunk_boundaries_retained''], ''fabric.manifest.chunk_boundaries_retained''),
     ([''clock'', ''domain''], ''fabric.manifest.clock.domain''),
     ([''clock'', ''uncertainty_ns''], ''fabric.manifest.clock.uncertainty_ns''),
     ([''content_capture''], ''fabric.manifest.content_capture''),
     ([''content_capture_reason''], ''fabric.manifest.content_capture_reason''),
     ([''coverage_profile''], ''fabric.manifest.coverage_profile''),
     ([''emitted_at''], ''fabric.manifest.emitted_at''),
     ([''endpoint_set_sha256''], ''fabric.manifest.endpoint_set_digest''),
     ([''explicit_wins''], ''fabric.manifest.explicit_wins''),
     ([''identity_mode''], ''fabric.manifest.identity_mode''),
     ([''inputs''], ''fabric.manifest.inputs''),
     ([''key_id''], ''fabric.manifest.key_id''),
     ([''limits'', ''max_body_bytes''], ''fabric.manifest.limits.max_body_bytes''),
     ([''limits'', ''max_inflight_bytes''], ''fabric.manifest.limits.max_inflight_bytes''),
     ([''limits'', ''max_retain_bytes''], ''fabric.manifest.limits.max_retain_bytes''),
     ([''limits'', ''open_run_deadline_s''], ''fabric.manifest.limits.open_run_deadline_s''),
     ([''limits'', ''part_min_bytes''], ''fabric.manifest.limits.part_min_bytes''),
     ([''limits'', ''queue_max_items''], ''fabric.manifest.limits.queue_max_items''),
     ([''limits'', ''records_max_object_bytes''], ''fabric.manifest.limits.records_max_object_bytes''),
     ([''manifest_seq''], ''fabric.manifest.manifest_seq''),
     ([''clock'', ''max_uncertainty_ns''], ''fabric.manifest.max_clock_uncertainty_ns''),
     ([''previous_manifest_sha256''], ''fabric.manifest.previous_manifest_digest''),
     ([''profile''], ''fabric.manifest.profile''),
     ([''pseudonym_mode''], ''fabric.manifest.pseudonym_mode''),
     ([''role_table_version''], ''fabric.manifest.role_table_version''),
     ([''runtime'', ''name''], ''fabric.manifest.runtime.name''),
     ([''runtime'', ''version''], ''fabric.manifest.runtime.version''),
     ([''sdk'', ''language''], ''fabric.manifest.sdk.language''),
     ([''sequence_unit''], ''fabric.manifest.sequence_unit''),
     ([''source_auth''], ''fabric.manifest.source_auth''),
     ([''spool_encrypted''], ''fabric.manifest.spool_encrypted''),
     ([''spool_key_id''], ''fabric.manifest.spool_key_id''),
     ([''uncaptured_classes''], ''fabric.manifest.uncaptured_classes''),
     ([''unsealed_prior_epoch_count''], ''fabric.manifest.unsealed_prior_epoch_count''),
     ([''unsealed_prior_epochs''], ''fabric.manifest.unsealed_prior_epochs''),
     ([''event_id''], ''fabric.event_id''),
     ([''schema_version''], ''fabric.schema_version''),
     ([''sdk'', ''version''], ''fabric.sdk.version''),
     ([''source_epoch''], ''fabric.source.epoch''),
     ([''source_id''], ''fabric.source_id'')]"

text \<open>Python's \<^verbatim>\<open>repr\<close> and \<^verbatim>\<open>str\<close> of a JSON value (of printable text).\<close>

definition repr_char :: "char \<Rightarrow> char \<Rightarrow> string" where
  "repr_char q c = (if c = q \<or> c = CHR 0x5C then [CHR 0x5C, c]
     else if c = CHR 0x0A then [CHR 0x5C, CHR ''n''] else if c = CHR 0x0D then [CHR 0x5C, CHR ''r'']
     else if c = CHR 0x09 then [CHR 0x5C, CHR ''t'']
     else if (of_char c :: nat) < 32 \<or> c = CHR 0x7F
     then [CHR 0x5C, CHR ''x'', digit_hex (of_char c div 16), digit_hex (of_char c mod 16)] else [c])"

definition repr_str :: "string \<Rightarrow> string" where
  "repr_str s = (let q = (if CHR 0x27 \<in> set s \<and> CHR 0x22 \<notin> set s then CHR 0x22 else CHR 0x27) in
     q # concat (map (repr_char q) s) @ [q])"

function py_repr :: "json \<Rightarrow> string" where
  "py_repr JNull = ''None''"
| "py_repr (JBool b) = (if b then ''True'' else ''False'')"
| "py_repr (JInt i) = int_str i"
| "py_repr (JFloat s) = s"
| "py_repr (JStr s) = repr_str s"
| "py_repr (JList vs) = ''['' @ join_with '', '' (map py_repr vs) @ '']''"
| "py_repr (JObj kvs) = ''{'' @ join_with '', '' (map (\<lambda>(k, v). repr_str k @ '': '' @ py_repr v) kvs) @ ''}''"
  by pat_completeness auto
termination
  by (relation "measure size") (auto dest: size_obj_mem simp: less_Suc_eq_le size_list_estimation')

definition py_str :: "json \<Rightarrow> string" where
  "py_str v = (case v of JStr s \<Rightarrow> s | _ \<Rightarrow> py_repr v)"

fun put_path :: "string list \<Rightarrow> json \<Rightarrow> attrs \<Rightarrow> attrs option" where
  "put_path [] v d = None"
| "put_path [k] v d = Some (AList.update k v d)"
| "put_path (k # k' # ks) v d =
     (case map_of d k of
        None \<Rightarrow> map_option (\<lambda>d'. AList.update k (JObj d') d) (put_path (k' # ks) v [])
      | Some (JObj d0) \<Rightarrow> map_option (\<lambda>d'. AList.update k (JObj d') d) (put_path (k' # ks) v d0)
      | Some _ \<Rightarrow> None)"

definition epoch_item :: "json \<Rightarrow> json option" where
  "epoch_item v = (case str_if decimal_re v of None \<Rightarrow> None
     | Some s \<Rightarrow> if str_int s > int64_max then None else Some (JInt (str_int s)))"

definition property_value :: "string list \<Rightarrow> json \<Rightarrow> json option" where
  "property_value prop v =
     (if prop = [''unsealed_prior_epochs''] then (case v of JList vs \<Rightarrow> map_option JList (those (map epoch_item vs)) | _ \<Rightarrow> None)
      else Some v)"

fun put_properties :: "attrs \<Rightarrow> (string list \<times> string) list \<Rightarrow> attrs \<Rightarrow> attrs option" where
  "put_properties a [] d = Some d"
| "put_properties a ((prop, key) # rest) d =
     (if \<not> has a key \<or> prop = [''capture_points''] \<or> prop = [''capture_points'', ''fields''] then put_properties a rest d
      else case property_value prop (get a key) of
        None \<Rightarrow> None
      | Some v \<Rightarrow> (case put_path prop v d of None \<Rightarrow> None | Some d' \<Rightarrow> put_properties a rest d'))"

definition split_first :: "char \<Rightarrow> string \<Rightarrow> (string \<times> string) option" where
  "split_first c s = (if c \<in> set s then Some (takeWhile (\<lambda>x. x \<noteq> c) s, drop 1 (dropWhile (\<lambda>x. x \<noteq> c) s)) else None)"

definition point_of :: "(string \<times> string) list \<Rightarrow> string \<Rightarrow> json option" where
  "point_of fmap s =
     (let parts = split_on CHR '':'' s; n = length parts - 5 in
      if length parts < 6 then None
      else case drop n parts of
        [kind, state, process_global, opt_in, reason] \<Rightarrow>
          (case split_first CHR ''@'' (join_with '':'' (take n parts)) of
             None \<Rightarrow> None
           | Some (point_id, version) \<Rightarrow> Some (JObj
               ([(''id'', JStr point_id), (''version'', JStr version), (''kind'', JStr kind), (''state'', JStr state),
                 (''process_global'', JBool (process_global = ''1'')), (''opt_in'', JBool (opt_in = ''1'')),
                 (''fields'', JList (map JStr (filter (\<lambda>f. f \<noteq> [])
                    (split_on CHR '','' (case map_of (rev fmap) point_id of None \<Rightarrow> [] | Some f \<Rightarrow> f)))))] @
                (if reason \<noteq> ''-'' then [(''reason'', JStr reason)] else []))))
      | _ \<Rightarrow> None)"

definition rows :: "attrs \<Rightarrow> string \<Rightarrow> json list option" where
  "rows a k = (if \<not> has a k then Some [] else case get a k of JList vs \<Rightarrow> Some vs | _ \<Rightarrow> None)"

definition manifest_document :: "attrs \<Rightarrow> attrs option" where
  "manifest_document a =
     (case (put_properties a manifest_span_keys [], rows a ''fabric.manifest.capture_point_fields'', rows a ''fabric.manifest.capture_points'') of
        (Some d, Some field_rows, Some point_rows) \<Rightarrow>
          (case those (map (\<lambda>v. split_first CHR ''='' (py_str v)) field_rows) of
             None \<Rightarrow> None
           | Some fmap \<Rightarrow>
               (case those (map (\<lambda>v. point_of fmap (py_str v)) point_rows) of
                  None \<Rightarrow> None
                | Some points \<Rightarrow> Some (AList.update ''capture_points'' (JList points) d)))
      | _ \<Rightarrow> None)"

definition int_items :: "json \<Rightarrow> int list" where
  "int_items v = (case v of JList vs \<Rightarrow> List.map_filter (\<lambda>w. case w of JInt i \<Rightarrow> Some i | _ \<Rightarrow> None) vs | _ \<Rightarrow> [])"

definition manifest :: "(string \<Rightarrow> string) \<Rightarrow> attrs \<Rightarrow> string option \<Rightarrow> int option \<Rightarrow> manifest_obs option" where
  "manifest SH a source epoch =
     (case (source, epoch, manifest_document a) of
        (Some s, Some e, Some d) \<Rightarrow>
          (if \<not> no_floats (JObj d) then None
           else case (uuid4_value (get d ''manifest_id''), int_at_least (get d ''manifest_seq'') 0,
                      int_at_least (get d ''after_source_sequence'') (-1)) of
             (Some i, Some n, Some after) \<Rightarrow>
               (let previous = get d ''previous_manifest_sha256'' in
                if previous \<noteq> JNull \<and> prefixed_digest previous = None \<or> get d ''source_id'' \<noteq> JStr s \<or> get d ''source_epoch'' \<noteq> JInt e
                then None
                else Some \<lparr>m_source_id = s, m_source_epoch = e, m_manifest_id = i, m_manifest_seq = n, m_after_source_sequence = after,
                  m_previous_sha256 = prefixed_digest previous, m_unsealed_prior_epochs = int_items (get d ''unsealed_prior_epochs''),
                  m_sha256 = ''sha256:'' @ SH (json_str (JObj d)), m_document = JObj d, m_authenticated = False\<rparr>)
           | _ \<Rightarrow> None)
      | _ \<Rightarrow> None)"

subsection \<open>Classification\<close>

fun authenticate :: "observation \<Rightarrow> observation" where
  "authenticate (Exchange_obs x) = Exchange_obs (x\<lparr>x_authenticated := True\<rparr>)"
| "authenticate (Loss_obs l) = Loss_obs (l\<lparr>l_authenticated := True\<rparr>)"
| "authenticate (Heartbeat_obs h) = Heartbeat_obs (h\<lparr>h_authenticated := True\<rparr>)"
| "authenticate (Malformed_marker_obs m) = Malformed_marker_obs
     (m\<lparr>mm_heartbeat := map_option (\<lambda>h. h\<lparr>h_authenticated := True\<rparr>) (mm_heartbeat m)\<rparr>)"
| "authenticate (Record_obs r) = Record_obs (r\<lparr>r_authenticated := True\<rparr>)"
| "authenticate (Segment_seal_obs s) = Segment_seal_obs (s\<lparr>ss_authenticated := True\<rparr>)"
| "authenticate (Manifest_obs m) = Manifest_obs (m\<lparr>m_authenticated := True\<rparr>)"

definition observe :: "(string \<Rightarrow> string) \<Rightarrow> span_record \<Rightarrow> input_error + observation option" where
  "observe SH sp =
     (let a = sp_attributes sp; source = opaque_id (get a A_SOURCE_ID); epoch = int_at_least (get a A_SOURCE_EPOCH) 0;
          beat = has a H_LAST; lost = has a L_REASON;
          stamped = (\<lambda>ob. Inr (map_option (\<lambda>x. if authenticated a then authenticate x else x) ob))
      in if has a A_EXCHANGE_ID then
           (case exchange SH sp source epoch (beat \<or> lost) of Inl e \<Rightarrow> Inl e | Inr x \<Rightarrow> Inr (Some (Exchange_obs x)))
         else if get a A_CAPTURE_INPUT = JStr ''records'' \<and> has a A_SOURCE_SEQUENCE then
           stamped (if beat \<or> lost then None else map_option Record_obs (record_of SH sp source epoch))
         else if sp_name sp = SPAN_MANIFEST \<and> \<not> (beat \<or> lost) \<and> \<not> has a A_SOURCE_SEQUENCE then
           stamped (map_option Manifest_obs (manifest SH a source epoch))
         else if beat \<and> lost then Inl Both_marker_classes
         else if beat then stamped (heartbeat a source epoch (sp_start_ns sp))
         else if lost then stamped (map_option Loss_obs (loss a source epoch))
         else Inr None)"

subsection \<open>What an accepted observation satisfies\<close>

definition ref_ok :: "string \<Rightarrow> bool" where
  "ref_ok p \<longleftrightarrow> p = ''none'' \<or> match_entry p \<noteq> None"

definition marker_ok :: "heartbeat_obs \<Rightarrow> bool" where
  "marker_ok h \<longleftrightarrow> -1 \<le> h_last_sequence h \<and>
     (\<forall>i. h_info h = Some i \<longrightarrow> list_all ref_ok (i_predecessors i))"

fun bounded_obs :: "observation \<Rightarrow> bool" where
  "bounded_obs (Exchange_obs x) \<longleftrightarrow> 0 \<le> x_source_sequence x \<and> 0 \<le> x_source_epoch x \<and> x_start_ns x \<le> x_end_ns x"
| "bounded_obs (Record_obs r) \<longleftrightarrow> 0 \<le> r_source_sequence r \<and> 0 \<le> r_source_epoch r"
| "bounded_obs (Loss_obs l) \<longleftrightarrow> 0 \<le> l_first_sequence l \<and> l_first_sequence l \<le> l_last_sequence l \<and>
     1 \<le> l_count l \<and> l_count l \<le> l_last_sequence l - l_first_sequence l + 1 \<and> 0 \<le> l_source_epoch l"
| "bounded_obs (Heartbeat_obs h) \<longleftrightarrow> marker_ok h"
| "bounded_obs (Malformed_marker_obs m) \<longleftrightarrow> (\<forall>h. mm_heartbeat m = Some h \<longrightarrow> marker_ok h)"
| "bounded_obs (Segment_seal_obs s) \<longleftrightarrow> -1 \<le> ss_last_sequence s \<and> -1 \<le> ss_seal_last_sequence s"
| "bounded_obs (Manifest_obs m) \<longleftrightarrow> 0 \<le> m_manifest_seq m \<and> -1 \<le> m_after_source_sequence m"

lemma int_at_least_Some: "int_at_least v m = Some i \<Longrightarrow> m \<le> i"
  by (auto simp: int_at_least_def split: json.splits if_splits)

lemma predecessor_json_ok: "predecessor_json v = Some p \<Longrightarrow> ref_ok p"
  by (auto simp: predecessor_json_def predecessor_value_def ref_ok_def split: json.splits if_splits option.splits)

lemma those_all: "those (map f xs) = Some ys \<Longrightarrow> (\<And>x y. f x = Some y \<Longrightarrow> P y) \<Longrightarrow> list_all P ys"
  by (induction xs arbitrary: ys) (auto split: option.splits)

lemma list_of_all: "list_of v f n = Some ys \<Longrightarrow> (\<And>x y. f x = Some y \<Longrightarrow> P y) \<Longrightarrow> list_all P ys"
  using those_all [of f _ ys P] by (auto simp: list_of_def split: json.splits if_splits)

lemma marker_info_ok: "fst (marker_info a) = Some i \<Longrightarrow> list_all ref_ok (i_predecessors i)"
  using list_of_all [of "get a R_PREDECESSORS" predecessor_json 64 _ ref_ok] predecessor_json_ok
  by (auto simp: marker_info_def Let_def split: if_splits option.splits)

lemma plain_ok: "-1 \<le> l \<Longrightarrow> marker_ok (plain_heartbeat s e l m)"
  by (simp add: marker_ok_def plain_heartbeat_def)

lemma authenticate_bounded [simp]: "bounded_obs (authenticate ob) = bounded_obs ob"
  by (cases ob) (auto simp: marker_ok_def)

lemma exchange_bounded: "exchange SH sp source epoch amb = Inr x \<Longrightarrow> (\<And>e. epoch = Some e \<Longrightarrow> 0 \<le> e) \<Longrightarrow> bounded_obs (Exchange_obs x)"
  by (auto simp: exchange_def exchange_identity_def Let_def dest!: int_at_least_Some split: option.splits if_splits)

lemma record_bounded: "record_of SH sp source epoch = Some r \<Longrightarrow> (\<And>e. epoch = Some e \<Longrightarrow> 0 \<le> e) \<Longrightarrow> bounded_obs (Record_obs r)"
  by (auto simp: record_of_def Let_def dest!: int_at_least_Some split: option.splits if_splits)

lemma loss_bounded: "loss a source epoch = Some l \<Longrightarrow> (\<And>e. epoch = Some e \<Longrightarrow> 0 \<le> e) \<Longrightarrow> bounded_obs (Loss_obs l)"
  by (auto simp: loss_def dest!: int_at_least_Some split: option.splits if_splits)

lemma manifest_bounded: "manifest SH a source epoch = Some m \<Longrightarrow> bounded_obs (Manifest_obs m)"
  by (auto simp: manifest_def Let_def dest!: int_at_least_Some split: option.splits if_splits)

lemma segment_seal_bounded: "segment_seal a p n = Some s \<Longrightarrow> marker_ok p \<Longrightarrow> bounded_obs (Segment_seal_obs s)"
  by (auto simp: segment_seal_def marker_ok_def dest!: int_at_least_Some split: option.splits if_splits)

lemma marker_ok_kind: "marker_ok p \<Longrightarrow> marker_ok (p\<lparr>h_kind := k\<rparr>)"
  by (simp add: marker_ok_def)

lemma marker_ok_run: "marker_ok p \<Longrightarrow> (\<And>i. info = Some i \<Longrightarrow> list_all ref_ok (i_predecessors i)) \<Longrightarrow>
    marker_ok (p\<lparr>h_kind := k, h_run_id := r, h_scope_id := s, h_segment_id := g, h_info := map_option (\<lambda>i. i\<lparr>i_start_ns := n\<rparr>) info\<rparr>)"
  by (auto simp: marker_ok_def)

lemma heartbeat_bounded:
  assumes "heartbeat a source epoch n = Some ob"
  shows "bounded_obs ob"
proof -
  define plain where "plain = (case (source, epoch, int_at_least (get a H_LAST) (-1)) of
    (Some s, Some e, Some l) \<Rightarrow> Some (plain_heartbeat s e l (int_at_least (get a A_MANIFEST_SEQ) 0)) | _ \<Rightarrow> None)"
  obtain info bad where i: "(if is_run_marker (kind_value (get a H_KIND)) then marker_info a else (None, False)) = (info, bad)"
    by (meson surj_pair)
  have p: "marker_ok h" if "plain = Some h" for h
    using that plain_ok int_at_least_Some by (auto simp: plain_def split: option.splits)
  have j: "list_all ref_ok (i_predecessors k)" if "info = Some k" for k
    using that i marker_info_ok [of a k] by (auto split: if_splits)
  show ?thesis
    using assms p unfolding heartbeat_def Let_def plain_def [symmetric] i
    by (auto split: if_splits option.splits intro!: marker_ok_kind marker_ok_run
        intro: segment_seal_bounded j)
qed

lemma observe_bounded:
  assumes "observe SH sp = Inr (Some ob)"
  shows "bounded_obs ob"
proof -
  have e: "0 \<le> e" if "int_at_least (get (sp_attributes sp) A_SOURCE_EPOCH) 0 = Some e" for e
    using that int_at_least_Some by blast
  show ?thesis
    using assms unfolding observe_def Let_def
    by (auto split: if_splits option.splits sum.splits
        intro: exchange_bounded [OF _ e] record_bounded [OF _ e] loss_bounded [OF _ e] manifest_bounded heartbeat_bounded
        simp del: bounded_obs.simps authenticate.simps)
qed

end
