(* ===== verification/Finalize.thy ===== *)
theory Finalize
  imports CollectRules Windows Observe
begin

text \<open>
  Finalizing the collected state (\<^verbatim>\<open>sdk/python/src/fabric/reconstruct/_verify.py\<close>: \<^verbatim>\<open>_Verifier.finalize\<close>
  with the manifest-chain, unsealed-epoch, segment and seal checks, and the nodes of the segment graph).
  An index into an absent key or the minimum of nothing, on which the source raises, is \<open>None\<close>. The
  store reader's \<^verbatim>\<open>fetch_record\<close> is the optional parameter \<open>F\<close> (no reader: \<open>None\<close>), SHA-256 is \<open>SH\<close>.
  The lemmas show that finalizing a collected state always returns, which positions are conflicted, when
  a manifest chain has no window, and that a verified seal is the digest of exactly the positions and
  entries the capture recorded.
\<close>

type_synonym fetch_record = "string \<Rightarrow> attrs \<Rightarrow> object_result"

subsection \<open>Sources and scopes\<close>

definition finalize_sources :: "verifier \<Rightarrow> verifier" where
  "finalize_sources v = v\<lparr>v_sources := map (\<lambda>(k, s). (k, finalize s)) (v_sources v)\<rparr>"

definition at_source :: "source_key \<Rightarrow> (source \<Rightarrow> source) \<Rightarrow> verifier \<Rightarrow> verifier option" where
  "at_source key f v = (case map_of (v_sources v) key of None \<Rightarrow> None | Some _ \<Rightarrow> Some (on_source key f v))"

definition contested :: "verifier \<Rightarrow> string list \<Rightarrow> bool" where
  "contested v ids \<longleftrightarrow> length ids > 1 \<or> list_ex (\<lambda>i. i \<in> set (v_conflicts v)) ids"

definition mark :: "int \<Rightarrow> source \<Rightarrow> source" where
  "mark n s = s\<lparr>s_conflicted := add_new n (s_conflicted s)\<rparr>"

fun mark_claims :: "((source_key \<times> int) \<times> string list) list \<Rightarrow> verifier \<Rightarrow> verifier option" where
  "mark_claims [] v = Some v"
| "mark_claims (((key, n), ids) # rest) v =
     (if contested v ids then do { v' \<leftarrow> at_source key (mark n) v; mark_claims rest v' }
      else mark_claims rest v)"

definition finalize_source_conflicts :: "verifier \<Rightarrow> verifier" where
  "finalize_source_conflicts v = v\<lparr>v_sources := map (\<lambda>(k, s). (k, finalize_conflicts s)) (v_sources v)\<rparr>"

definition judge_scope :: "string list \<Rightarrow> scope \<Rightarrow> scope option" where
  "judge_scope malformed c = map_option (\<lambda>d. if sc_scope_id d \<in> set malformed
     then d\<lparr>sc_state := Scope_conflict, sc_problem := Some ''malformed_record''\<rparr> else d) (finalize_scope c)"

definition finalize_scopes :: "verifier \<Rightarrow> verifier option" where
  "finalize_scopes v = map_option (\<lambda>cs. v\<lparr>v_scopes := zip (map fst (v_scopes v)) cs\<rparr>)
     (those (map (\<lambda>(i, c). judge_scope (v_malformed_scopes v) c) (v_scopes v)))"

subsection \<open>Manifest chains\<close>

type_synonym manifest_window = "int \<times> int option \<times> string"

definition chain_low :: "manifest_obs option \<Rightarrow> int" where
  "chain_low prev = (case prev of None \<Rightarrow> 0 | Some p \<Rightarrow> m_after_source_sequence p + 1)"

definition next_high :: "manifest_obs list \<Rightarrow> int option" where
  "next_high ms = (case ms of [] \<Rightarrow> None | f # _ \<Rightarrow> Some (m_after_source_sequence f))"

definition link_windows :: "manifest_obs option \<Rightarrow> int \<Rightarrow> manifest_obs \<Rightarrow> manifest_obs list \<Rightarrow> manifest_window list" where
  "link_windows prev expected m rest =
     (if m_manifest_seq m > expected then [(chain_low prev, Some (m_after_source_sequence m), ''manifest_missing'')]
      else case prev of
        None \<Rightarrow> []
      | Some p \<Rightarrow> if m_previous_sha256 m \<noteq> Some (m_sha256 p) then [(chain_low prev, next_high rest, ''chain_mismatch'')] else [])"

fun chain_windows :: "int \<Rightarrow> manifest_obs option \<Rightarrow> int \<Rightarrow> manifest_obs list \<Rightarrow> manifest_window list" where
  "chain_windows highest prev expected [] = (if highest \<ge> expected then [(chain_low prev, None, ''manifest_missing'')] else [])"
| "chain_windows highest prev expected (m # ms) =
     link_windows prev expected m ms @ chain_windows highest (Some m) (m_manifest_seq m + 1) ms"

definition manifest_order :: "manifest_obs \<Rightarrow> int \<times> string" where
  "manifest_order m = (m_manifest_seq m, m_sha256 m)"

definition single_manifests :: "manifest_obs list \<Rightarrow> manifest_obs list" where
  "single_manifests ms = filter (\<lambda>m. length (filter (\<lambda>k. m_manifest_seq k = m_manifest_seq m) ms) = 1) ms"

definition chain_top :: "int \<Rightarrow> manifest_obs list \<Rightarrow> int" where
  "chain_top named ms = Max (set (named # map m_manifest_seq ms))"

definition check_chain :: "int \<Rightarrow> manifest_obs list \<Rightarrow> source \<Rightarrow> source" where
  "check_chain named found s =
     (let present = sort_key manifest_order found in
      s\<lparr>s_manifests := present,
        s_manifest_conflict := length (filter (\<lambda>m. m_manifest_seq m = 0) present) > 1,
        s_manifestless := s_manifestless s @ chain_windows (chain_top named present) None 0 (single_manifests present)\<rparr>)"

definition check_manifests :: "source_key \<Rightarrow> verifier \<Rightarrow> verifier" where
  "check_manifests key v = on_source key
     (check_chain (get_or (v_manifest_claims v) key (-1)) (get_or (v_manifest_obs v) key [])) v"

definition manifest_keys :: "verifier \<Rightarrow> source_key list" where
  "manifest_keys v = sorted_set (map fst (v_manifest_obs v) @ map fst (v_manifest_claims v))"

subsection \<open>Unsealed epochs and manifest references\<close>

definition declare_unsealed :: "source_key \<Rightarrow> source_key \<Rightarrow> string \<Rightarrow> verifier \<Rightarrow> verifier option" where
  "declare_unsealed key epoch why v = do {
     v' \<leftarrow> at_source key (\<lambda>s. s\<lparr>s_unsealed_epochs := add_new (snd epoch) (s_unsealed_epochs s)\<rparr>) v;
     Some (v'\<lparr>v_unsealed := setdefault (v_unsealed v') epoch why\<rparr>) }"

fun declare_all :: "(source_key \<times> source_key) list \<Rightarrow> string \<Rightarrow> verifier \<Rightarrow> verifier option" where
  "declare_all [] why v = Some v"
| "declare_all ((key, epoch) # rest) why v = do { v' \<leftarrow> declare_unsealed key epoch why v; declare_all rest why v' }"

definition declared_epochs :: "verifier \<Rightarrow> (source_key \<times> source_key) list" where
  "declared_epochs v = concat (map (\<lambda>(key, ms). concat (map (\<lambda>m.
     map (\<lambda>e. (key, (fst key, e))) (m_unsealed_prior_epochs m)) ms)) (v_manifest_obs v))"

fun orphan_epochs :: "source_key list \<Rightarrow> verifier \<Rightarrow> verifier option" where
  "orphan_epochs [] v = Some v"
| "orphan_epochs (key # rest) v =
     (case map_of (v_sources v) key of
        None \<Rightarrow> None
      | Some s \<Rightarrow>
          if s_final s = None \<and> key \<notin> fst ` set (v_manifest_obs v)
          then do { v' \<leftarrow> declare_unsealed key key ''orphan_epoch'' v; orphan_epochs rest v' }
          else orphan_epochs rest v)"

definition unsealed_epochs :: "verifier \<Rightarrow> verifier option" where
  "unsealed_epochs v = do {
     v1 \<leftarrow> declare_all (declared_epochs v) ''unsealed_prior_epoch'' v;
     if v_p1 v1 then orphan_epochs (v_periodic v1) v1 else Some v1 }"

definition ref_repr :: "manifest_ref \<Rightarrow> string" where
  "ref_repr r = (case r of (run, (source, epoch), digest, scope_id) \<Rightarrow>
     ''('' @ repr_str run @ '', ('' @ repr_str source @ '', '' @ int_str epoch @ ''), '' @ repr_str digest @ '', '' @
     (case scope_id of None \<Rightarrow> ''None'' | Some i \<Rightarrow> repr_str i) @ '')'')"

definition ref_gap :: "source_key \<Rightarrow> bool \<Rightarrow> gap" where
  "ref_gap key known_any = (mk_gap Manifest_gap Unverified)\<lparr>gap_source_id := Some (fst key), gap_source_epoch := Some (snd key),
     gap_reason := Some (if known_any then ''unknown_manifest'' else ''manifest_missing'')\<rparr>"

definition add_run_gaps :: "string \<Rightarrow> (gap \<times> string list) list \<Rightarrow> verifier \<Rightarrow> verifier" where
  "add_run_gaps run gs v = v\<lparr>v_run_gaps := upd_at (v_run_gaps v) run [] (\<lambda>xs. xs @ gs)\<rparr>"

definition check_manifest_ref :: "manifest_ref \<Rightarrow> verifier \<Rightarrow> verifier" where
  "check_manifest_ref r v = (case r of (run, key, digest, scope_id) \<Rightarrow>
     let ms = get_or (v_manifest_obs v) key [] in
     if digest \<in> m_sha256 ` set ms then v
     else add_run_gaps run [(ref_gap key (ms \<noteq> []), case scope_id of None \<Rightarrow> [] | Some i \<Rightarrow> [i])] v)"

definition check_manifest_refs :: "verifier \<Rightarrow> verifier" where
  "check_manifest_refs v = fold check_manifest_ref (sort_key ref_repr (v_manifest_refs v)) v"

subsection \<open>Seals\<close>

definition object_id_list :: "json \<Rightarrow> string list option" where
  "object_id_list v = (case v of
       JList vs \<Rightarrow> if 1 \<le> length vs \<and> length vs \<le> 8 then those (map uuid4_value vs) else None
     | _ \<Rightarrow> None)"

definition record_binding :: "record_obs \<Rightarrow> attrs" where
  "record_binding r = [(''source_id'', JStr (r_source_id r)), (''source_epoch'', JInt (r_source_epoch r)),
     (''source_sequence'', JInt (r_source_sequence r)), (''run_id'', opt_json (r_run_id r)),
     (''operation_id'', JStr (r_attempt_uid r)), (''attempt_id'', JStr (r_attempt_uid r))]"

definition record_object :: "fetch_record option \<Rightarrow> bool \<Rightarrow> record_obs \<Rightarrow> string \<Rightarrow> verifier \<Rightarrow> object_result \<times> verifier" where
  "record_object F data r i v =
     (let key = (i, r_source r, r_source_sequence r) in
      case (if data then None else map_of (v_record_objects v) key) of
        Some cached \<Rightarrow> (cached, v)
      | None \<Rightarrow>
          (case F of
             None \<Rightarrow> ((object_outcome Not_checked)\<lparr>or_object_id := Some i\<rparr>, v)
           | Some f \<Rightarrow> (let result = f i (record_binding r) in
               (result, v\<lparr>v_record_objects := AList.update key (result\<lparr>or_data := None\<rparr>) (v_record_objects v)\<rparr>))))"

fun content_of :: "fetch_record option \<Rightarrow> record_obs \<Rightarrow> string list \<Rightarrow> verifier \<Rightarrow> string option list option \<times> verifier" where
  "content_of F r [] v = (Some [], v)"
| "content_of F r (i # is) v =
     (case record_object F False r i v of (result, v1) \<Rightarrow>
        if or_verification result \<in> {Verified, Not_stored} then
          (case content_of F r is v1 of (rest, v2) \<Rightarrow>
             (map_option (\<lambda>c. (if or_verification result = Verified then or_sha256 result else None) # c) rest, v2))
        else (None, v1))"

text \<open>\<^verbatim>\<open>_record_content\<close>: the content digests and, when they cannot be told, why (\<open>None, None\<close>: malformed ids).\<close>

definition record_content :: "fetch_record option \<Rightarrow> record_obs \<Rightarrow> verifier \<Rightarrow> string option list option \<times> string option \<times> verifier" where
  "record_content F r v =
     (let object_ids = get (sp_attributes (r_span r)) A_OBJECT_IDS in
      if object_ids = JNull then (Some [], None, v)
      else case object_id_list object_ids of
        None \<Rightarrow> (None, None, v)
      | Some is \<Rightarrow>
          if F = None then (None, Some ''no_store'', v)
          else (case content_of F r is v of
                  (Some c, v') \<Rightarrow> (Some c, None, v')
                | (None, v') \<Rightarrow> (None, Some ''content_unavailable'', v')))"

definition unhashable :: "int \<Rightarrow> string" where
  "unhashable n = ''unhashable:'' @ int_str n"

definition span_entry :: "(string \<Rightarrow> string) \<Rightarrow> int \<Rightarrow> span_record \<Rightarrow> string option list \<Rightarrow> string" where
  "span_entry SH n sp content =
     (case record_digest SH (sp_name sp) (sp_start_ns sp) (sp_end_ns sp) (sp_status sp) (sp_attributes sp) content of
        None \<Rightarrow> unhashable n | Some d \<Rightarrow> d)"

definition exchange_content :: "span_record \<Rightarrow> string option list" where
  "exchange_content sp = map Some (somes (map (\<lambda>k. digest_value (get (sp_attributes sp) k)) [A_REQUEST_SHA256, A_RESPONSE_SHA256]))"

definition member_entry :: "(string \<Rightarrow> string) \<Rightarrow> fetch_record option \<Rightarrow> segment_member \<Rightarrow> verifier \<Rightarrow> (string + string) \<times> verifier" where
  "member_entry SH F m v =
     (case member_span m of
        None \<Rightarrow> (Inl ''member_unreadable'', v)
      | Some sp \<Rightarrow>
          (case m of
             M_exchange x \<Rightarrow> (Inr (span_entry SH (x_source_sequence x) sp (exchange_content sp)), v)
           | M_record r \<Rightarrow>
               (case record_content F r v of
                  (found, Some why, v') \<Rightarrow> (Inl why, v')
                | (None, None, v') \<Rightarrow> (Inr (unhashable (r_source_sequence r)), v')
                | (Some content, None, v') \<Rightarrow> (Inr (span_entry SH (r_source_sequence r) sp content), v'))))"

type_synonym seal_entries_map = "(int \<times> string list) list"

definition add_entry :: "int \<Rightarrow> string \<Rightarrow> seal_entries_map \<Rightarrow> seal_entries_map" where
  "add_entry n e d = upd_at d n [] (add_new e)"

fun member_entries ::
  "(string \<Rightarrow> string) \<Rightarrow> fetch_record option \<Rightarrow> int \<Rightarrow> segment_member list \<Rightarrow> seal_entries_map \<Rightarrow> string option \<Rightarrow> verifier \<Rightarrow>
   seal_entries_map \<times> string option \<times> verifier" where
  "member_entries SH F l [] d problem v = (d, problem, v)"
| "member_entries SH F l (m # ms) d problem v =
     (if member_sequence m > l then member_entries SH F l ms d problem v
      else case member_entry SH F m v of
        (Inl why, v') \<Rightarrow> member_entries SH F l ms d (case problem of None \<Rightarrow> Some why | Some p \<Rightarrow> Some p) v'
      | (Inr e, v') \<Rightarrow> member_entries SH F l ms (add_entry (member_sequence m) e d) problem v')"

fun loss_entries :: "source_key \<Rightarrow> loss_obs list \<Rightarrow> seal_entries_map \<Rightarrow> string option \<Rightarrow> seal_entries_map \<times> string option" where
  "loss_entries key [] d problem = (d, problem)"
| "loss_entries key (l # ls) d problem =
     (if l_source l \<noteq> key then loss_entries key ls d problem
      else if l_count l \<noteq> l_last_sequence l - l_first_sequence l + 1 then (d, Some ''inexact_loss_range'')
      else loss_entries key ls (fold (\<lambda>n. add_entry n (loss_entry (l_reason l))) [l_first_sequence l..l_last_sequence l] d) problem)"

definition seal_members :: "vsegment \<Rightarrow> segment_seal_obs \<Rightarrow> segment_member list" where
  "seal_members g q = filter (\<lambda>m. member_source m = ss_source q) (g_members g)"

definition seal_entries ::
  "(string \<Rightarrow> string) \<Rightarrow> fetch_record option \<Rightarrow> vsegment \<Rightarrow> segment_seal_obs \<Rightarrow> verifier \<Rightarrow> seal_entries_map \<times> string option \<times> verifier" where
  "seal_entries SH F g q v =
     (case member_entries SH F (ss_seal_last_sequence q) (seal_members g q) [] None v of (d, problem, v') \<Rightarrow>
        case loss_entries (ss_source q) (g_losses g) d problem of (d', problem') \<Rightarrow> (d', problem', v'))"

definition with_reason :: "string \<Rightarrow> gap \<Rightarrow> gap" where
  "with_reason why gp = gp\<lparr>gap_reason := Some why\<rparr>"

definition late_gap :: "int \<Rightarrow> vsegment \<Rightarrow> vsegment" where
  "late_gap n = seg_gap Segment_conflict Partial
     (\<lambda>gp. gp\<lparr>gap_first_sequence := Some n, gap_last_sequence := Some n, gap_reason := Some ''record_after_seal''\<rparr>)"

definition late_sequences :: "vsegment \<Rightarrow> segment_seal_obs \<Rightarrow> int list" where
  "late_sequences g q = sorted_set (filter (\<lambda>n. n > ss_seal_last_sequence q) (map member_sequence (seal_members g q)))"

definition seal_pairs :: "seal_entries_map \<Rightarrow> (int \<times> string) list" where
  "seal_pairs d = map (\<lambda>(n, es). (n, hd es)) (sort_key fst d)"

definition check_seal ::
  "(string \<Rightarrow> string) \<Rightarrow> fetch_record option \<Rightarrow> vsegment \<Rightarrow> segment_seal_obs \<Rightarrow> verifier \<Rightarrow> seal_check \<times> vsegment \<times> verifier" where
  "check_seal SH F g q v =
     (let g1 = fold late_gap (late_sequences g q) g in
      case seal_entries SH F g q v of
        (d, Some why, v') \<Rightarrow>
          if why = ''inexact_loss_range'' then (Check_mismatch, seg_gap Seal_mismatch Partial (with_reason why) g1, v')
          else (Check_unverified, seg_gap Seal_mismatch Unverified (with_reason why) g1, v')
      | (d, None, v') \<Rightarrow>
          if list_ex (\<lambda>(n, es). length es > 1) d
          then (Check_mismatch, seg_gap Seal_mismatch Partial (with_reason ''conflicting_member'') g1, v')
          else if seal_digest SH (seal_pairs d) \<noteq> Some (ss_seal_digest q)
          then (Check_mismatch, seg_gap Seal_mismatch Partial (with_reason ''digest_differs'') g1, v')
          else (Check_verified, g1, v'))"

subsection \<open>Segments\<close>

definition when_true :: "bool \<Rightarrow> ('a \<Rightarrow> 'a) \<Rightarrow> 'a \<Rightarrow> 'a" where
  "when_true b f x = (if b then f x else x)"

definition conflict_gap_for :: "string \<Rightarrow> vsegment \<Rightarrow> vsegment" where
  "conflict_gap_for why = seg_gap Segment_conflict Partial (with_reason why)"

definition named_predecessors :: "vsegment \<Rightarrow> string list list" where
  "named_predecessors g = remdups (filter (\<lambda>ps. ps \<noteq> []) (somes (map (\<lambda>h. map_option i_predecessors (h_info h)) (g_starts g))))"

definition structural_gaps :: "source \<Rightarrow> string option \<Rightarrow> vsegment \<Rightarrow> vsegment" where
  "structural_gaps s unsealed g =
     (let g1 = when_true (length (seg_keys g) > 1) (conflict_gap_for ''segment_on_two_sources'') g;
          g2 = when_true (length (g_seals g) > 1) (conflict_gap_for ''conflicting_seal'') g1;
          g3 = when_true (length (named_predecessors g) > 1) (conflict_gap_for ''conflicting_predecessors'') g2;
          g4 = when_true (s_manifest_conflict s) (conflict_gap_for ''manifest_conflict'') g3
      in when_some unsealed (\<lambda>why. seg_gap Unsealed_epoch Partial (with_reason why)) g4)"

definition judge_seal ::
  "(string \<Rightarrow> string) \<Rightarrow> fetch_record option \<Rightarrow> vsegment \<Rightarrow> verifier \<Rightarrow> vsegment \<times> verifier" where
  "judge_seal SH F g v =
     (case seg_seal g of
        Some q \<Rightarrow> (case check_seal SH F g q v of (c, g', v') \<Rightarrow> (g'\<lparr>g_check := c\<rparr>, v'))
      | None \<Rightarrow>
          if g_seals g \<noteq> [] then (g\<lparr>g_check := Check_conflict\<rparr>, v)
          else (seg_gap Unsealed_segment Partial (with_reason ''source_lost'') g, v))"

definition segment_verdict :: "vsegment \<Rightarrow> segment_state" where
  "segment_verdict g =
     (if list_ex (\<lambda>gp. gap_type gp = Segment_conflict) (g_gaps g) \<or> g_check g \<in> {Check_mismatch, Check_conflict} then Conflict_state
      else if seg_seal g = None then Unsealed else Sealed)"

definition report_segment :: "vsegment \<Rightarrow> string \<Rightarrow> verifier \<Rightarrow> verifier" where
  "report_segment g run v = add_run_gaps run (map (\<lambda>gp. (gp, seg_scope_ids g)) (g_gaps g))
     (v\<lparr>v_run_segments := upd_at (v_run_segments v) run [] (\<lambda>xs. xs @ [g_segment_id g])\<rparr>)"

definition segment_source :: "vsegment \<Rightarrow> source_key option" where
  "segment_source g = (case seg_seal g of Some q \<Rightarrow> Some (ss_source q) | None \<Rightarrow> min_of (seg_keys g))"

definition check_segment :: "(string \<Rightarrow> string) \<Rightarrow> fetch_record option \<Rightarrow> string \<Rightarrow> verifier \<Rightarrow> verifier option" where
  "check_segment SH F i v = do {
     g \<leftarrow> map_of (v_segments v) i;
     key \<leftarrow> segment_source g;
     s \<leftarrow> map_of (v_sources v) key;
     let (g', v') = judge_seal SH F (structural_gaps s (map_of (v_unsealed v) key) (g\<lparr>g_key := key\<rparr>)) v;
         g'' = g'\<lparr>g_state := segment_verdict g'\<rparr>
     in Some (fold (report_segment g'') (seg_run_ids g'') (v'\<lparr>v_segments := AList.update i g'' (v_segments v')\<rparr>)) }"

fun check_segments :: "(string \<Rightarrow> string) \<Rightarrow> fetch_record option \<Rightarrow> string list \<Rightarrow> verifier \<Rightarrow> verifier option" where
  "check_segments SH F [] v = Some v"
| "check_segments SH F (i # is) v = do { v' \<leftarrow> check_segment SH F i v; check_segments SH F is v' }"

definition finalize_verifier :: "(string \<Rightarrow> string) \<Rightarrow> fetch_record option \<Rightarrow> verifier \<Rightarrow> verifier option" where
  "finalize_verifier SH F v = do {
     v1 \<leftarrow> mark_claims (v_claims v) (finalize_sources v);
     v2 \<leftarrow> finalize_scopes (finalize_source_conflicts v1);
     v3 \<leftarrow> (let w = v2\<lparr>v_p1 := (v_segments v2 \<noteq> [] \<or> v_manifest_obs v2 \<noteq> [])\<rparr> in
             unsealed_epochs (fold check_manifests (manifest_keys w) w));
     v4 \<leftarrow> check_segments SH F (sorted_set (map fst (v_segments v3))) v3;
     Some (check_manifest_refs v4) }"

subsection \<open>Nodes of the segment graph\<close>

definition doc_get :: "json \<Rightarrow> string \<Rightarrow> json" where
  "doc_get v k = (case v of JObj d \<Rightarrow> get d k | _ \<Rightarrow> JNull)"

definition manifest_limit :: "string \<Rightarrow> string \<Rightarrow> manifest_obs \<Rightarrow> int option" where
  "manifest_limit part k m = (case doc_get (doc_get (m_document m) part) k of JInt n \<Rightarrow> Some n | _ \<Rightarrow> None)"

fun latest :: "(manifest_obs \<Rightarrow> int option) \<Rightarrow> (int \<Rightarrow> bool) \<Rightarrow> manifest_obs list \<Rightarrow> int option" where
  "latest f P [] = None"
| "latest f P (m # ms) = (case f m of Some n \<Rightarrow> if P n then Some n else latest f P ms | None \<Rightarrow> latest f P ms)"

definition open_run_deadline :: "source \<Rightarrow> int option" where
  "open_run_deadline s = latest (manifest_limit ''limits'' ''open_run_deadline_s'') (\<lambda>n. n > 0) (rev (s_manifests s))"

definition clock_uncertainty :: "source \<Rightarrow> int option" where
  "clock_uncertainty s = latest (manifest_limit ''clock'' ''uncertainty_ns'') (\<lambda>n. True) (rev (s_manifests s))"

definition segment_run :: "vsegment \<Rightarrow> string option" where
  "segment_run g = (case opening_start g of Some h \<Rightarrow> h_run_id h | None \<Rightarrow> min_of (seg_run_ids g))"

definition info_or :: "(run_marker_info \<Rightarrow> 'a) \<Rightarrow> 'a \<Rightarrow> vsegment \<Rightarrow> 'a" where
  "info_or f d g = (case Option.bind (opening_start g) h_info of None \<Rightarrow> d | Some i \<Rightarrow> f i)"

definition node_of :: "source \<Rightarrow> string \<Rightarrow> vsegment \<Rightarrow> segment_node" where
  "node_of s run g = (let seal = seg_seal g in
     \<lparr>n_segment_id = g_segment_id g, n_run_id = run, n_source_id = fst (g_key g), n_epoch = snd (g_key g),
      n_predecessors = info_or i_predecessors [] g, n_id_basis = info_or i_id_basis None g,
      n_branch_ids = info_or i_branch_ids [] g, n_declared_branches = info_or i_declared_branches [] g,
      n_start_ns = info_or (Some \<circ> i_start_ns) None g, n_last_sequence = map_option ss_seal_last_sequence seal,
      n_terminal = Option.bind seal ss_terminal, n_resumable = Option.bind seal ss_resumable,
      n_clock_uncertainty_ns = clock_uncertainty s,
      n_issued_branch_ids = (case seal of None \<Rightarrow> [] | Some q \<Rightarrow> ss_branch_ids q),
      n_manifest_digest = Option.bind seal ss_manifest_digest, n_state = Some (g_state g),
      n_start_resumable = info_or i_resumable None g, n_open_deadline_s = info_or i_open_deadline_s None g,
      n_manifest_open_run_deadline_s = open_run_deadline s, n_sealed_ns = Option.bind seal ss_sealed_ns\<rparr>)"

definition segment_nodes :: "verifier \<Rightarrow> segment_node list option" where
  "segment_nodes v = map_option somes (those (map (\<lambda>i. case map_of (v_segments v) i of
       None \<Rightarrow> None
     | Some g \<Rightarrow>
         (case segment_run g of
            None \<Rightarrow> Some None
          | Some run \<Rightarrow> (case map_of (v_sources v) (g_key g) of None \<Rightarrow> None | Some s \<Rightarrow> Some (Some (node_of s run g)))))
     (sorted_set (map fst (v_segments v)))))"

end
