(* ===== verification/FinalizeRules.thy ===== *)
theory FinalizeRules
  imports Finalize
begin

text \<open>
  Correctness of finalizing (\<^verbatim>\<open>_Verifier.finalize\<close>). \<open>keeps\<close> is the frame of the checks that run after
  the conflicts are marked: they change neither the collected evidence nor the accounting of a source.
\<close>

subsection \<open>The frame of the later checks\<close>

definition evidence :: "verifier \<Rightarrow> verifier" where
  "evidence v = v\<lparr>v_sources := [], v_segments := [], v_unsealed := [], v_run_gaps := [], v_run_segments := [],
     v_record_objects := []\<rparr>"

definition judged :: "source \<Rightarrow> source \<times> int list \<times> int list" where
  "judged s = (accounts s, s_conflicted s, s_conflicted_sorted s)"

definition keeps :: "verifier \<Rightarrow> verifier \<Rightarrow> bool" where
  "keeps v w \<longleftrightarrow> evidence w = evidence v \<and>
     (\<forall>k s. map_of (v_sources v) k = Some s \<longrightarrow> (\<exists>t. map_of (v_sources w) k = Some t \<and> judged t = judged s))"

lemma evidence_update [simp]:
  "evidence (v\<lparr>v_sources := a\<rparr>) = evidence v" "evidence (v\<lparr>v_segments := b\<rparr>) = evidence v"
  "evidence (v\<lparr>v_unsealed := c\<rparr>) = evidence v" "evidence (v\<lparr>v_run_gaps := d\<rparr>) = evidence v"
  "evidence (v\<lparr>v_run_segments := e\<rparr>) = evidence v" "evidence (v\<lparr>v_record_objects := f\<rparr>) = evidence v"
  by (cases v, simp add: evidence_def)+

lemma evidence_fields:
  assumes "evidence w = evidence v"
  shows "v_observations w = v_observations v" "v_conflicts w = v_conflicts v" "v_claims w = v_claims v"
    "v_scopes w = v_scopes v" "v_run_scopes w = v_run_scopes v" "v_malformed_scopes w = v_malformed_scopes v"
    "v_records w = v_records v" "v_run_records w = v_run_records v" "v_manifest_obs w = v_manifest_obs v"
    "v_manifest_claims w = v_manifest_claims v" "v_manifest_refs w = v_manifest_refs v" "v_periodic w = v_periodic v"
    "v_p1 w = v_p1 v"
  using assms by (cases v; cases w; simp add: evidence_def)+

lemma keeps_refl [simp]: "keeps v v"
  by (simp add: keeps_def)

lemma keeps_trans [trans]: "keeps u v \<Longrightarrow> keeps v w \<Longrightarrow> keeps u w"
  unfolding keeps_def by metis

lemma known_iff: "k \<in> known v \<longleftrightarrow> (\<exists>s. map_of (v_sources v) k = Some s)"
  by (rule mem_keys_iff)

lemma keeps_known: "keeps v w \<Longrightarrow> known v \<subseteq> known w"
  unfolding keeps_def subset_iff known_iff by blast

lemma keeps_evidence: "keeps v w \<Longrightarrow> evidence w = evidence v"
  by (simp add: keeps_def)

lemma keeps_same: "v_sources w = v_sources v \<Longrightarrow> evidence w = evidence v \<Longrightarrow> keeps v w"
  by (simp add: keeps_def)

lemma keeps_on_source: "(\<And>s. judged (f s) = judged s) \<Longrightarrow> keeps v (on_source key f v)"
  by (auto simp: keeps_def on_source_def map_of_upd_at get_or_def)

lemma at_source_eq: "at_source key f v = (if key \<in> known v then Some (on_source key f v) else None)"
  unfolding known_iff by (cases "map_of (v_sources v) key") (simp_all add: at_source_def)

lemma on_source_segments [simp]: "v_segments (on_source k f v) = v_segments v"
  by (simp add: on_source_def)

lemma judged_updates [simp]:
  "judged (s\<lparr>s_manifests := a\<rparr>) = judged s" "judged (s\<lparr>s_manifestless := b\<rparr>) = judged s"
  "judged (s\<lparr>s_manifest_conflict := c\<rparr>) = judged s" "judged (s\<lparr>s_unsealed_epochs := d\<rparr>) = judged s"
  by (simp_all add: judged_def)

lemma check_manifests_keeps: "keeps v (check_manifests key v)"
  unfolding check_manifests_def by (rule keeps_on_source) (simp add: check_chain_def Let_def)

lemma fold_keeps: "(\<And>x v. keeps v (f x v)) \<Longrightarrow> keeps v (fold f xs v)"
  by (induction xs arbitrary: v) (auto intro: keeps_trans)

lemma declare_unsealed_eq:
  "key \<in> known v \<Longrightarrow> \<exists>w. declare_unsealed key epoch why v = Some w \<and> keeps v w \<and> v_segments w = v_segments v"
  by (simp add: declare_unsealed_def at_source_eq) (rule keeps_trans [OF keeps_on_source keeps_same]; simp)

lemma declare_all_returns:
  "fst ` set ps \<subseteq> known v \<Longrightarrow> \<exists>w. declare_all ps why v = Some w \<and> keeps v w \<and> v_segments w = v_segments v"
proof (induction ps arbitrary: v)
  case (Cons p ps)
  obtain key epoch where p: "p = (key, epoch)" by (cases p)
  obtain u where u: "declare_unsealed key epoch why v = Some u" "keeps v u" "v_segments u = v_segments v"
    using declare_unsealed_eq [of key v epoch why] Cons.prems by (auto simp: p simp del: split_paired_All split_paired_Ex)
  have "fst ` set ps \<subseteq> known u" by (rule order.trans [OF _ keeps_known [OF u(2)]]) (use Cons.prems in simp)
  from Cons.IH [OF this] show ?case using u keeps_trans by (fastforce simp: p)
qed simp

lemma orphan_epochs_returns:
  "set ks \<subseteq> known v \<Longrightarrow> \<exists>w. orphan_epochs ks v = Some w \<and> keeps v w \<and> v_segments w = v_segments v"
proof (induction ks arbitrary: v)
  case (Cons key ks)
  obtain s where s: "map_of (v_sources v) key = Some s" using Cons.prems unfolding subset_iff known_iff by (auto simp del: split_paired_All)
  obtain u where u: "declare_unsealed key key ''orphan_epoch'' v = Some u" "keeps v u" "v_segments u = v_segments v"
    using declare_unsealed_eq [of key v key] Cons.prems by (auto simp del: split_paired_All split_paired_Ex)
  have "set ks \<subseteq> known u" by (rule order.trans [OF _ keeps_known [OF u(2)]]) (use Cons.prems in simp)
  from Cons.IH [OF this] Cons.IH [of v] Cons.prems show ?case
    using u s keeps_trans [OF u(2)] by fastforce
qed simp

lemma unsealed_epochs_returns:
  assumes "fst ` set (v_manifest_obs v) \<subseteq> known v" and "set (v_periodic v) \<subseteq> known v"
  shows "\<exists>w. unsealed_epochs v = Some w \<and> keeps v w \<and> v_segments w = v_segments v"
proof -
  have "fst ` set (declared_epochs v) \<subseteq> known v" using assms(1) by (force simp: declared_epochs_def)
  then obtain u where u: "declare_all (declared_epochs v) ''unsealed_prior_epoch'' v = Some u" "keeps v u"
      "v_segments u = v_segments v"
    using declare_all_returns by blast
  have "set (v_periodic u) \<subseteq> known u"
    using assms(2) keeps_known [OF u(2)] evidence_fields(12) [OF keeps_evidence [OF u(2)]] by auto
  from orphan_epochs_returns [OF this] show ?thesis
    using u keeps_trans [OF u(2)] by (force simp: unsealed_epochs_def)
qed

lemma check_manifest_refs_keeps: "keeps v (check_manifest_refs v)" "v_segments (check_manifest_refs v) = v_segments v"
proof -
  have "keeps v (check_manifest_ref r v)" for r v
    by (auto simp: check_manifest_ref_def add_run_gaps_def Let_def split: prod.splits intro: keeps_same)
  then show "keeps v (check_manifest_refs v)" unfolding check_manifest_refs_def by (rule fold_keeps)
  have "v_segments (fold check_manifest_ref rs v) = v_segments v" for rs
    by (induction rs arbitrary: v) (auto simp: check_manifest_ref_def add_run_gaps_def Let_def split: prod.splits)
  then show "v_segments (check_manifest_refs v) = v_segments v" by (simp add: check_manifest_refs_def)
qed

subsection \<open>Conflicting claims\<close>

definition contested_at :: "verifier \<Rightarrow> ((source_key \<times> int) \<times> string list) list \<Rightarrow> source_key \<Rightarrow> int set" where
  "contested_at v cs k = {n. \<exists>ids. ((k, n), ids) \<in> set cs \<and> contested v ids}"

lemma contested_frame [simp]: "contested (on_source k f v) = contested v"
  by (simp add: fun_eq_iff contested_def on_source_def)

lemma mark_fields [simp]: "(mark n s)\<lparr>s_conflicted := c\<rparr> = s\<lparr>s_conflicted := c\<rparr>"
  "set (s_conflicted (mark n s)) = insert n (set (s_conflicted s))"
  by (simp_all add: mark_def)

definition marked :: "int set \<Rightarrow> source \<Rightarrow> source \<Rightarrow> bool" where
  "marked N s t \<longleftrightarrow> t\<lparr>s_conflicted := []\<rparr> = s\<lparr>s_conflicted := []\<rparr> \<and> set (s_conflicted t) = set (s_conflicted s) \<union> N"

lemma marked_0: "marked {} s s"
  by (simp add: marked_def)

lemma marked_step: "marked N (mark n s) t \<Longrightarrow> marked (insert n N) s t"
  by (simp add: marked_def)

lemma contested_at_Cons:
  "contested_at v (((key, n), ids) # cs) k = (if contested v ids \<and> k = key then insert n (contested_at v cs k) else contested_at v cs k)"
  by (auto simp: contested_at_def)

lemma contested_at_on_source [simp]: "contested_at (on_source k f v) = contested_at v"
  by (simp add: fun_eq_iff contested_at_def)

lemma mark_claims_spec:
  assumes "\<And>k n. n \<in> contested_at v cs k \<Longrightarrow> k \<in> known v"
  shows "\<exists>S. mark_claims cs v = Some (v\<lparr>v_sources := S\<rparr>) \<and> fst ` set S = known v \<and>
    (\<forall>k s. map_of (v_sources v) k = Some s \<longrightarrow> (\<exists>t. map_of S k = Some t \<and> marked (contested_at v cs k) s t))"
  using assms
proof (induction cs arbitrary: v)
  case Nil
  have "v = v\<lparr>v_sources := v_sources v\<rparr>" by simp
  then show ?case using marked_0 by (intro exI [of _ "v_sources v"]) (auto simp: contested_at_def simp del: split_paired_All)
next
  case (Cons c cs)
  obtain key n ids where c: "c = ((key, n), ids)" by (cases c) auto
  note at = contested_at_Cons [of v key n ids cs]
  show ?case
  proof (cases "contested v ids")
    case True
    let ?w = "on_source key (mark n) v"
    have k: "key \<in> known v" using Cons.prems [of n key] True by (simp add: c at)
    have w: "known ?w = known v" using k by (auto simp: on_source_def)
    have IH: "k \<in> known ?w" if "m \<in> contested_at ?w cs k" for k m
      using Cons.prems [of m k] that unfolding w c at by (cases "k = key") simp_all
    obtain S where S: "mark_claims cs ?w = Some (?w\<lparr>v_sources := S\<rparr>)" "fst ` set S = known ?w"
      "\<And>k s. map_of (v_sources ?w) k = Some s \<Longrightarrow> \<exists>t. map_of S k = Some t \<and> marked (contested_at v cs k) s t"
      using Cons.IH [of ?w] IH unfolding contested_at_on_source by blast
    have "\<exists>t. map_of S k = Some t \<and> marked (contested_at v (c # cs) k) s t" if s: "map_of (v_sources v) k = Some s" for k s
    proof (cases "k = key")
      case True
      then have "map_of (v_sources ?w) k = Some (mark n s)" using s by (simp add: on_source_def map_of_upd_at get_or_def)
      from S(3) [OF this] show ?thesis using True \<open>contested v ids\<close> marked_step by (auto simp: c at)
    next
      case False
      then have "map_of (v_sources ?w) k = Some s" using s by (simp add: on_source_def map_of_upd_at)
      from S(3) [OF this] show ?thesis using False by (simp add: c at)
    qed
    moreover have "?w\<lparr>v_sources := S\<rparr> = v\<lparr>v_sources := S\<rparr>" by (simp add: on_source_def)
    ultimately show ?thesis using S(1,2) True k w by (intro exI [of _ S]) (simp add: c at_source_eq)
  next
    case False
    have "\<And>k m. m \<in> contested_at v cs k \<Longrightarrow> k \<in> known v" using Cons.prems by (simp add: c at False)
    from Cons.IH [OF this] show ?thesis using False by (simp add: c at del: split_paired_All split_paired_Ex)
  qed
qed

lemma map_of_map_snd: "map_of (map (\<lambda>(k, s). (k, f s)) xs) k = map_option f (map_of xs k)"
  by (induction xs) auto

lemma marked_ready:
  assumes "marked N (finalize s) t" and "source_ok k s"
  shows "ready s (finalize_conflicts t)" and "set (s_conflicted (finalize_conflicts t)) = N"
proof -
  have a: "t\<lparr>s_conflicted := []\<rparr> = (finalize s)\<lparr>s_conflicted := []\<rparr>" "set (s_conflicted t) = set (s_conflicted (finalize s)) \<union> N"
    using assms(1) by (simp_all add: marked_def)
  have "s_conflicted (finalize s) = []" using assms(2) by (simp add: source_ok_def finalize_def Let_def)
  then show "set (s_conflicted (finalize_conflicts t)) = N" using a(2) by (simp add: finalize_conflicts_def)
  have "accounts t = accounts (finalize s)" using arg_cong [OF a(1), of accounts] by simp
  then show "ready s (finalize_conflicts t)" using assms(2) by (simp add: ready_def source_ok_def finalize_conflicts_def)
qed

subsection \<open>Scopes\<close>

lemma judge_scope_returns: "scope_sources c \<noteq> [] \<Longrightarrow> \<exists>d. judge_scope bad c = Some d"
  using finalize_scope_returns [of c] by (auto simp: judge_scope_def)

lemma those_total: "(\<And>x. x \<in> set xs \<Longrightarrow> \<exists>y. f x = Some y) \<Longrightarrow> those (map f xs) = Some (map (\<lambda>x. the (f x)) xs)"
proof (induction xs)
  case (Cons a xs)
  obtain y where "f a = Some y" using Cons.prems by auto
  then show ?case using Cons by simp
qed simp

lemma map_of_zip_map: "map_of (zip (map fst xs) (map (\<lambda>x. g (snd x)) xs)) k = map_option g (map_of xs k)"
  by (induction xs) auto

lemma finalize_scopes_spec:
  assumes "\<And>i c. map_of (v_scopes v) i = Some c \<Longrightarrow> scope_sources c \<noteq> []" and "distinct (map fst (v_scopes v))"
  shows "\<exists>D. finalize_scopes v = Some (v\<lparr>v_scopes := D\<rparr>) \<and>
    (\<forall>i. map_of D i = map_option (\<lambda>c. the (judge_scope (v_malformed_scopes v) c)) (map_of (v_scopes v) i)) \<and>
    map fst D = map fst (v_scopes v)"
proof -
  let ?j = "judge_scope (v_malformed_scopes v)"
  have "\<exists>y. ?j (snd x) = Some y" if "x \<in> set (v_scopes v)" for x
    using that assms(1) [of "fst x" "snd x"] map_of_SomeI [OF assms(2), of "fst x" "snd x"] judge_scope_returns by simp
  then have "those (map (\<lambda>x. ?j (snd x)) (v_scopes v)) = Some (map (\<lambda>x. the (?j (snd x))) (v_scopes v))"
    by (rule those_total)
  then show ?thesis
    by (intro exI [of _ "zip (map fst (v_scopes v)) (map (\<lambda>x. the (?j (snd x))) (v_scopes v))"])
      (simp add: finalize_scopes_def case_prod_unfold map_of_zip_map [where g = "\<lambda>c. the (?j c)"])
qed

subsection \<open>Segments\<close>

lemma record_object_frame:
  "v_sources (snd (record_object F d r i v)) = v_sources v" "v_segments (snd (record_object F d r i v)) = v_segments v"
  "v_unsealed (snd (record_object F d r i v)) = v_unsealed v" "evidence (snd (record_object F d r i v)) = evidence v"
  by (auto simp: record_object_def Let_def split: option.splits)

definition objects_only :: "verifier \<Rightarrow> verifier \<Rightarrow> bool" where
  "objects_only v w \<longleftrightarrow> (\<exists>ro. w = v\<lparr>v_record_objects := ro\<rparr>)"

lemma objects_only_refl [simp]: "objects_only v v"
  unfolding objects_only_def by (rule exI [of _ "v_record_objects v"]) simp

lemma objects_only_trans: "objects_only u v \<Longrightarrow> objects_only v w \<Longrightarrow> objects_only u w"
  by (auto simp: objects_only_def)

lemma record_object_only: "objects_only v (snd (record_object F d r i v))"
proof -
  have "objects_only v (v\<lparr>v_record_objects := ro\<rparr>)" for ro by (auto simp: objects_only_def)
  then show ?thesis by (auto simp: record_object_def Let_def split: option.splits)
qed

lemma content_of_only: "objects_only v (snd (content_of F r is v))"
proof (induction "is" arbitrary: v)
  case (Cons i "is")
  obtain x u where u: "record_object F False r i v = (x, u)" by (cases "record_object F False r i v")
  have "objects_only v u" using record_object_only [of v F False r i] by (simp add: u)
  then show ?case using Cons.IH [of u] objects_only_trans [of v u] by (auto simp: u split: prod.splits)
qed simp

lemma record_content_only: "objects_only v (snd (snd (record_content F r v)))"
  using content_of_only [of v F r] by (auto simp: record_content_def Let_def split: option.splits prod.splits) (metis snd_conv)+

lemma member_entry_only: "objects_only v (snd (member_entry SH F m v))"
proof (cases m)
  case (M_record r)
  then show ?thesis using record_content_only [of v F r] by (auto simp: member_entry_def split: option.splits prod.splits)
qed (auto simp: member_entry_def split: option.splits)

lemma member_entries_only: "objects_only v (snd (snd (member_entries SH F l ms d p v)))"
proof (induction ms arbitrary: d p v)
  case (Cons m ms)
  obtain x u where u: "member_entry SH F m v = (x, u)" by (cases "member_entry SH F m v")
  have "objects_only v u" using member_entry_only [of v SH F m] by (simp add: u)
  then show ?case using Cons.IH objects_only_trans [of v u] by (auto simp: u split: sum.splits)
qed simp

lemma seal_entries_only: "objects_only v (snd (snd (seal_entries SH F g q v)))"
  using member_entries_only [of v SH F "ss_seal_last_sequence q" "seal_members g q" "[]" None]
  by (auto simp: seal_entries_def split: prod.splits)

lemma check_seal_only: "objects_only v (snd (snd (check_seal SH F g q v)))"
  using seal_entries_only [of v SH F g q] by (auto simp: check_seal_def Let_def split: prod.splits option.splits)

lemma judge_seal_only: "objects_only v (snd (judge_seal SH F g v))"
proof (cases "seg_seal g")
  case (Some q)
  then show ?thesis using check_seal_only [of v SH F g q] by (auto simp: judge_seal_def split: prod.splits)
qed (simp add: judge_seal_def)

lemma report_segments_frame:
  "v_sources (fold (report_segment g) runs v) = v_sources v" "v_segments (fold (report_segment g) runs v) = v_segments v"
  "v_unsealed (fold (report_segment g) runs v) = v_unsealed v" "evidence (fold (report_segment g) runs v) = evidence v"
  by (induction runs arbitrary: v) (simp_all add: report_segment_def add_run_gaps_def)

definition judged_segment :: "(string \<Rightarrow> string) \<Rightarrow> fetch_record option \<Rightarrow> verifier \<Rightarrow> vsegment \<Rightarrow> source_key \<Rightarrow> source \<Rightarrow> vsegment" where
  "judged_segment SH F v g key s =
     (let g' = fst (judge_seal SH F (structural_gaps s (map_of (v_unsealed v) key) (g\<lparr>g_key := key\<rparr>)) v)
      in g'\<lparr>g_state := segment_verdict g'\<rparr>)"

lemma check_segment_spec:
  assumes "map_of (v_segments v) i = Some g" and "segment_source g = Some key" and "map_of (v_sources v) key = Some s"
  shows "\<exists>w. check_segment SH F i v = Some w \<and> v_sources w = v_sources v \<and> v_unsealed w = v_unsealed v \<and>
    evidence w = evidence v \<and> v_segments w = AList.update i (judged_segment SH F v g key s) (v_segments v)"
proof -
  let ?g = "structural_gaps s (map_of (v_unsealed v) key) (g\<lparr>g_key := key\<rparr>)"
  obtain g' v' where j: "judge_seal SH F ?g v = (g', v')" by (cases "judge_seal SH F ?g v")
  obtain ro where "v' = v\<lparr>v_record_objects := ro\<rparr>"
    using judge_seal_only [of v SH F ?g] by (auto simp: j objects_only_def)
  then show ?thesis
    using assms by (simp add: check_segment_def j judged_segment_def report_segments_frame Let_def)
qed

lemma segment_source_known:
  assumes "segment_weak K i g" and "seg_keys g \<noteq> []"
  shows "\<exists>key. segment_source g = Some key \<and> key \<in> K"
proof (cases "seg_seal g")
  case None
  have "Min (set (seg_keys g)) \<in> set (seg_keys g)" using assms(2) by simp
  then show ?thesis using None assms by (auto simp: segment_source_def min_of_def segment_weak_def)
next
  case (Some q)
  then have "ss_source q \<in> set (seg_keys g)" by (auto simp: seg_seal_def set_seg_keys split: list.splits)
  then show ?thesis using Some assms(1) by (auto simp: segment_source_def segment_weak_def)
qed

lemma check_segments_returns:
  assumes "distinct is" and "\<And>i. i \<in> set is \<Longrightarrow> \<exists>g. map_of (v_segments v) i = Some g \<and> segment_weak (known v) i g \<and> seg_keys g \<noteq> []"
  shows "\<exists>w. check_segments SH F is v = Some w \<and> v_sources w = v_sources v \<and> evidence w = evidence v \<and>
    fst ` set (v_segments w) = fst ` set (v_segments v)"
  using assms
proof (induction "is" arbitrary: v)
  case (Cons i "is")
  obtain g where g: "map_of (v_segments v) i = Some g" "segment_weak (known v) i g" "seg_keys g \<noteq> []" using Cons.prems(2) by auto
  obtain key s where k: "segment_source g = Some key" "map_of (v_sources v) key = Some s"
    using segment_source_known [OF g(2,3)] unfolding known_iff by blast
  obtain u where u: "check_segment SH F i v = Some u" "v_sources u = v_sources v" "evidence u = evidence v"
      "v_segments u = AList.update i (judged_segment SH F v g key s) (v_segments v)"
    using check_segment_spec [OF g(1) k] by blast
  have i: "i \<in> fst ` set (v_segments v)" using g(1) by (rule map_of_SomeD [THEN image_eqI [rotated, of "(i, g)" _ i fst]]) simp
  have "\<exists>g. map_of (v_segments u) j = Some g \<and> segment_weak (known u) j g \<and> seg_keys g \<noteq> []" if "j \<in> set is" for j
    using that Cons.prems u(2,4) by (auto simp: update_conv)
  from Cons.IH [OF _ this] obtain w where "check_segments SH F is u = Some w" "v_sources w = v_sources u" "evidence w = evidence u"
      "fst ` set (v_segments w) = fst ` set (v_segments u)"
    using Cons.prems(1) by auto
  moreover have "fst ` set (v_segments u) = fst ` set (v_segments v)" using i by (simp add: u(4) dom_update insert_absorb)
  ultimately show ?case using u by simp
qed simp

subsection \<open>Finalizing returns\<close>

definition untouched :: "verifier \<Rightarrow> verifier \<Rightarrow> bool" where
  "untouched v w \<longleftrightarrow> (evidence w)\<lparr>v_scopes := [], v_p1 := False\<rparr> = (evidence v)\<lparr>v_scopes := [], v_p1 := False\<rparr>"

lemma untouched_fields:
  assumes "untouched v w"
  shows "v_observations w = v_observations v" "v_conflicts w = v_conflicts v" "v_claims w = v_claims v"
    "v_run_scopes w = v_run_scopes v" "v_malformed_scopes w = v_malformed_scopes v"
    "v_records w = v_records v" "v_run_records w = v_run_records v" "v_manifest_obs w = v_manifest_obs v"
  using assms by (cases v; cases w; simp add: untouched_def evidence_def)+

definition settled :: "verifier \<Rightarrow> verifier \<Rightarrow> bool" where
  "settled v w \<longleftrightarrow> untouched v w \<and>
     (\<forall>k s. map_of (v_sources v) k = Some s \<longrightarrow>
        (\<exists>f. map_of (v_sources w) k = Some f \<and> ready s f \<and> set (s_conflicted f) = contested_at v (v_claims v) k)) \<and>
     (\<forall>i. map_of (v_scopes w) i = map_option (\<lambda>c. the (judge_scope (v_malformed_scopes v) c)) (map_of (v_scopes v) i))"

lemma finalize_sources_map: "map_of (v_sources (finalize_sources v)) k = map_option finalize (map_of (v_sources v) k)"
  "map_of (v_sources (finalize_source_conflicts v)) k = map_option finalize_conflicts (map_of (v_sources v) k)"
  by (simp_all add: finalize_sources_def finalize_source_conflicts_def map_of_map_snd)

lemma finalize_sources_known [simp]: "known (finalize_sources v) = known v" "known (finalize_source_conflicts v) = known v"
  by (simp_all add: finalize_sources_def finalize_source_conflicts_def image_image case_prod_unfold)

lemma conflicts_marked:
  assumes ok: "sources_ok v" and claims: "\<And>k n. n \<in> contested_at v (v_claims v) k \<Longrightarrow> k \<in> known v"
  shows "\<exists>S. mark_claims (v_claims v) (finalize_sources v) = Some (v\<lparr>v_sources := S\<rparr>) \<and> fst ` set S = known v \<and>
    (\<forall>k s. map_of (v_sources v) k = Some s \<longrightarrow> (\<exists>t. map_of S k = Some t \<and>
       ready s (finalize_conflicts t) \<and> set (s_conflicted (finalize_conflicts t)) = contested_at v (v_claims v) k))"
proof -
  let ?w = "finalize_sources v"
  have c: "contested_at ?w = contested_at v" by (simp add: fun_eq_iff contested_at_def contested_def finalize_sources_def)
  obtain S where S: "mark_claims (v_claims v) ?w = Some (?w\<lparr>v_sources := S\<rparr>)" "fst ` set S = known ?w"
    "\<forall>k s. map_of (v_sources ?w) k = Some s \<longrightarrow> (\<exists>t. map_of S k = Some t \<and> marked (contested_at v (v_claims v) k) s t)"
    using mark_claims_spec [of ?w "v_claims v"] claims unfolding c finalize_sources_known by blast
  have "\<exists>t. map_of S k = Some t \<and> ready s (finalize_conflicts t) \<and>
      set (s_conflicted (finalize_conflicts t)) = contested_at v (v_claims v) k" if s: "map_of (v_sources v) k = Some s" for k s
  proof -
    have "map_of (v_sources ?w) k = Some (finalize s)" by (simp add: finalize_sources_map s)
    then obtain t where t: "map_of S k = Some t" "marked (contested_at v (v_claims v) k) (finalize s) t" using S(3) by blast
    have "source_ok k s" using ok s unfolding sources_ok_def by blast
    from marked_ready [OF t(2) this] show ?thesis using t(1) by blast
  qed
  moreover have "?w\<lparr>v_sources := S\<rparr> = v\<lparr>v_sources := S\<rparr>" by (simp add: finalize_sources_def)
  ultimately show ?thesis using S(1,2) by (intro exI [of _ S]) simp
qed

lemma check_manifests_segments [simp]: "v_segments (fold check_manifests ks v) = v_segments v"
  by (induction ks arbitrary: v) (simp_all add: check_manifests_def)

lemma keeps_ready: "ready s f \<Longrightarrow> judged t = judged f \<Longrightarrow> ready s t \<and> s_conflicted t = s_conflicted f"
  by (simp add: ready_def judged_def)

lemma finalize_settles:
  assumes ok: "state_ok v" and claims: "\<And>k n. n \<in> contested_at v (v_claims v) k \<Longrightarrow> k \<in> known v"
  shows "\<exists>w. finalize_verifier SH F v = Some w \<and> settled v w"
proof -
  have ok': "sources_ok v" "scopes_ok v" "segments_ok v" "keys_ok v" using ok by (simp_all add: state_ok_def)
  obtain S where S: "mark_claims (v_claims v) (finalize_sources v) = Some (v\<lparr>v_sources := S\<rparr>)" "fst ` set S = known v"
    "\<forall>k s. map_of (v_sources v) k = Some s \<longrightarrow> (\<exists>t. map_of S k = Some t \<and>
       ready s (finalize_conflicts t) \<and> set (s_conflicted (finalize_conflicts t)) = contested_at v (v_claims v) k)"
    using conflicts_marked [OF ok'(1)] claims by blast
  let ?v1 = "finalize_source_conflicts (v\<lparr>v_sources := S\<rparr>)"
  have sc: "v_scopes ?v1 = v_scopes v" "v_malformed_scopes ?v1 = v_malformed_scopes v" by (simp_all add: finalize_source_conflicts_def)
  obtain D where D: "finalize_scopes ?v1 = Some (?v1\<lparr>v_scopes := D\<rparr>)"
    "\<forall>i. map_of D i = map_option (\<lambda>c. the (judge_scope (v_malformed_scopes v) c)) (map_of (v_scopes v) i)"
    using finalize_scopes_spec [of ?v1] ok'(2) unfolding sc scopes_ok_def by blast
  define v2 where "v2 = ?v1\<lparr>v_scopes := D\<rparr>"
  define w where "w = v2\<lparr>v_p1 := (v_segments v2 \<noteq> [] \<or> v_manifest_obs v2 \<noteq> [])\<rparr>"
  define x where "x = fold check_manifests (manifest_keys w) w"
  have wk: "known w = known v" "v_segments w = v_segments v" "v_manifest_obs w = v_manifest_obs v" "v_periodic w = v_periodic v"
    using S(2) by (simp_all add: w_def v2_def) (simp_all add: finalize_source_conflicts_def)
  have x: "keeps w x" unfolding x_def by (rule fold_keeps) (rule check_manifests_keeps)
  have xs: "v_segments x = v_segments v" using wk(2) by (simp add: x_def check_manifests_segments)
  have vk: "fst ` set (v_manifest_obs v) \<subseteq> known v" "set (v_periodic v) \<subseteq> known v" using ok'(4) by (simp_all add: keys_ok_def)
  have vx: "known v \<subseteq> known x" using keeps_known [OF x] by (simp add: wk(1))
  have xk: "fst ` set (v_manifest_obs x) \<subseteq> known x" "set (v_periodic x) \<subseteq> known x"
    unfolding evidence_fields(9,12) [OF keeps_evidence [OF x]] wk(3,4) by (rule order.trans [OF vk(1) vx], rule order.trans [OF vk(2) vx])
  obtain y where y: "unsealed_epochs x = Some y" "keeps x y" "v_segments y = v_segments x"
    using unsealed_epochs_returns [OF xk] by blast
  have wy: "keeps w y" using x y(2) by (rule keeps_trans)
  have seg: "\<exists>g. map_of (v_segments y) i = Some g \<and> segment_weak (known y) i g \<and> seg_keys g \<noteq> []"
    if i: "i \<in> set (sorted_set (map fst (v_segments y)))" for i
  proof -
    obtain g where g: "map_of (v_segments v) i = Some g" using i mem_keys_iff [of i "v_segments v"] y(3) xs by auto
    then have "segment_weak (known v) i g \<and> seg_keys g \<noteq> []" using ok'(3) by (auto simp: segments_ok_def)
    moreover have "known v \<subseteq> known y" using keeps_known [OF wy] by (simp add: wk(1))
    ultimately have "segment_weak (known y) i g \<and> seg_keys g \<noteq> []" unfolding segment_weak_def by (meson order.trans)
    then show ?thesis using g y(3) xs by simp
  qed
  obtain z where z: "check_segments SH F (sorted_set (map fst (v_segments y))) y = Some z"
      "v_sources z = v_sources y" "evidence z = evidence y"
    using check_segments_returns [OF distinct_sorted_set seg] by blast
  let ?r = "check_manifest_refs z"
  have wr: "keeps w ?r"
    using keeps_trans [OF keeps_trans [OF wy keeps_same [OF z(2,3)]] check_manifest_refs_keeps(1)] .
  have "finalize_verifier SH F v = Some ?r"
    using S(1) D(1) y(1) z(1) by (simp add: finalize_verifier_def x_def w_def v2_def)
  moreover have "settled v ?r"
    unfolding settled_def
  proof (intro conjI allI impI)
    have "untouched v w" by (cases v) (simp add: untouched_def w_def v2_def finalize_source_conflicts_def evidence_def)
    then show "untouched v ?r" by (simp add: untouched_def keeps_evidence [OF wr])
  next
    fix i
    have "v_scopes ?r = D" using evidence_fields(4) [OF keeps_evidence [OF wr]] by (simp add: w_def v2_def)
    then show "map_of (v_scopes ?r) i = map_option (\<lambda>c. the (judge_scope (v_malformed_scopes v) c)) (map_of (v_scopes v) i)"
      using D(2) by simp
  next
    fix k s assume "map_of (v_sources v) k = Some s"
    then obtain t where t: "map_of S k = Some t" "ready s (finalize_conflicts t)"
        "set (s_conflicted (finalize_conflicts t)) = contested_at v (v_claims v) k" using S(3) by blast
    have "map_of (v_sources w) k = Some (finalize_conflicts t)"
      using t(1) by (simp add: w_def v2_def finalize_sources_map)
    then obtain f where f: "map_of (v_sources ?r) k = Some f" "judged f = judged (finalize_conflicts t)"
      using wr unfolding keeps_def by blast
    then show "\<exists>f. map_of (v_sources ?r) k = Some f \<and> ready s f \<and> set (s_conflicted f) = contested_at v (v_claims v) k"
      using keeps_ready [OF t(2) f(2)] t(3) by auto
  qed
  ultimately show ?thesis by blast
qed

end
