(* ===== verification/RunWindows.thy ===== *)
theory RunWindows
  imports FinalizeRules RunGraph
begin

text \<open>
  The windows of one run (\<^verbatim>\<open>sdk/python/src/fabric/reconstruct/_verify.py\<close>: \<^verbatim>\<open>_Window\<close>, \<^verbatim>\<open>_ranges\<close>, \<^verbatim>\<open>_attempts\<close>,
  \<^verbatim>\<open>_by_source\<close> and \<^verbatim>\<open>_Run\<close> from \<^verbatim>\<open>__init__\<close> to \<^verbatim>\<open>_tail\<close>). An operation on a run returns the run with its
  gaps and windows added, or \<open>None\<close> where the source raises (an index into an absent source, the minimum
  of nothing). The run graphs are the association list \<open>Gs\<close> from run id to graph.
\<close>

datatype closed_by = Run_markers | Final_heartbeat

record vwindow =
  w_key :: source_key
  w_low :: int
  w_high :: int
  w_scope_id :: "string option"
  w_closed_by :: "closed_by option"

definition mk_window :: "source_key \<Rightarrow> int \<Rightarrow> int \<Rightarrow> string option \<Rightarrow> closed_by option \<Rightarrow> vwindow" where
  "mk_window key low high scope_id closed = \<lparr>w_key = key, w_low = low, w_high = high, w_scope_id = scope_id, w_closed_by = closed\<rparr>"

primrec closed_by_str :: "closed_by \<Rightarrow> string" where
  "closed_by_str Run_markers = ''run_markers''"
| "closed_by_str Final_heartbeat = ''final_heartbeat''"

definition window_to_json :: "vwindow \<Rightarrow> int \<Rightarrow> (string \<times> json) list" where
  "window_to_json w beat =
     [(''source_id'', JStr (fst (w_key w))), (''source_epoch'', JInt (snd (w_key w))), (''first_sequence'', JInt (w_low w)),
      (''last_sequence'', JInt (w_high w)), (''heartbeat_sequence'', JInt beat)] @
     opt_field ''scope_id'' JStr (w_scope_id w) @ opt_field ''closed_by'' (JStr \<circ> closed_by_str) (w_closed_by w)"

subsection \<open>Positions as ranges, attempts\<close>

fun extend_ranges :: "(int \<times> int) list \<Rightarrow> int list \<Rightarrow> (int \<times> int) list" where
  "extend_ranges out [] = out"
| "extend_ranges out (n # ns) =
     (case rev out of
        (a, b) # prior \<Rightarrow> if b + 1 = n then extend_ranges (rev prior @ [(a, n)]) ns else extend_ranges (out @ [(n, n)]) ns
      | [] \<Rightarrow> extend_ranges (out @ [(n, n)]) ns)"

definition ranges :: "int list \<Rightarrow> (int \<times> int) list" where
  "ranges ns = extend_ranges [] (sorted_set ns)"

record attempt_entry =
  at_uid :: string
  at_step_id :: "string option"
  at_records :: int
  at_sequences :: "(source_key \<times> (int \<times> int) list) list"

definition attempt_positions :: "record_obs list \<Rightarrow> string \<Rightarrow> (source_key \<times> int list) list" where
  "attempt_positions rs uid = fold (\<lambda>r d. upd_at d (r_source r) [] (add_new (r_source_sequence r)))
     (filter (\<lambda>r. r_attempt_uid r = uid) rs) []"

definition attempt_steps :: "record_obs list \<Rightarrow> string \<Rightarrow> string list" where
  "attempt_steps rs uid = remdups (somes (map (\<lambda>r. opaque_id (get (sp_attributes (r_span r)) A_STEP_ID))
     (filter (\<lambda>r. r_attempt_uid r = uid) rs)))"

definition attempt_of :: "record_obs list \<Rightarrow> string \<Rightarrow> attempt_entry" where
  "attempt_of rs uid = (let positions = attempt_positions rs uid in
     \<lparr>at_uid = uid, at_step_id = (case attempt_steps rs uid of [i] \<Rightarrow> Some i | _ \<Rightarrow> None),
      at_records = sum_list (map (\<lambda>(k, ns). int (length ns)) positions),
      at_sequences = map (\<lambda>(k, ns). (k, ranges ns)) (sort_key fst positions)\<rparr>)"

definition attempt_order :: "attempt_entry \<Rightarrow> string \<times> int \<times> int \<times> string" where
  "attempt_order e = (case at_sequences e of
       ((i, epoch), (a, b) # _) # _ \<Rightarrow> (i, epoch, a, at_uid e)
     | _ \<Rightarrow> ([], 0, 0, at_uid e))"

definition attempts :: "record_obs list \<Rightarrow> attempt_entry list" where
  "attempts rs = sort_key attempt_order (map (attempt_of rs) (dedup (map r_attempt_uid rs)))"

definition by_source :: "(source_key \<times> int) list \<Rightarrow> (source_key \<times> int list) list" where
  "by_source ps = sort_key fst (fold (\<lambda>(k, n) d. upd_at d k [] (\<lambda>ns. ns @ [n])) ps [])"

definition exchange_position :: "exchange_obs \<Rightarrow> source_key \<times> int" where
  "exchange_position x = (x_source x, x_source_sequence x)"

definition record_position :: "record_obs \<Rightarrow> source_key \<times> int" where
  "record_position r = (r_source r, r_source_sequence r)"

subsection \<open>The run\<close>

record vrun =
  u_run_id :: string
  u_observed :: "exchange_obs list"
  u_scopes_of :: "(string \<times> string list) list"
  u_members :: "exchange_obs list"
  u_scopes :: "scope list"
  u_gaps :: "gap list"
  u_scope_gaps :: "(string \<times> gap list) list"
  u_windows :: "vwindow list"

definition representatives :: "exchange_obs list \<Rightarrow> (string \<times> exchange_obs) list" where
  "representatives xs = fold (\<lambda>x d. if x_malformed x then d else setdefault d (x_exchange_id x) x) xs []"

definition tagged_scopes :: "exchange_obs list \<Rightarrow> (string \<times> string list) list" where
  "tagged_scopes xs = fold (\<lambda>x d. case x_scope_id x of None \<Rightarrow> d | Some i \<Rightarrow> upd_at d (x_exchange_id x) [] (add_new i)) xs []"

definition member_order :: "exchange_obs \<Rightarrow> int \<times> string \<times> int \<times> int" where
  "member_order x = (x_start_ns x, x_source_id x, x_source_epoch x, x_source_sequence x)"

definition scope_order :: "scope \<Rightarrow> source_key \<times> int \<times> string" where
  "scope_order c = (sc_key c, (case sc_start c of None \<Rightarrow> -2 | Some n \<Rightarrow> n), sc_scope_id c)"

definition new_run :: "string \<Rightarrow> exchange_obs list \<Rightarrow> scope list \<Rightarrow> vrun" where
  "new_run run observed scopes = (let cs = sort_key scope_order scopes in
     \<lparr>u_run_id = run, u_observed = observed, u_scopes_of = tagged_scopes observed,
      u_members = sort_key member_order (map snd (representatives observed)), u_scopes = cs,
      u_gaps = [], u_scope_gaps = map (\<lambda>c. (sc_scope_id c, [])) cs, u_windows = []\<rparr>)"

definition add_gap :: "string list \<Rightarrow> gap \<Rightarrow> vrun \<Rightarrow> vrun" where
  "add_gap scopes gp u = u\<lparr>u_gaps := u_gaps u @ [gp],
     u_scope_gaps := fold (\<lambda>i d. case map_of d i of None \<Rightarrow> d | Some gs \<Rightarrow> AList.update i (gs @ [gp]) d) scopes (u_scope_gaps u)\<rparr>"

definition add_gaps :: "string list \<Rightarrow> gap list \<Rightarrow> vrun \<Rightarrow> vrun" where
  "add_gaps scopes gs u = fold (add_gap scopes) gs u"

definition add_window :: "vwindow \<Rightarrow> vrun \<Rightarrow> vrun" where
  "add_window w u = u\<lparr>u_windows := u_windows u @ [w]\<rparr>"

definition add_inside :: "verifier \<Rightarrow> string list \<Rightarrow> source_key \<Rightarrow> int \<Rightarrow> int option \<Rightarrow> effect \<Rightarrow> vrun \<Rightarrow> vrun option" where
  "add_inside v scopes key low high eff u =
     map_option (\<lambda>s. add_gaps scopes (inside_gaps s low high eff) u) (map_of (v_sources v) key)"

definition add_near :: "verifier \<Rightarrow> string list \<Rightarrow> source_key \<Rightarrow> int \<Rightarrow> int \<Rightarrow> vrun \<Rightarrow> vrun option" where
  "add_near v scopes key low high u = map_option (\<lambda>s. add_gaps scopes (near_gaps s low high) u) (map_of (v_sources v) key)"

definition add_tail :: "string list \<Rightarrow> source_key \<Rightarrow> string option \<Rightarrow> vrun \<Rightarrow> vrun" where
  "add_tail scopes key problem u = add_gaps scopes (tail_gaps key problem) u"

fun each :: "('a \<Rightarrow> 'b \<Rightarrow> 'b option) \<Rightarrow> 'a list \<Rightarrow> 'b \<Rightarrow> 'b option" where
  "each f [] u = Some u"
| "each f (x # xs) u = do { u' \<leftarrow> f x u; each f xs u' }"

definition closed_by_final :: "string option \<Rightarrow> closed_by option" where
  "closed_by_final problem = (if problem = None then Some Final_heartbeat else None)"

definition unscoped_source :: "verifier \<Rightarrow> source_key \<times> int list \<Rightarrow> vrun \<Rightarrow> vrun option" where
  "unscoped_source v p u = (case p of (key, mine) \<Rightarrow> do {
     s \<leftarrow> map_of (v_sources v) key;
     u' \<leftarrow> add_near v [] key (Min (set mine)) (Max (set mine))
       (add_window (mk_window key (Min (set mine)) (Max (set mine)) None (closed_by_final (tail_problem s))) u);
     Some (add_tail [] key (tail_problem s) u') })"

definition unscoped :: "verifier \<Rightarrow> vrun \<Rightarrow> vrun option" where
  "unscoped v u = each (unscoped_source v) (by_source (map exchange_position (u_observed u))) u"

definition elsewhere_window :: "verifier \<Rightarrow> string list \<Rightarrow> source_key \<times> int list \<Rightarrow> vrun \<Rightarrow> vrun option" where
  "elsewhere_window v scopes p u = (case p of (key, ns) \<Rightarrow>
     add_near v scopes key (Min (set ns)) (Max (set ns)) (add_window (mk_window key (Min (set ns)) (Max (set ns)) None None) u))"

definition open_bounds :: "scope \<Rightarrow> int list \<Rightarrow> (int \<times> int) option" where
  "open_bounds c on_key =
     (let lows = on_key @ (case sc_start c of None \<Rightarrow> [] | Some n \<Rightarrow> [n + 1]);
          highs = on_key @ (case sc_end c of None \<Rightarrow> [] | Some n \<Rightarrow> [n])
      in if lows = [] \<and> highs = [] then None
         else let low = (if lows \<noteq> [] then Min (set lows) else max (Min (set highs)) 0)
              in Some (low, max (if highs = [] then low else Max (set highs)) low))"

definition scope_positions :: "scope \<Rightarrow> exchange_obs list \<Rightarrow> (source_key \<times> int) list" where
  "scope_positions c mine = map exchange_position mine @ map record_position (sc_records c)"

definition open_inside :: "verifier \<Rightarrow> scope \<Rightarrow> int \<Rightarrow> int \<Rightarrow> vrun \<Rightarrow> vrun option" where
  "open_inside v c low high u =
     (if sc_state c = Scope_closed \<and> sc_start c \<noteq> None \<and> sc_end c \<noteq> None
      then add_inside v [sc_scope_id c] (sc_key c) (the (sc_start c) + 1) (sc_end c) Partial u
      else do {
        u' \<leftarrow> add_inside v [sc_scope_id c] (sc_key c) low (Some high) Partial u;
        if sc_end c = None then add_inside v [sc_scope_id c] (sc_key c) (high + 1) None Unverified u' else Some u' })"

definition open_scope :: "verifier \<Rightarrow> scope \<Rightarrow> exchange_obs list \<Rightarrow> vrun \<Rightarrow> vrun option" where
  "open_scope v c mine u =
     (let key = sc_key c; on_key = map snd (filter (\<lambda>p. fst p = key) (scope_positions c mine)) in
      do {
        (low, high) \<leftarrow> open_bounds c on_key;
        u' \<leftarrow> open_inside v c low high (add_window (mk_window key low high (Some (sc_scope_id c)) None) u);
        each (elsewhere_window v [sc_scope_id c]) (by_source (filter (\<lambda>p. fst p \<noteq> key) (scope_positions c mine)))
          (add_tail [sc_scope_id c] key (sc_problem c) u') })"

definition scope_window :: "verifier \<Rightarrow> scope \<Rightarrow> vrun \<Rightarrow> vrun option" where
  "scope_window v c u =
     (case (sc_problem c, sc_start c, sc_end c) of
        (None, Some a, Some b) \<Rightarrow>
          add_inside v [sc_scope_id c] (sc_key c) (a + 1) (Some b) Partial
            (if a < b then add_window (mk_window (sc_key c) (a + 1) b (Some (sc_scope_id c)) (Some Run_markers)) u else u)
      | _ \<Rightarrow> open_scope v c (filter (\<lambda>x. x_scope_id x = Some (sc_scope_id c)) (u_observed u)) u)"

definition outside_source :: "verifier \<Rightarrow> source_key \<times> int list \<Rightarrow> vrun \<Rightarrow> vrun option" where
  "outside_source v p u = map_option (add_tail [] (fst p) (Some ''exchange_outside_run_markers'')) (elsewhere_window v [] p u)"

definition scoped :: "verifier \<Rightarrow> vrun \<Rightarrow> vrun option" where
  "scoped v u = do {
     u' \<leftarrow> each (scope_window v) (u_scopes u) u;
     each (outside_source v) (by_source (map exchange_position (filter (\<lambda>x. x_scope_id x = None) (u_observed u)))) u' }"

definition silent_window :: "verifier \<Rightarrow> source_key \<Rightarrow> vrun \<Rightarrow> vrun option" where
  "silent_window v key u = do {
     s \<leftarrow> map_of (v_sources v) key;
     u' \<leftarrow> add_inside v [] key 0 (Some (s_top s)) Partial (add_window (mk_window key 0 (s_top s) None None) u);
     Some (add_tail [] key (tail_problem s) u') }"

type_synonym graphs = "(string \<times> run_graph) list"

definition run_ids_of :: "graphs \<Rightarrow> string \<Rightarrow> string list" where
  "run_ids_of Gs run = (case map_of Gs run of None \<Rightarrow> [run] | Some g \<Rightarrow> rg_run_id g # rg_run_aliases g)"

definition records_of_run :: "verifier \<Rightarrow> graphs \<Rightarrow> string \<Rightarrow> record_obs list" where
  "records_of_run v Gs run = concat (map (\<lambda>i. get_or (v_run_records v) i []) (run_ids_of Gs run))"

definition record_window :: "hash \<Rightarrow> verifier \<Rightarrow> source_key \<times> int list \<Rightarrow> vrun \<Rightarrow> vrun option" where
  "record_window H v p u = (case p of (key, ns) \<Rightarrow> do {
     s \<leftarrow> map_of (v_sources v) key;
     let problem = tail_problem s;
     u' \<leftarrow> (if u_run_id u = fallback_run_id H key
       then add_inside v [] key 0 (Some (s_top s)) Partial (add_window (mk_window key 0 (s_top s) None (closed_by_final problem)) u)
       else add_near v [] key (Min (set ns)) (Max (set ns))
              (add_window (mk_window key (Min (set ns)) (Max (set ns)) None (closed_by_final problem)) u));
     Some (add_tail [] key problem u') })"

definition record_windows :: "hash \<Rightarrow> verifier \<Rightarrow> graphs \<Rightarrow> vrun \<Rightarrow> vrun option" where
  "record_windows H v Gs u =
     (let covered = w_key ` set (u_windows u) in
      each (record_window H v) (by_source (filter (\<lambda>p. fst p \<notin> covered)
        (map record_position (records_of_run v Gs (u_run_id u))))) u)"

definition window_order :: "vwindow \<Rightarrow> source_key \<times> int \<times> int \<times> string" where
  "window_order w = (w_key w, w_low w, w_high w, or_str (w_scope_id w))"

definition init_run :: "hash \<Rightarrow> verifier \<Rightarrow> graphs \<Rightarrow> string \<Rightarrow> exchange_obs list \<Rightarrow> scope list \<Rightarrow> source_key option \<Rightarrow> vrun option" where
  "init_run H v Gs run observed scopes silent = do {
     let u0 = new_run run observed scopes;
     u1 \<leftarrow> (if u_scopes u0 \<noteq> [] then scoped v u0 else unscoped v u0);
     u2 \<leftarrow> (case silent of
         Some key \<Rightarrow> if observed = [] \<and> scopes = [] then silent_window v key u1 else Some u1
       | None \<Rightarrow> Some u1);
     u3 \<leftarrow> record_windows H v Gs u2;
     Some (u3\<lparr>u_windows := sort_key window_order (u_windows u3)\<rparr>) }"

end
