(* ===== verification/RunVerdict.thy ===== *)
theory RunVerdict
  imports RunWindows StitchCheck
begin

text \<open>
  The verdicts of one run and of its scopes (\<^verbatim>\<open>sdk/python/src/fabric/reconstruct/_verify.py\<close>: \<^verbatim>\<open>_Run.build\<close> with
  the body, structure, authentication and outcome checks, and \<^verbatim>\<open>_Verifier.build_runs\<close>). The store reader
  (\<^verbatim>\<open>_objects.StoreReader\<close>) and the payload parser (\<^verbatim>\<open>_stitch.extract_stitch_keys\<close>) are parameters: the
  record \<open>store_reader\<close> and the function \<open>K\<close>. A run report holds the verdict, windows, gaps, checks and
  threads; the rendering of one exchange's entry is left out.
\<close>

subsection \<open>Bodies\<close>

record reassembly =
  ra_data :: "string option"
  ra_gap_type :: "gap_type option"
  ra_reason :: "string option"
  ra_authenticated :: bool

record store_reader =
  rd_fetch :: "string \<Rightarrow> side \<Rightarrow> string \<Rightarrow> attrs \<Rightarrow> object_result"
  rd_fetch_record :: fetch_record
  rd_reassemble :: "string \<Rightarrow> string \<Rightarrow> string \<times> int \<Rightarrow> attrs \<Rightarrow> reassembly"

record bodies =
  bo_request :: object_result
  bo_response :: "object_result option"
  bo_skipped :: bool

definition scopes_of :: "vrun \<Rightarrow> string option \<Rightarrow> string list" where
  "scopes_of u i = (case i of None \<Rightarrow> [] | Some e \<Rightarrow> sorted_set (get_or (u_scopes_of u) e []))"

definition exchange_gap :: "exchange_obs \<Rightarrow> gap_type \<Rightarrow> side option \<Rightarrow> string option \<Rightarrow> vrun \<Rightarrow> vrun" where
  "exchange_gap x t sd reason u = add_gap (scopes_of u (Some (x_exchange_id x)))
     ((mk_gap t Partial)\<lparr>gap_exchange_id := Some (x_exchange_id x), gap_object_role := sd, gap_reason := reason\<rparr>) u"

definition exchange_binding :: "exchange_obs \<Rightarrow> attrs" where
  "exchange_binding x = [(''source_id'', JStr (x_source_id x)), (''source_epoch'', JInt (x_source_epoch x)),
     (''source_sequence'', JInt (x_source_sequence x)), (''run_id'', JStr (x_run_id x)), (''operation_id'', JStr (x_exchange_id x))]"

definition settle_body :: "store_reader \<Rightarrow> exchange_obs \<Rightarrow> side \<Rightarrow> string \<Rightarrow> object_result \<Rightarrow> vrun \<Rightarrow> object_result \<times> vrun" where
  "settle_body rd x sd i r u =
     (if or_verification r = Missing_obj then (r, exchange_gap x Missing_object (Some sd) (or_reason r) u)
      else if or_verification r = Digest_mismatch_obj then (r, exchange_gap x Digest_mismatch (Some sd) (or_reason r) u)
      else case (or_split r, or_data r) of
        (Some split, Some data) \<Rightarrow>
          (let re = rd_reassemble rd i data split (exchange_binding x) in
           case ra_gap_type re of
             Some t \<Rightarrow> (r, exchange_gap x t (Some sd) (ra_reason re) u)
           | None \<Rightarrow> (r\<lparr>or_data := ra_data re, or_parts_authenticated := ra_authenticated re\<rparr>, u))
      | _ \<Rightarrow> (r, u))"

definition body_of :: "store_reader option \<Rightarrow> exchange_obs \<Rightarrow> side \<Rightarrow> string option \<Rightarrow> string option \<Rightarrow> vrun \<Rightarrow>
   (object_result \<times> bool) \<times> vrun" where
  "body_of R x sd digest ref u =
     (case R of
        None \<Rightarrow> (((object_outcome Not_checked)\<lparr>or_sha256 := digest\<rparr>, True), u)
      | Some rd \<Rightarrow>
          if x_store_status x = ''disabled'' then (((object_outcome Not_checked)\<lparr>or_sha256 := digest\<rparr>, True), u)
          else case ref of
            None \<Rightarrow> (((object_outcome Not_stored)\<lparr>or_sha256 := digest\<rparr>, False),
                     if x_truncated x then u else exchange_gap x Missing_object (Some sd) (Some ''not_stored'') u)
          | Some rf \<Rightarrow>
              (case (object_id_from_ref (JStr rf), digest) of
                 (Some i, Some d) \<Rightarrow>
                   (case settle_body rd x sd i (rd_fetch rd i sd d (exchange_binding x)) u of (r, u') \<Rightarrow> ((r, False), u'))
               | _ \<Rightarrow> (((object_outcome Missing_obj)\<lparr>or_sha256 := digest\<rparr>, False),
                       exchange_gap x Missing_object (Some sd) (Some ''invalid_ref'') u)))"

definition response_expected :: "string list" where
  "response_expected = [''complete'', ''closed_early'', ''abandoned'']"

definition claim_gaps :: "verifier \<Rightarrow> exchange_obs \<Rightarrow> vrun \<Rightarrow> vrun" where
  "claim_gaps v x u =
     when_true (length (get_or (v_claims v) (x_source x, x_source_sequence x) []) > 1)
       (exchange_gap x Digest_mismatch None (Some ''sequence_conflict''))
     (when_true (x_exchange_id x \<in> set (v_conflicts v)) (exchange_gap x Digest_mismatch None (Some ''conflicting_duplicate'')) u)"

definition response_body :: "store_reader option \<Rightarrow> exchange_obs \<Rightarrow> vrun \<Rightarrow> (object_result \<times> bool) option \<times> vrun" where
  "response_body R x u =
     (if x_response_sha256 x \<noteq> None \<or>
         x_store_status x \<in> {''partial'', ''failed''} \<and> x_response_ref x = None \<and> x_response_state x \<in> set response_expected
      then (case body_of R x Response (x_response_sha256 x) (x_response_ref x) u of (rs, u') \<Rightarrow> (Some rs, u'))
      else if x_store_status x = ''disabled'' then (None, u)
      else if x_response_state x \<in> set response_expected \<or> x_http_status x \<noteq> None
      then (None, exchange_gap x Missing_object (Some Response) (Some ''response_not_recorded'') u)
      else (None, u))"

definition truncated_sides :: "object_result \<Rightarrow> object_result option \<Rightarrow> side option list" where
  "truncated_sides req resp =
     (let sides = (if or_truncated req then [Some Request] else []) @
                  (case resp of Some r \<Rightarrow> if or_truncated r then [Some Response] else [] | None \<Rightarrow> [])
      in if sides = [] then [None] else sides)"

definition bodies_of :: "verifier \<Rightarrow> store_reader option \<Rightarrow> exchange_obs \<Rightarrow> vrun \<Rightarrow> bodies \<times> vrun" where
  "bodies_of v R x u =
     (case body_of R x Request (x_request_sha256 x) (x_request_ref x) (claim_gaps v x u) of ((req, skipped), u1) \<Rightarrow>
      case response_body R x u1 of (resp, u2) \<Rightarrow>
        (\<lparr>bo_request = req, bo_response = map_option fst resp,
          bo_skipped = (skipped \<or> (case resp of None \<Rightarrow> False | Some (r, s) \<Rightarrow> s))\<rparr>,
         if x_truncated x then fold (\<lambda>sd. exchange_gap x Truncated sd None) (truncated_sides req (map_option fst resp)) u2 else u2))"

fun all_bodies :: "verifier \<Rightarrow> store_reader option \<Rightarrow> exchange_obs list \<Rightarrow> vrun \<Rightarrow> bodies list \<times> vrun" where
  "all_bodies v R [] u = ([], u)"
| "all_bodies v R (x # xs) u =
     (case bodies_of v R x u of (b, u1) \<Rightarrow> case all_bodies v R xs u1 of (bs, u2) \<Rightarrow> (b # bs, u2))"

subsection \<open>Parsed exchanges\<close>

record stitch_keys =
  k_request_status :: string
  k_response_status :: string
  k_response_id :: "string option"
  k_previous_response_id :: "string option"
  k_input_digests :: "string list"
  k_output_digests :: "string list"
  k_consumed :: "string list"
  k_tool_calls :: "string list"

type_synonym parser = "exchange_obs \<Rightarrow> object_result \<Rightarrow> object_result option \<Rightarrow> stitch_keys"

definition continuation_digests :: "string \<Rightarrow> string list \<Rightarrow> string list" where
  "continuation_digests api out =
     (if api \<in> {''openai.chat_completions'', ''openai.completions''} then take 1 out
      else if api \<in> {''openai.responses'', ''anthropic.messages''} then out else [])"

definition unparsed_view :: "exchange_obs \<Rightarrow> stitch_view" where
  "unparsed_view x = \<lparr>sv_exchange_id = x_exchange_id x, sv_api = x_api x, sv_parsed = False, sv_request = [],
     sv_continuation = [], sv_consumed = [], sv_emitted = [], sv_response_id = x_response_id x, sv_previous_response_id = None\<rparr>"

definition or_else :: "string option \<Rightarrow> string option \<Rightarrow> string option" where
  "or_else a b = (case a of None \<Rightarrow> b | Some s \<Rightarrow> if s = [] then b else a)"

definition parse_status :: "exchange_obs \<Rightarrow> stitch_keys \<Rightarrow> string" where
  "parse_status x k =
     (if k_request_status k = ''ok'' \<and> k_response_status k \<notin> {''ok'', ''not_parsed''}
      then if (case x_http_status x of None \<Rightarrow> False | Some n \<Rightarrow> n \<ge> 400) \<and> k_response_status k \<noteq> ''truncated''
           then ''ok'' else k_response_status k
      else k_request_status k)"

definition parsed_view :: "exchange_obs \<Rightarrow> stitch_keys \<Rightarrow> stitch_view" where
  "parsed_view x k = \<lparr>sv_exchange_id = x_exchange_id x, sv_api = x_api x, sv_parsed = True, sv_request = k_input_digests k,
     sv_continuation = k_input_digests k @ continuation_digests (x_api x) (k_output_digests k),
     sv_consumed = k_consumed k, sv_emitted = k_tool_calls k,
     sv_response_id = or_else (k_response_id k) (x_response_id x), sv_previous_response_id = k_previous_response_id k\<rparr>"

definition unparsed_gap :: "exchange_obs \<Rightarrow> string \<Rightarrow> gap" where
  "unparsed_gap x why = (mk_gap Unparsed_exchange Unverified)\<lparr>gap_exchange_id := Some (x_exchange_id x), gap_reason := Some why\<rparr>"

definition cut_gap :: "exchange_obs \<Rightarrow> bodies \<Rightarrow> stitch_keys \<Rightarrow> vrun \<Rightarrow> vrun" where
  "cut_gap x b k u =
     (case bo_response b of
        Some r \<Rightarrow> if k_response_status k = ''truncated'' \<and> \<not> or_truncated r
          then exchange_gap x Truncated (Some Response)
            (Some (if x_response_state x = ''closed_early'' then ''stream_closed_early'' else ''transport_incomplete'')) u
          else u
      | None \<Rightarrow> u)"

definition parse_exchange :: "parser \<Rightarrow> exchange_obs \<Rightarrow> bodies \<Rightarrow> vrun \<Rightarrow> stitch_view \<times> vrun" where
  "parse_exchange K x b u =
     (if or_data (bo_request b) = None \<or> (case bo_response b of None \<Rightarrow> False | Some r \<Rightarrow> or_data r = None)
      then (unparsed_view x, u)
      else
        let k = K x (bo_request b) (bo_response b); u1 = cut_gap x b k u; status = parse_status x k in
        if status \<noteq> ''ok''
        then (unparsed_view x, if status \<noteq> ''truncated'' then add_gap (scopes_of u (Some (x_exchange_id x))) (unparsed_gap x status) u1 else u1)
        else (parsed_view x k, u1))"

fun all_views :: "parser \<Rightarrow> (exchange_obs \<times> bodies) list \<Rightarrow> vrun \<Rightarrow> stitch_view list \<times> vrun" where
  "all_views K [] u = ([], u)"
| "all_views K ((x, b) # xs) u =
     (case parse_exchange K x b u of (w, u1) \<Rightarrow> case all_views K xs u1 of (ws, u2) \<Rightarrow> (w # ws, u2))"

subsection \<open>Structure, record objects and authentication\<close>

definition manifestless_gaps :: "source \<Rightarrow> vwindow \<Rightarrow> gap list" where
  "manifestless_gaps s w = concat (map (\<lambda>(low, high, reason).
     let a = max low (w_low w); b = min (case high of None \<Rightarrow> s_top s | Some h \<Rightarrow> h) (w_high w) in
     if a > b then [] else [(mk_gap Manifest_gap Unverified)\<lparr>gap_source_id := Some (fst (w_key w)), gap_source_epoch := Some (snd (w_key w)),
       gap_first_sequence := Some a, gap_last_sequence := Some b, gap_reason := Some reason\<rparr>]) (s_manifestless s))"

definition add_graph_gap :: "verifier \<Rightarrow> gap \<Rightarrow> vrun \<Rightarrow> vrun" where
  "add_graph_gap v gp u = add_gap (case map_of (v_segments v) (or_str (gap_segment_id gp)) of None \<Rightarrow> [] | Some g \<Rightarrow> seg_scope_ids g) gp u"

definition window_structure :: "verifier \<Rightarrow> vwindow \<Rightarrow> vrun \<Rightarrow> vrun option" where
  "window_structure v w u = map_option (\<lambda>s. add_gaps (case w_scope_id w of None \<Rightarrow> [] | Some i \<Rightarrow> [i]) (manifestless_gaps s w) u)
     (map_of (v_sources v) (w_key w))"

definition structure_gaps :: "verifier \<Rightarrow> graphs \<Rightarrow> vrun \<Rightarrow> vrun option" where
  "structure_gaps v Gs u =
     (let found = concat (map (\<lambda>i. get_or (v_run_gaps v) i []) (run_ids_of Gs (u_run_id u)));
          u1 = fold (\<lambda>(gp, scopes). add_gap scopes gp) found u;
          u2 = (case map_of Gs (u_run_id u) of None \<Rightarrow> u1 | Some g \<Rightarrow> fold (add_graph_gap v) (rg_gaps g) u1)
      in each (window_structure v) (u_windows u) u2)"

fun record_results :: "fetch_record option \<Rightarrow> (record_obs \<times> string) list \<Rightarrow> verifier \<Rightarrow> (record_obs \<times> object_result) list \<times> verifier" where
  "record_results F [] v = ([], v)"
| "record_results F ((r, i) # rest) v =
     (case record_object F False r i v of (x, v1) \<Rightarrow> case record_results F rest v1 of (xs, v2) \<Rightarrow> ((r, x) # xs, v2))"

definition named_objects :: "record_obs list \<Rightarrow> (record_obs \<times> string) list" where
  "named_objects rs = concat (map (\<lambda>r. case object_id_list (get (sp_attributes (r_span r)) A_OBJECT_IDS) of
     None \<Rightarrow> [] | Some is \<Rightarrow> map (Pair r) is) rs)"

definition run_objects :: "store_reader option \<Rightarrow> verifier \<Rightarrow> graphs \<Rightarrow> string \<Rightarrow> (record_obs \<times> object_result) list \<times> verifier" where
  "run_objects R v Gs run =
     (case R of None \<Rightarrow> ([], v)
      | Some rd \<Rightarrow> record_results (Some (rd_fetch_record rd)) (named_objects (records_of_run v Gs run)) v)"

definition record_gap :: "record_obs \<Rightarrow> gap_type \<Rightarrow> effect \<Rightarrow> string option \<Rightarrow> vrun \<Rightarrow> vrun" where
  "record_gap r t e reason u = add_gap (case r_scope_id r of None \<Rightarrow> [] | Some i \<Rightarrow> [i])
     ((mk_gap t e)\<lparr>gap_source_id := Some (r_source_id r), gap_source_epoch := Some (r_source_epoch r),
        gap_first_sequence := Some (r_source_sequence r), gap_last_sequence := Some (r_source_sequence r),
        gap_segment_id := r_segment_id r, gap_reason := reason\<rparr>) u"

definition record_bodies :: "(record_obs \<times> object_result) list \<Rightarrow> vrun \<Rightarrow> vrun" where
  "record_bodies found u = fold (\<lambda>(r, x).
     if or_verification x = Missing_obj then record_gap r Missing_object Partial (or_reason x)
     else if or_verification x = Digest_mismatch_obj then record_gap r Digest_mismatch Partial (or_reason x) else id) found u"

definition unstamped :: "object_result option \<Rightarrow> string option" where
  "unstamped r = (case r of
       None \<Rightarrow> None
     | Some x \<Rightarrow>
         if or_verification x \<notin> {Verified, Not_stored} then None
         else if or_verification x = Not_stored \<and> or_descriptor x = None then None
         else if \<not> or_source_authenticated x then Some ''unstamped_object''
         else if \<not> or_parts_authenticated x then Some ''unstamped_part'' else None)"

definition unstamped_key :: "verifier \<Rightarrow> vrun \<Rightarrow> source_key \<Rightarrow> bool" where
  "unstamped_key v u key \<longleftrightarrow> key \<in> set (v_unstamped_sources v) \<or>
     list_ex (\<lambda>x. x_source x = key \<and> x_exchange_id x \<in> set (v_unstamped_exchanges v)) (u_observed u)"

definition key_scopes :: "vrun \<Rightarrow> source_key \<Rightarrow> string list" where
  "key_scopes u key = sorted_set (somes (map w_scope_id (filter (\<lambda>w. w_key w = key) (u_windows u))) @
     concat (map (\<lambda>x. scopes_of u (Some (x_exchange_id x))) (filter (\<lambda>x. x_source x = key) (u_observed u))))"

definition source_stamp :: "verifier \<Rightarrow> source_key \<Rightarrow> vrun \<Rightarrow> vrun" where
  "source_stamp v key u =
     (if v_trusted_source v \<and> \<not> unstamped_key v u key then u
      else add_gap (key_scopes u key) ((mk_gap Source_unauthenticated Unverified)\<lparr>gap_source_id := Some (fst key),
        gap_source_epoch := Some (snd key),
        gap_reason := Some (if v_trusted_source v then ''unstamped_record'' else ''imported_telemetry'')\<rparr>) u)"

definition side_stamp :: "exchange_obs \<Rightarrow> side \<times> object_result option \<Rightarrow> vrun \<Rightarrow> vrun" where
  "side_stamp x p u = (case unstamped (snd p) of
       None \<Rightarrow> u
     | Some why \<Rightarrow> add_gap (scopes_of u (Some (x_exchange_id x))) ((mk_gap Source_unauthenticated Unverified)
         \<lparr>gap_exchange_id := Some (x_exchange_id x), gap_object_role := Some (fst p), gap_reason := Some why\<rparr>) u)"

definition authentication :: "verifier \<Rightarrow> (exchange_obs \<times> bodies) list \<Rightarrow> (record_obs \<times> object_result) list \<Rightarrow> vrun \<Rightarrow> vrun" where
  "authentication v bs found u =
     (let u1 = fold (source_stamp v) (sorted_set (map w_key (u_windows u))) u;
          u2 = fold (\<lambda>(x, b). fold (side_stamp x) [(Request, Some (bo_request b)), (Response, bo_response b)]) bs u1
      in fold (\<lambda>(r, x). case unstamped (Some x) of None \<Rightarrow> id
           | Some why \<Rightarrow> record_gap r Source_unauthenticated Unverified (Some why)) found u2)"

subsection \<open>Checks and the report\<close>

definition byte_gaps :: "gap_type set" where
  "byte_gaps = {Missing_object, Digest_mismatch, Truncated}"

definition stitch_gaps :: "gap_type set" where
  "stitch_gaps = {Unparsed_exchange, Prefix_break, Unmatched_tool_call, Unresolved_previous_response}"

definition outcome :: "bool \<Rightarrow> bool \<Rightarrow> bool \<Rightarrow> check" where
  "outcome failed skipped applicable =
     (if failed then Failed else if \<not> applicable then Not_applicable else if skipped then Skipped else Passed)"

definition checks_of :: "gap list \<Rightarrow> bodies list \<Rightarrow> stitch_view list \<Rightarrow> bool \<Rightarrow> (string \<times> check) list" where
  "checks_of gaps bs views has_members =
     (let failing = gap_type ` {g \<in> set gaps. gap_effect g \<noteq> Info} in
      [(''sequence'', outcome (Sequence_gap \<in> failing) False True), (''loss'', outcome (Loss \<in> failing) False True),
       (''tail'', outcome (Tail_unverified \<in> failing) False True),
       (''bytes'', outcome (failing \<inter> byte_gaps \<noteq> {}) (list_ex bo_skipped bs) has_members),
       (''stitching'', outcome (failing \<inter> stitch_gaps \<noteq> {}) (\<not> list_all sv_parsed views) has_members)])"

record scope_report =
  so_scope :: scope
  so_members :: "string list"
  so_verdict :: verdict
  so_gaps :: "gap list"
  so_checks :: "(string \<times> check) list"

record run_report =
  rp_run_id :: string
  rp_verdict :: verdict
  rp_windows :: "vwindow list"
  rp_exchanges :: "string list"
  rp_threads :: "(string \<times> string list) list"
  rp_gaps :: "gap list"
  rp_checks :: "(string \<times> check) list"
  rp_scopes :: "scope_report list"

definition member_index :: "vrun \<Rightarrow> string \<rightharpoonup> int" where
  "member_index u = map_of (zip (map x_exchange_id (u_members u)) [0..int (length (u_members u)) - 1])"

definition scope_members :: "vrun \<Rightarrow> scope \<Rightarrow> string list" where
  "scope_members u c = map x_exchange_id (filter (\<lambda>x. sc_scope_id c \<in> set (get_or (u_scopes_of u) (x_exchange_id x) [])) (u_members u))"

definition malformed_gaps :: "vrun \<Rightarrow> vrun" where
  "malformed_gaps u = fold (\<lambda>x. if x_malformed x then add_gap (case x_scope_id x of None \<Rightarrow> [] | Some i \<Rightarrow> [i])
     ((mk_gap Digest_mismatch Partial)\<lparr>gap_exchange_id := Some (x_exchange_id x), gap_reason := Some ''malformed_record''\<rparr>) else id)
     (u_observed u) u"

definition scope_verdict :: "vrun \<Rightarrow> (string \<times> bodies \<times> stitch_view) list \<Rightarrow> scope \<Rightarrow> scope_report" where
  "scope_verdict u seen c =
     (let ids = scope_members u c; found = somes (map (map_of seen) ids);
          gs = sort_gaps (get_or (u_scope_gaps u) (sc_scope_id c) []) (member_index u);
          cs = checks_of gs (map fst found) (map snd found) (ids \<noteq> [])
      in \<lparr>so_scope = c, so_members = ids, so_verdict = verdict_for gs cs, so_gaps = gs, so_checks = cs\<rparr>)"

definition conclude :: "vrun \<Rightarrow> bodies list \<Rightarrow> stitch_view list \<Rightarrow> stitch_result \<Rightarrow> run_report" where
  "conclude u bs views st =
     (let gs = sort_gaps (u_gaps u) (member_index u); cs = checks_of gs bs views (u_members u \<noteq> []);
          ids = map x_exchange_id (u_members u)
      in \<lparr>rp_run_id = u_run_id u, rp_verdict = run_verdict (verdict_for gs cs) (u_scopes u \<noteq> []), rp_windows = u_windows u,
          rp_exchanges = ids, rp_threads = sr_threads st, rp_gaps = gs, rp_checks = cs,
          rp_scopes = map (scope_verdict u (zip ids (zip bs views))) (u_scopes u)\<rparr>)"

definition build_run :: "parser \<Rightarrow> store_reader option \<Rightarrow> graphs \<Rightarrow> vrun \<Rightarrow> verifier \<Rightarrow> (run_report \<times> verifier) option" where
  "build_run K R Gs u v =
     (case all_bodies v R (u_members u) (malformed_gaps u) of (bs, u1) \<Rightarrow>
      case all_views K (zip (u_members u) bs) u1 of (views, u2) \<Rightarrow> do {
        st \<leftarrow> stitch_run views;
        u3 \<leftarrow> structure_gaps v Gs (fold (\<lambda>gp w. add_gap (scopes_of w (gap_exchange_id gp)) gp w) (sr_gaps st) u2);
        case run_objects R v Gs (u_run_id u) of (found, v') \<Rightarrow>
          let u4 = record_bodies found u3;
              u5 = (if v_production v then authentication v (zip (u_members u) bs) found u4 else u4)
          in Some (conclude u5 bs views st, v') })"

end
