(* ===== verification/Reconstruct.thy ===== *)
theory Reconstruct
  imports RunVerdict
begin

text \<open>
  The whole verification (\<^verbatim>\<open>sdk/python/src/fabric/reconstruct/_verify.py\<close>: \<^verbatim>\<open>_Verifier.build_runs\<close> and the
  pipeline of \<^verbatim>\<open>reconstruct_with_graphs\<close> from the spans that are read to the run reports). Reading the
  files, the host-record split and the spec 056 attribution are left out: the spans are those of the agent.
\<close>

subsection \<open>Building the runs\<close>

definition canonical_aliases :: "graphs \<Rightarrow> (string \<times> string) list" where
  "canonical_aliases Gs = concat (map (\<lambda>(i, g). map (\<lambda>a. (a, rg_run_id g)) (rg_run_aliases g)) Gs)"

definition canon :: "graphs \<Rightarrow> string \<Rightarrow> string" where
  "canon Gs run = get_or (rev (canonical_aliases Gs)) run run"

definition all_exchanges :: "verifier \<Rightarrow> exchange_obs list" where
  "all_exchanges v = concat (map snd (v_observations v))"

definition observed_of :: "verifier \<Rightarrow> graphs \<Rightarrow> string \<Rightarrow> exchange_obs list" where
  "observed_of v Gs run = filter (\<lambda>x. canon Gs (x_run_id x) = run) (all_exchanges v)"

definition scope_ids_of :: "verifier \<Rightarrow> graphs \<Rightarrow> string \<Rightarrow> string list" where
  "scope_ids_of v Gs run = remdups (concat (map snd (filter (\<lambda>(i, cs). canon Gs i = run) (v_run_scopes v))))"

definition seen_keys :: "verifier \<Rightarrow> source_key list" where
  "seen_keys v = map x_source (all_exchanges v) @ map (sc_key \<circ> snd) (v_scopes v) @ map r_source (v_records v)"

definition silent_runs :: "hash \<Rightarrow> verifier \<Rightarrow> (string \<times> source_key) list" where
  "silent_runs H v = map (\<lambda>(k, s). (fallback_run_id H k, k))
     (filter (\<lambda>(k, s). k \<notin> set (seen_keys v) \<and> s_top s \<ge> 0) (v_sources v))"

definition reported_runs :: "hash \<Rightarrow> verifier \<Rightarrow> graphs \<Rightarrow> string list" where
  "reported_runs H v Gs = sorted_set (map (canon Gs \<circ> x_run_id) (all_exchanges v) @ map (canon Gs \<circ> fst) (v_run_scopes v) @
     map fst (silent_runs H v) @ map (canon Gs \<circ> fst) (v_run_records v))"

definition run_of :: "hash \<Rightarrow> verifier \<Rightarrow> graphs \<Rightarrow> string \<Rightarrow> vrun option" where
  "run_of H v Gs run = do {
     members \<leftarrow> those (map (map_of (v_scopes v)) (scope_ids_of v Gs run));
     init_run H v Gs run (observed_of v Gs run) members (map_of (rev (silent_runs H v)) run) }"

fun build_each :: "hash \<Rightarrow> parser \<Rightarrow> store_reader option \<Rightarrow> graphs \<Rightarrow> string list option \<Rightarrow> string list \<Rightarrow> verifier \<Rightarrow>
   (run_report list \<times> verifier) option" where
  "build_each H K R Gs wanted [] v = Some ([], v)"
| "build_each H K R Gs wanted (run # rest) v =
     (if (case wanted of None \<Rightarrow> False | Some ids \<Rightarrow> set ids \<inter> set (run_ids_of Gs run) = {}) then build_each H K R Gs wanted rest v
      else do {
        u \<leftarrow> run_of H v Gs run;
        if u_windows u = [] then build_each H K R Gs wanted rest v
        else do {
          (rep, v1) \<leftarrow> build_run K R Gs u v;
          (reps, v2) \<leftarrow> build_each H K R Gs wanted rest v1;
          Some (rep # reps, v2) } })"

definition build_runs :: "hash \<Rightarrow> parser \<Rightarrow> store_reader option \<Rightarrow> graphs \<Rightarrow> string list option \<Rightarrow> verifier \<Rightarrow>
   (run_report list \<times> verifier) option" where
  "build_runs H K R Gs wanted v = build_each H K R Gs wanted (reported_runs H v Gs) v"

subsection \<open>The pipeline\<close>

datatype failure = Bad_span input_error | Crash

datatype profile = Local | Production

record setting =
  t_trusted_source :: bool
  t_profile :: "profile option"
  t_evaluated_us :: int
  t_clock_uncertainty_ns :: int
  t_max_clock_uncertainty_ns :: int
  t_run_ids :: "string list option"

fun observe_all :: "(string \<Rightarrow> string) \<Rightarrow> span_record list \<Rightarrow> input_error + observation list" where
  "observe_all SH [] = Inr []"
| "observe_all SH (sp # sps) =
     (case observe SH sp of
        Inl e \<Rightarrow> Inl e
      | Inr ob \<Rightarrow> (case observe_all SH sps of Inl e \<Rightarrow> Inl e | Inr obs \<Rightarrow> Inr (case ob of None \<Rightarrow> obs | Some x \<Rightarrow> x # obs)))"

definition judge :: "hash \<Rightarrow> (string \<Rightarrow> string) \<Rightarrow> parser \<Rightarrow> store_reader option \<Rightarrow> setting \<Rightarrow> observation list \<Rightarrow>
   (run_report list \<times> verifier) option" where
  "judge H SH K R t obs = do {
     v0 \<leftarrow> collect H obs new_verifier;
     v1 \<leftarrow> finalize_verifier SH (map_option rd_fetch_record R) v0;
     let v2 = v1\<lparr>v_trusted_source := t_trusted_source t,
       v_production := (case t_profile t of Some p \<Rightarrow> p = Production | None \<Rightarrow> v_stamp_observed v1)\<rparr>;
     nodes \<leftarrow> segment_nodes v2;
     gs \<leftarrow> build_run_graphs nodes (t_evaluated_us t) (t_clock_uncertainty_ns t) (t_max_clock_uncertainty_ns t);
     build_runs H K R (map (\<lambda>g. (rg_run_id g, g)) gs) (map_option (map (report_run_id H)) (t_run_ids t)) v2 }"

definition reconstruct :: "hash \<Rightarrow> (string \<Rightarrow> string) \<Rightarrow> parser \<Rightarrow> store_reader option \<Rightarrow> setting \<Rightarrow> span_record list \<Rightarrow>
   failure + run_report list" where
  "reconstruct H SH K R t spans =
     (case observe_all SH spans of
        Inl e \<Rightarrow> Inl (Bad_span e)
      | Inr obs \<Rightarrow> (case judge H SH K R t obs of None \<Rightarrow> Inl Crash | Some (reps, v) \<Rightarrow> Inr reps))"

end
