(* ===== verification/CollectLinks.thy ===== *)
theory CollectLinks
  imports CollectRules Observe
begin

text \<open>
  Two more invariants of collecting: every exchange, record and scope the verifier's indexes name is
  accounted for in the tables they point into (so that no later look-up fails), and a run marker never
  names a sequence above the heartbeat of its source.
\<close>

definition vals :: "('k \<Rightarrow> 'v \<Rightarrow> bool) \<Rightarrow> ('k \<times> 'v) list \<Rightarrow> bool" where
  "vals P d \<longleftrightarrow> (\<forall>(k, x)\<in>set d. P k x)"

lemma vals_Nil [simp]: "vals P []"
  by (simp add: vals_def)

lemma valsD: "vals P d \<Longrightarrow> (k, x) \<in> set d \<Longrightarrow> P k x"
  by (auto simp: vals_def)

lemma vals_get: "vals P d \<Longrightarrow> map_of d k = Some x \<Longrightarrow> P k x"
  by (auto simp: vals_def dest: map_of_SomeD)

lemma vals_mono: "vals P d \<Longrightarrow> (\<And>k x. P k x \<Longrightarrow> Q k x) \<Longrightarrow> vals Q d"
  by (auto simp: vals_def)

lemma set_update_subset: "set (AList.update k x d) \<subseteq> insert (k, x) (set d)"
  by (induction d) auto

lemma vals_upd:
  assumes "vals P d" and "P k u" and "\<And>x. P k x \<Longrightarrow> P k (f x)"
  shows "vals P (upd_at d k u f)"
proof -
  have "P k (get_or d k u)" using assms(1,2) vals_get by (auto simp: get_or_def split: option.splits)
  then show ?thesis
    using assms(1,3) set_update_subset [of k "f (get_or d k u)" d] by (auto simp: upd_at_def vals_def)
qed

lemma vals_setdefault: "vals P d \<Longrightarrow> P k u \<Longrightarrow> vals P (setdefault d k u)"
  by (auto simp: setdefault_def vals_def split: option.splits)

definition beat :: "verifier \<Rightarrow> source_key \<Rightarrow> int" where
  "beat v k = s_heartbeat (src v k)"

definition marks_within :: "(source_key \<Rightarrow> int) \<Rightarrow> scope \<Rightarrow> bool" where
  "marks_within hb c \<longleftrightarrow> (\<forall>m\<in>set (sc_starts c) \<union> set (sc_ends c). -1 \<le> marker_last m \<and> marker_last m \<le> hb (fst m))"

definition linked :: "verifier \<Rightarrow> bool" where
  "linked v \<longleftrightarrow> vals (\<lambda>i rs. r_source ` set rs \<subseteq> known v) (v_run_records v) \<and>
     vals (\<lambda>i cs. set cs \<subseteq> fst ` set (v_scopes v)) (v_run_scopes v) \<and> r_source ` set (v_records v) \<subseteq> known v \<and>
     vals (\<lambda>i xs. x_source ` set xs \<subseteq> known v) (v_observations v) \<and> vals (\<lambda>i c. marks_within (beat v) c) (v_scopes v)"

lemma marks_mono: "marks_within hb c \<Longrightarrow> hb \<le> hb' \<Longrightarrow> marks_within hb' c"
  unfolding marks_within_def le_fun_def by (meson order.trans)

lemma linkedD:
  assumes "linked v" and "known v \<subseteq> K" and "beat v \<le> hb" and "fst ` set (v_scopes v) \<subseteq> C"
  shows "vals (\<lambda>i rs. r_source ` set rs \<subseteq> K) (v_run_records v)" "vals (\<lambda>i cs. set cs \<subseteq> C) (v_run_scopes v)"
    "r_source ` set (v_records v) \<subseteq> K" "vals (\<lambda>i xs. x_source ` set xs \<subseteq> K) (v_observations v)"
    "vals (\<lambda>i c. marks_within hb c) (v_scopes v)"
proof -
  note v = assms(1) [unfolded linked_def]
  show "vals (\<lambda>i rs. r_source ` set rs \<subseteq> K) (v_run_records v)" "vals (\<lambda>i cs. set cs \<subseteq> C) (v_run_scopes v)"
    "vals (\<lambda>i xs. x_source ` set xs \<subseteq> K) (v_observations v)" "vals (\<lambda>i c. marks_within hb c) (v_scopes v)"
    using v by (elim conjE, erule_tac vals_mono, meson assms(2-4) order.trans marks_mono)+
  show "r_source ` set (v_records v) \<subseteq> K" using v assms(2) by (meson order.trans)
qed

lemma beat_mono: "beat v \<le> beat (step ob v)"
proof (rule le_funI)
  fix k
  show "beat v k \<le> beat (step ob v) k"
  proof (cases ob)
    case (Exchange_obs x)
    then show ?thesis using add_exchange_retry [of x "stamp ob v"] add_exchange_fresh(1) [of x "stamp ob v"]
      by (cases "exchange_ident x \<in> exchange_ident ` set (get_or (v_observations v) (x_exchange_id x) [])")
        (auto simp: step_def beat_def get_or_upd_at fill_def)
  next
    case (Record_obs r)
    then show ?thesis using add_record_fresh(1) [of r "stamp ob v"]
      by (cases "record_ident r \<in> record_ident ` set (v_records v)")
        (auto simp: step_def beat_def get_or_upd_at fill_def add_record_def)
  qed (simp_all add: step_def beat_def other_sources get_or_upd_at Let_def allocated_to_def finish_at_def)
qed

lemma beat_stamp [simp]: "beat (stamp ob v) = beat v"
  by (simp add: fun_eq_iff beat_def)

lemma link_frame [simp]:
  "v_run_records (stamp ob v) = v_run_records v" "v_run_scopes (stamp ob v) = v_run_scopes v"
  by (cases ob; simp add: stamp_source_def)+

lemma link_frame_other [simp]:
  "v_run_records (add_loss l v) = v_run_records v" "v_run_scopes (add_loss l v) = v_run_scopes v" "v_scopes (add_loss l v) = v_scopes v"
  "v_run_records (add_manifest m v) = v_run_records v" "v_run_scopes (add_manifest m v) = v_run_scopes v"
  "v_scopes (add_manifest m v) = v_scopes v"
  "v_run_records (add_seal s v) = v_run_records v" "v_run_scopes (add_seal s v) = v_run_scopes v" "v_scopes (add_seal s v) = v_scopes v"
  "v_run_records (add_heartbeat h v) = v_run_records v"
  by (simp_all add: add_loss_def add_manifest_def add_seal_def add_heartbeat_def Let_def op_defs split: option.splits)

definition touched :: "verifier \<Rightarrow> string option \<Rightarrow> string option \<Rightarrow> (scope \<Rightarrow> scope) \<Rightarrow> verifier \<Rightarrow> bool" where
  "touched v i run f w \<longleftrightarrow> (case (i, run) of
       (Some c, Some r) \<Rightarrow> v_scopes w = upd_at (v_scopes v) c (new_scope c) f \<and> v_run_scopes w = upd_at (v_run_scopes v) r [] (add_new c)
     | _ \<Rightarrow> v_scopes w = v_scopes v \<and> v_run_scopes w = v_run_scopes v)"

lemma touched_scopes:
  assumes "touched v i run f w"
  shows "fst ` set (v_scopes v) \<subseteq> fst ` set (v_scopes w)"
  using assms by (auto simp: touched_def split: option.splits)

lemma touched_linked:
  assumes v: "linked v" and t: "touched v i run f w" and K: "known v \<subseteq> known w" and b: "beat v \<le> beat w"
    and f: "\<And>c. marks_within (beat w) c \<Longrightarrow> marks_within (beat w) (f c)"
    and "vals (\<lambda>i rs. r_source ` set rs \<subseteq> known w) (v_run_records w)" "r_source ` set (v_records w) \<subseteq> known w"
      "vals (\<lambda>i xs. x_source ` set xs \<subseteq> known w) (v_observations w)"
  shows "linked w"
proof -
  note d = linkedD [OF v K b touched_scopes [OF t]]
  have n: "marks_within (beat w) (new_scope c)" for c by (simp add: marks_within_def new_scope_def)
  have "vals (\<lambda>i c. marks_within (beat w) c) (v_scopes w)"
    using t d(5) f n by (auto simp: touched_def split: option.splits intro!: vals_upd)
  moreover have "vals (\<lambda>i cs. set cs \<subseteq> fst ` set (v_scopes w)) (v_run_scopes w)"
    using t d(2) by (auto simp: touched_def split: option.splits intro!: vals_upd)
  ultimately show ?thesis using assms(6-8) by (simp add: linked_def)
qed

lemma touched_none: "v_scopes w = v_scopes v \<Longrightarrow> v_run_scopes w = v_run_scopes v \<Longrightarrow> touched v None None id w"
  by (simp add: touched_def)

lemma known_step: "known v \<subseteq> known (step ob v)"
  by (rule known_mono)

lemma linked_same:
  assumes "linked v" and "known v \<subseteq> known w" and "beat v \<le> beat w" and "v_scopes w = v_scopes v" "v_run_scopes w = v_run_scopes v"
    "v_run_records w = v_run_records v" "v_records w = v_records v" "v_observations w = v_observations v"
  shows "linked w"
  using touched_linked [OF assms(1) touched_none [OF assms(4,5)] assms(2,3)] linkedD [OF assms(1,2,3) order.refl] assms(4-8)
  by simp

lemma image_snoc: "f ` set (xs @ [x]) \<subseteq> K \<longleftrightarrow> f x \<in> K \<and> f ` set xs \<subseteq> K"
  by auto

lemma marks_ops [simp]:
  "marks_within hb (c\<lparr>sc_exchanges := xs\<rparr>) = marks_within hb c" "marks_within hb (c\<lparr>sc_records := rs\<rparr>) = marks_within hb c"
  by (simp_all add: marks_within_def)

lemma linked_exchange:
  assumes v: "linked v" and fresh: "exchange_ident x \<notin> exchange_ident ` set (get_or (v_observations v) (x_exchange_id x) [])"
  shows "linked (step (Exchange_obs x) v)"
proof -
  let ?ob = "Exchange_obs x" and ?w = "step (Exchange_obs x) v"
  have w: "?w = add_exchange x (stamp ?ob v)" by (simp add: step_def)
  have x: "x_source x \<in> known ?w" using fresh by (simp add: w add_exchange_fresh)
  have t: "touched v (x_scope_id x) (Some (x_run_id x)) (\<lambda>c. c\<lparr>sc_exchanges := sc_exchanges c @ [x]\<rparr>) ?w"
    using fresh by (auto simp: w touched_def add_exchange_def Let_def op_defs simp del: stamp.simps split: option.splits)
  have f: "v_run_records ?w = v_run_records v" "v_records ?w = v_records v"
    "v_observations ?w = upd_at (setdefault (v_observations v) (x_exchange_id x) []) (x_exchange_id x) [] (\<lambda>xs. xs @ [x])"
    using fresh by (simp_all add: w add_exchange_def Let_def op_defs del: stamp.simps split: option.splits)
  note d = linkedD [OF v known_step [of v ?ob] beat_mono [of v ?ob] touched_scopes [OF t]]
  show ?thesis
  proof (rule touched_linked [OF v t known_step beat_mono])
    show "vals (\<lambda>i xs. x_source ` set xs \<subseteq> known ?w) (v_observations ?w)"
      unfolding f(3) by (rule vals_upd [OF vals_setdefault [OF d(4)]]) (simp_all only: image_snoc x list.set image_empty empty_subsetI simp_thms)
  qed (simp_all add: f d)
qed

lemma linked_record:
  assumes v: "linked v" and fresh: "record_ident r \<notin> record_ident ` set (v_records v)"
  shows "linked (step (Record_obs r) v)"
proof -
  let ?ob = "Record_obs r" and ?w = "step (Record_obs r) v"
  have w: "?w = add_record r (stamp ?ob v)" by (simp add: step_def)
  have x: "r_source r \<in> known ?w" using fresh by (simp add: w add_record_fresh)
  have t: "touched v (r_scope_id r) (r_run_id r) (\<lambda>c. c\<lparr>sc_records := sc_records c @ [r]\<rparr>) ?w"
    using fresh by (auto simp: w touched_def add_record_def Let_def op_defs simp del: stamp.simps split: option.splits)
  have f: "v_observations ?w = v_observations v" "v_records ?w = v_records v @ [r]"
    "v_run_records ?w = (case r_run_id r of None \<Rightarrow> v_run_records v | Some run \<Rightarrow> upd_at (v_run_records v) run [] (\<lambda>xs. xs @ [r]))"
    using fresh by (simp_all add: w add_record_def Let_def op_defs del: stamp.simps split: option.splits)
  note d = linkedD [OF v known_step [of v ?ob] beat_mono [of v ?ob] touched_scopes [OF t]]
  have "vals (\<lambda>i rs. r_source ` set rs \<subseteq> known ?w) (upd_at (v_run_records v) run [] (\<lambda>xs. xs @ [r]))" for run
    by (rule vals_upd [OF d(1)]) (simp_all only: image_snoc x list.set image_empty empty_subsetI simp_thms)
  then show ?thesis
    using d(1,3,4) x by (intro touched_linked [OF v t known_step beat_mono]) (simp_all add: f image_snoc split: option.split)
qed

lemma linked_heartbeat:
  assumes v: "linked v" and h: "-1 \<le> h_last_sequence h"
  shows "linked (step (Heartbeat_obs h) v)"
proof (cases "heartbeat_ident h \<in> heartbeat_ident ` set (v_heartbeats v)")
  case True
  then show ?thesis
    by (intro linked_same [OF v known_step beat_mono])
      (simp_all add: step_def add_heartbeat_def Let_def op_defs stamp_source_def split: option.splits)
next
  case False
  let ?ob = "Heartbeat_obs h" and ?w = "step (Heartbeat_obs h) v"
  let ?m = "\<lambda>run. (h_source h, run, h_last_sequence h, h_segment_id h)"
  have w: "?w = add_heartbeat h (stamp ?ob v)" by (simp add: step_def)
  let ?live = "h_kind h \<noteq> Some Final \<and> h_kind h \<noteq> Some Periodic"
  obtain run where r: "h_run_id h = None \<or> h_run_id h = Some run" by (cases "h_run_id h") auto
  have t: "touched v (if ?live then h_scope_id h else None) (h_run_id h) (\<lambda>c. if h_kind h = Some Run_start
      then c\<lparr>sc_starts := add_new (?m run) (sc_starts c)\<rparr>
      else c\<lparr>sc_ends := add_new (?m run) (sc_ends c)\<rparr>) ?w"
    using False r by (auto simp: w touched_def add_heartbeat_def Let_def op_defs simp del: stamp.simps split: option.splits)
  have f: "v_run_records ?w = v_run_records v" "v_observations ?w = v_observations v" "v_records ?w = v_records v"
    by (simp_all add: w del: stamp.simps)
  have b: "h_last_sequence h \<le> beat ?w (h_source h)"
    using False by (auto simp: w beat_def other_sources get_or_upd_at Let_def allocated_to_def finish_at_def)
  note d = linkedD [OF v known_step [of v ?ob] beat_mono [of v ?ob] touched_scopes [OF t]]
  show ?thesis
    using d(1,3,4) b h by (intro touched_linked [OF v t known_step beat_mono]) (auto simp: f marks_within_def marker_last_def)
qed

definition marker_bound :: "observation \<Rightarrow> bool" where
  "marker_bound ob \<longleftrightarrow> (\<forall>h. ob = Heartbeat_obs h \<longrightarrow> -1 \<le> h_last_sequence h)"

lemma linked_step:
  assumes v: "linked v" and ob: "marker_bound ob"
  shows "linked (step ob v)"
proof (cases ob)
  case (Exchange_obs x)
  show ?thesis
  proof (cases "exchange_ident x \<in> exchange_ident ` set (get_or (v_observations v) (x_exchange_id x) [])")
    case True
    then have "step ob v = stamp ob v" using Exchange_obs add_exchange_retry [of x "stamp ob v"] by (simp add: step_def)
    then show ?thesis using v by (simp add: linked_def beat_stamp)
  qed (use linked_exchange [OF v] Exchange_obs in simp)
next
  case (Record_obs r)
  show ?thesis
  proof (cases "record_ident r \<in> record_ident ` set (v_records v)")
    case True
    then have "step ob v = stamp ob v" using Record_obs by (simp add: step_def add_record_def)
    then show ?thesis using v by (simp add: linked_def beat_stamp)
  qed (use linked_record [OF v] Record_obs in simp)
next
  case (Heartbeat_obs h)
  then show ?thesis using linked_heartbeat [OF v] ob by (simp add: marker_bound_def)
qed (rule linked_same [OF v known_step beat_mono]; simp add: step_def stamp_source_def)+

lemma linked_fold: "linked v \<Longrightarrow> \<forall>ob\<in>set es. marker_bound ob \<Longrightarrow> linked (fold step es v)"
  by (induction es arbitrary: v) (auto simp: linked_step)

lemma linked_new: "linked new_verifier"
  by (simp add: linked_def new_verifier_def)

subsection \<open>Labelled observations\<close>

text \<open>A malformed marker's heartbeat is labelled twice, so labelling must succeed on labelled entries too.\<close>

definition slashed :: "string \<Rightarrow> bool" where
  "slashed p \<longleftrightarrow> p = ''none'' \<or> CHR ''/'' \<in> set p"

lemma split_on_neq [simp]: "split_on c s \<noteq> []"
  by (induction c s rule: split_on.induct) (auto split: list.splits)

lemma split_on_two: "c \<in> set s \<Longrightarrow> \<exists>a b rest. split_on c s = a # b # rest"
proof (induction c s rule: split_on.induct)
  case (2 c x xs)
  then show ?case by (cases "split_on c xs") (auto split: list.splits)
qed simp

lemma foldl_slashes: "CHR ''/'' \<in> set a \<or> ps \<noteq> [] \<Longrightarrow> CHR ''/'' \<in> set (foldl (\<lambda>acc p. acc @ ''/'' @ p) a ps)"
  by (induction ps arbitrary: a) auto

lemma predecessor_label_total: "slashed p \<Longrightarrow> \<exists>q. predecessor_label H p = Some q \<and> slashed q"
  using split_on_two [of "CHR ''/''" p] foldl_slashes [of _ "report_source_id H _ # _"]
  by (fastforce simp: predecessor_label_def slashed_def)

lemma ref_ok_slashed: "ref_ok p \<Longrightarrow> slashed p"
proof -
  have "CHR ''/'' \<in> set p" if "match_entry p \<noteq> None"
    using that by (rule contrapos_np) (simp add: match_entry_def)
  then show "ref_ok p \<Longrightarrow> slashed p" by (auto simp: ref_ok_def slashed_def)
qed

definition labelled_ok :: "heartbeat_obs \<Rightarrow> bool" where
  "labelled_ok h \<longleftrightarrow> -1 \<le> h_last_sequence h \<and> (\<forall>i. h_info h = Some i \<longrightarrow> list_all slashed (i_predecessors i))"

lemma those_label: "list_all slashed ps \<Longrightarrow> \<exists>qs. those (map (predecessor_label H) ps) = Some qs \<and> list_all slashed qs"
proof (induction ps)
  case (Cons p ps)
  then show ?case using predecessor_label_total [of p H] by auto
qed simp

lemma label_heartbeat_ok:
  assumes "labelled_ok h"
  shows "\<exists>k. label_heartbeat H h = Some k \<and> labelled_ok k"
proof (cases "h_info h")
  case (Some i)
  then have "list_all slashed (i_predecessors i)" using assms by (simp add: labelled_ok_def)
  from those_label [OF this, of H] show ?thesis using assms Some by (auto simp: label_heartbeat_def Let_def labelled_ok_def)
qed (use assms in \<open>simp add: label_heartbeat_def labelled_ok_def\<close>)

lemma marker_ok_labelled: "marker_ok h \<Longrightarrow> labelled_ok h"
  using ref_ok_slashed by (auto simp: marker_ok_def labelled_ok_def list_all_iff)

lemma effects_ok:
  assumes "bounded_obs ob"
  shows "\<exists>es. effects H ob = Some es \<and> (\<forall>e\<in>set es. valid_obs e \<and> marker_bound e)"
proof (cases ob)
  case (Heartbeat_obs h)
  then have "labelled_ok h" using assms marker_ok_labelled by simp
  from label_heartbeat_ok [OF this, of H] show ?thesis
    by (auto simp: Heartbeat_obs effects_def labelled_ok_def marker_bound_def)
next
  case (Malformed_marker_obs m)
  show ?thesis
  proof (cases "mm_heartbeat m")
    case None
    then show ?thesis by (simp add: Malformed_marker_obs effects_def marker_bound_def)
  next
    case (Some h)
    then have "labelled_ok h" using assms Malformed_marker_obs marker_ok_labelled by simp
    then obtain k where k: "label_heartbeat H h = Some k" "labelled_ok k" using label_heartbeat_ok by blast
    then obtain l where "label_heartbeat H k = Some l" "labelled_ok l" using label_heartbeat_ok by blast
    with k show ?thesis by (auto simp: Malformed_marker_obs Some effects_def labelled_ok_def marker_bound_def)
  qed
qed (use assms in \<open>auto simp: effects_def marker_bound_def\<close>)

lemma collect_returns:
  assumes "\<forall>ob\<in>set obs. bounded_obs ob"
  shows "\<exists>es. collect H obs v = Some (fold step es v) \<and> (\<forall>e\<in>set es. valid_obs e \<and> marker_bound e) \<and>
    those (map (effects H) obs) = Some (map (the \<circ> effects H) obs) \<and> es = concat (map (the \<circ> effects H) obs)"
proof -
  have t: "those (map (effects H) obs) = Some (map (the \<circ> effects H) obs) \<and>
      (\<forall>e\<in>set (concat (map (the \<circ> effects H) obs)). valid_obs e \<and> marker_bound e)"
    using assms
  proof (induction obs)
    case (Cons ob obs)
    then show ?case using effects_ok [of ob H] by auto
  qed simp
  then show ?thesis unfolding collect_effects by simp
qed

end
