(* ===== verification/RunSafety.thy ===== *)
theory RunSafety
  imports Reconstruct CollectLinks
begin

text \<open>
  What a complete verdict means. The operations on a run only ever add gaps (\<open>grows\<close>), so a scope or run
  that is complete at the end had no gap when its windows were laid out; with the accounting lemmas this
  gives that every sequence of a complete scope was observed, under one uncontradicted claim.
\<close>

subsection \<open>Gaps only accumulate\<close>

definition scope_gaps_of :: "vrun \<Rightarrow> string \<Rightarrow> gap set" where
  "scope_gaps_of u i = set (get_or (u_scope_gaps u) i [])"

definition contained :: "vrun \<Rightarrow> bool" where
  "contained u \<longleftrightarrow> (\<forall>i. scope_gaps_of u i \<subseteq> set (u_gaps u))"

definition grows :: "vrun \<Rightarrow> vrun \<Rightarrow> bool" where
  "grows u w \<longleftrightarrow> u_run_id w = u_run_id u \<and> u_observed w = u_observed u \<and> u_members w = u_members u \<and> u_scopes w = u_scopes u \<and>
     u_scopes_of w = u_scopes_of u \<and> fst ` set (u_scope_gaps w) = fst ` set (u_scope_gaps u) \<and>
     set (u_gaps u) \<subseteq> set (u_gaps w) \<and> scope_gaps_of u \<le> scope_gaps_of w \<and> (contained u \<longrightarrow> contained w) \<and>
     set (u_windows u) \<subseteq> set (u_windows w)"

lemma grows_refl [simp]: "grows u u"
  by (simp add: grows_def)

lemma grows_trans [trans]: "grows u v \<Longrightarrow> grows v w \<Longrightarrow> grows u w"
  unfolding grows_def by (elim conjE) (intro conjI; (simp | erule (1) order.trans))

lemma growsD:
  assumes "grows u w"
  shows "u_run_id w = u_run_id u" "u_observed w = u_observed u" "u_members w = u_members u" "u_scopes w = u_scopes u"
    "u_scopes_of w = u_scopes_of u" "fst ` set (u_scope_gaps w) = fst ` set (u_scope_gaps u)"
    "set (u_gaps u) \<subseteq> set (u_gaps w)" "scope_gaps_of u i \<subseteq> scope_gaps_of w i"
  using assms by (simp_all add: grows_def le_fun_def)

definition give :: "gap \<Rightarrow> string \<Rightarrow> (string \<times> gap list) list \<Rightarrow> (string \<times> gap list) list" where
  "give gp i d = (case map_of d i of None \<Rightarrow> d | Some gs \<Rightarrow> AList.update i (gs @ [gp]) d)"

lemma add_gap_give: "add_gap scopes gp u = u\<lparr>u_gaps := u_gaps u @ [gp], u_scope_gaps := fold (give gp) scopes (u_scope_gaps u)\<rparr>"
  by (simp add: add_gap_def give_def [abs_def])

lemma give_get: "set (get_or (give gp i d) j []) = (if j = i \<and> i \<in> fst ` set d then insert gp (set (get_or d j [])) else set (get_or d j []))"
  by (auto simp: give_def get_or_def update_conv mem_keys_iff split: option.splits)

lemma give_keys [simp]: "fst ` set (give gp i d) = fst ` set d"
proof (cases "map_of d i")
  case (Some gs)
  then have "i \<in> fst ` set d" by (simp add: mem_keys_iff)
  then show ?thesis by (simp add: give_def Some dom_update insert_absorb)
qed (simp add: give_def)

lemma fold_give:
  "fst ` set (fold (give gp) is d) = fst ` set d"
  "set (get_or (fold (give gp) is d) j []) = (if j \<in> set is \<and> j \<in> fst ` set d then insert gp (set (get_or d j [])) else set (get_or d j []))"
  by (induction "is" arbitrary: d) (auto simp: give_get)

lemma scope_gaps_add_gap:
  "scope_gaps_of (add_gap scopes gp u) j =
     (if j \<in> set scopes \<and> j \<in> fst ` set (u_scope_gaps u) then insert gp (scope_gaps_of u j) else scope_gaps_of u j)"
  by (simp add: scope_gaps_of_def add_gap_give fold_give)

lemma add_gap_grows: "grows u (add_gap scopes gp u)"
  unfolding grows_def contained_def le_fun_def scope_gaps_add_gap by (auto simp: add_gap_give fold_give)

lemma fold_grows: "(\<And>x u. x \<in> set xs \<Longrightarrow> grows u (f x u)) \<Longrightarrow> grows u (fold f xs u)"
proof (induction xs arbitrary: u)
  case (Cons x xs)
  then show ?case using grows_trans [of u "f x u"] by simp
qed simp

lemma add_gaps_grows: "grows u (add_gaps scopes gs u)"
  unfolding add_gaps_def by (rule fold_grows) (rule add_gap_grows)

lemma scope_gaps_add_gaps:
  assumes "j \<in> set scopes" "j \<in> fst ` set (u_scope_gaps u)"
  shows "scope_gaps_of (add_gaps scopes gs u) j = set gs \<union> scope_gaps_of u j"
  using assms(2) unfolding add_gaps_def
proof (induction gs arbitrary: u)
  case (Cons g gs)
  then show ?case using assms(1) growsD(6) [OF add_gap_grows] by (simp add: scope_gaps_add_gap)
qed simp

lemma run_gaps_add_gaps: "set gs \<subseteq> set (u_gaps (add_gaps scopes gs u))"
  unfolding add_gaps_def
proof (induction gs arbitrary: u)
  case (Cons g gs)
  have "g \<in> set (u_gaps (add_gap scopes g u))" by (simp add: add_gap_def)
  moreover have gr: "grows (add_gap scopes g u) (fold (add_gap scopes) gs (add_gap scopes g u))"
    by (rule fold_grows) (rule add_gap_grows)
  from growsD(7) [OF gr] calculation have "g \<in> set (u_gaps (fold (add_gap scopes) gs (add_gap scopes g u)))" by blast
  then show ?case using Cons.IH by simp
qed simp

lemma add_window_grows: "grows u (add_window w u)"
  by (auto simp: grows_def add_window_def scope_gaps_of_def contained_def le_fun_def)

lemma add_inside_grows: "add_inside v scopes key low high eff u = Some w \<Longrightarrow> grows u w"
  by (auto simp: add_inside_def add_gaps_grows)

lemma add_near_grows: "add_near v scopes key low high u = Some w \<Longrightarrow> grows u w"
  by (auto simp: add_near_def add_gaps_grows)

lemma add_tail_grows: "grows u (add_tail scopes key problem u)"
  by (simp add: add_tail_def add_gaps_grows)

lemma each_grows: "(\<And>x u w. x \<in> set xs \<Longrightarrow> f x u = Some w \<Longrightarrow> grows u w) \<Longrightarrow> each f xs u = Some w \<Longrightarrow> grows u w"
proof (induction xs arbitrary: u)
  case (Cons x xs)
  obtain v where v: "f x u = Some v" "each f xs v = Some w" using Cons.prems(2) by (auto simp: bind_eq_Some_conv)
  have "grows u v" by (rule Cons.prems(1) [OF _ v(1)]) simp
  moreover have "grows v w" by (rule Cons.IH [OF Cons.prems(1) v(2)]) simp_all
  ultimately show ?case by (rule grows_trans)
qed simp

lemma unscoped_source_grows: "unscoped_source v p u = Some w \<Longrightarrow> grows u w"
  by (cases p) (auto simp: unscoped_source_def bind_eq_Some_conv
      intro: grows_trans [OF grows_trans [OF add_window_grows add_near_grows] add_tail_grows])

lemma elsewhere_grows: "elsewhere_window v scopes p u = Some w \<Longrightarrow> grows u w"
  by (cases p) (auto simp: elsewhere_window_def intro: grows_trans [OF add_window_grows add_near_grows])

lemma outside_grows: "outside_source v p u = Some w \<Longrightarrow> grows u w"
  by (auto simp: outside_source_def intro: grows_trans [OF elsewhere_grows add_tail_grows])

lemma open_inside_grows: "open_inside v c low high u = Some w \<Longrightarrow> grows u w"
  by (auto simp: open_inside_def bind_eq_Some_conv split: if_splits intro: add_inside_grows grows_trans)

lemma open_scope_grows:
  assumes "open_scope v c mine u = Some w"
  shows "grows u w"
proof -
  obtain low high u2 where o: "open_inside v c low high (add_window (mk_window (sc_key c) low high (Some (sc_scope_id c)) None) u) = Some u2"
      "each (elsewhere_window v [sc_scope_id c]) (by_source (filter (\<lambda>p. fst p \<noteq> sc_key c) (scope_positions c mine)))
         (add_tail [sc_scope_id c] (sc_key c) (sc_problem c) u2) = Some w"
    using assms unfolding open_scope_def Let_def bind_eq_Some_conv by (auto simp: bind_eq_Some_conv)
  have "grows u u2" using add_window_grows open_inside_grows [OF o(1)] by (rule grows_trans)
  also have "grows u2 (add_tail [sc_scope_id c] (sc_key c) (sc_problem c) u2)" by (rule add_tail_grows)
  also have "grows \<dots> w" using o(2) by (rule each_grows [rotated]) (rule elsewhere_grows)
  finally show ?thesis .
qed

lemma scope_window_grows: "scope_window v c u = Some w \<Longrightarrow> grows u w"
  by (auto simp: scope_window_def split: option.splits if_splits
      intro: open_scope_grows add_inside_grows grows_trans [OF add_window_grows add_inside_grows])

lemma scoped_grows: "scoped v u = Some w \<Longrightarrow> grows u w"
  unfolding scoped_def bind_eq_Some_conv by (elim exE conjE)
    (rule grows_trans; erule each_grows [rotated], erule scope_window_grows outside_grows)

lemma unscoped_grows: "unscoped v u = Some w \<Longrightarrow> grows u w"
  unfolding unscoped_def by (erule each_grows [rotated]) (rule unscoped_source_grows)

lemma silent_window_grows: "silent_window v key u = Some w \<Longrightarrow> grows u w"
  by (auto simp: silent_window_def bind_eq_Some_conv
      intro: grows_trans [OF grows_trans [OF add_window_grows add_inside_grows] add_tail_grows])

lemma record_window_grows: "record_window H v p u = Some w \<Longrightarrow> grows u w"
  by (cases p) (auto simp: record_window_def bind_eq_Some_conv Let_def split: if_splits
      intro: grows_trans [OF grows_trans [OF add_window_grows add_inside_grows] add_tail_grows]
        grows_trans [OF grows_trans [OF add_window_grows add_near_grows] add_tail_grows])

lemma record_windows_grows: "record_windows H v Gs u = Some w \<Longrightarrow> grows u w"
  unfolding record_windows_def Let_def by (erule each_grows [rotated]) (rule record_window_grows)

lemma grows_sort: "grows u w \<Longrightarrow> grows u (w\<lparr>u_windows := sort_key window_order (u_windows w)\<rparr>)"
  by (simp add: grows_def contained_def scope_gaps_of_def le_fun_def)

lemma init_run_grows:
  assumes "init_run H v Gs run observed scopes silent = Some w"
  obtains u1 where "(if scopes \<noteq> [] then scoped v (new_run run observed scopes) else unscoped v (new_run run observed scopes)) = Some u1"
    "grows (new_run run observed scopes) u1" "grows u1 w"
proof -
  have ne: "u_scopes (new_run run observed scopes) \<noteq> [] \<longleftrightarrow> scopes \<noteq> []" by (simp add: new_run_def Let_def sort_key_eq_Nil)
  obtain u1 u2 u3 where u: "(if scopes \<noteq> [] then scoped v (new_run run observed scopes) else unscoped v (new_run run observed scopes)) = Some u1"
      "(case silent of Some key \<Rightarrow> if observed = [] \<and> scopes = [] then silent_window v key u1 else Some u1 | None \<Rightarrow> Some u1) = Some u2"
      "record_windows H v Gs u2 = Some u3" "w = u3\<lparr>u_windows := sort_key window_order (u_windows u3)\<rparr>"
    using assms unfolding init_run_def Let_def bind_eq_Some_conv ne by auto
  have "grows u1 u2" using u(2) by (auto split: option.splits if_splits intro: silent_window_grows)
  also have "grows u2 u3" using u(3) by (rule record_windows_grows)
  finally have "grows u1 w" unfolding u(4) by (rule grows_sort)
  moreover have "grows (new_run run observed scopes) u1" using u(1) scoped_grows unscoped_grows by (simp split: if_splits)
  ultimately show ?thesis using that u(1) by blast
qed

subsection \<open>Building a run only adds gaps\<close>

lemma exchange_gap_grows: "grows u (exchange_gap x t sd why u)"
  by (simp add: exchange_gap_def add_gap_grows)

lemma settle_body_grows: "grows u (snd (settle_body rd x sd i r u))"
  by (auto simp: settle_body_def Let_def exchange_gap_grows split: option.splits prod.splits)

lemma body_of_grows: "grows u (snd (body_of R x sd digest ref u))"
proof -
  have s: "grows u w" if "settle_body rd x sd i r u = (y, w)" for rd i r y w
    using settle_body_grows [of u rd x sd i r] that by simp
  show ?thesis by (auto simp: body_of_def exchange_gap_grows split: option.splits prod.splits dest: s)
qed

lemma claim_gaps_grows: "grows u (claim_gaps v x u)"
  unfolding claim_gaps_def when_true_def using exchange_gap_grows grows_trans [OF exchange_gap_grows exchange_gap_grows] by simp

lemma response_body_grows: "grows u (snd (response_body R x u))"
proof -
  have s: "grows u w" if "body_of R x Response d r u = (y, w)" for d r y w
    using body_of_grows [of u R x Response d r] that by simp
  show ?thesis by (auto simp: response_body_def exchange_gap_grows split: prod.splits dest: s)
qed

lemma bodies_of_grows: "grows u (snd (bodies_of v R x u))"
proof -
  obtain req sk u1 where b: "body_of R x Request (x_request_sha256 x) (x_request_ref x) (claim_gaps v x u) = ((req, sk), u1)"
    by (metis surj_pair)
  obtain resp u2 where r: "response_body R x u1 = (resp, u2)" by (metis surj_pair)
  have "grows (claim_gaps v x u) u1" using body_of_grows [of "claim_gaps v x u" R x Request "x_request_sha256 x" "x_request_ref x"] by (simp add: b)
  with claim_gaps_grows have "grows u u1" by (rule grows_trans)
  moreover have "grows u1 u2" using response_body_grows [of u1 R x] by (simp add: r)
  ultimately have u2: "grows u u2" by (rule grows_trans)
  have f: "grows u2 (fold (\<lambda>sd. exchange_gap x Truncated sd None) sides u2)" for sides
    by (rule fold_grows) (rule exchange_gap_grows)
  show ?thesis using u2 grows_trans [OF u2 f] by (simp add: bodies_of_def b r)
qed

lemma all_bodies_grows: "grows u (snd (all_bodies v R xs u))"
proof (induction xs arbitrary: u)
  case (Cons x xs)
  obtain b u1 where b: "bodies_of v R x u = (b, u1)" by (metis surj_pair)
  obtain bs u2 where bs: "all_bodies v R xs u1 = (bs, u2)" by (metis surj_pair)
  have "grows u u1" using bodies_of_grows [of u v R x] by (simp add: b)
  moreover have "grows u1 u2" using Cons.IH [of u1] by (simp add: bs)
  ultimately show ?case using grows_trans by (simp add: b bs)
qed simp

lemma parse_exchange_grows: "grows u (snd (parse_exchange K x b u))"
proof -
  have c: "grows u (cut_gap x b k u)" for k by (auto simp: cut_gap_def exchange_gap_grows split: option.splits)
  show ?thesis using c grows_trans [OF c add_gap_grows] by (auto simp: parse_exchange_def Let_def)
qed

lemma all_views_grows: "grows u (snd (all_views K xs u))"
proof (induction xs arbitrary: u)
  case (Cons p xs)
  obtain x b where p: "p = (x, b)" by (cases p)
  obtain w u1 where b: "parse_exchange K x b u = (w, u1)" by (metis surj_pair)
  obtain ws u2 where bs: "all_views K xs u1 = (ws, u2)" by (metis surj_pair)
  have "grows u u1" using parse_exchange_grows [of u K x b] by (simp add: b)
  moreover have "grows u1 u2" using Cons.IH [of u1] by (simp add: bs)
  ultimately show ?case using grows_trans by (simp add: p b bs)
qed simp

lemma malformed_grows: "grows u (malformed_gaps u)"
  unfolding malformed_gaps_def by (rule fold_grows) (simp add: add_gap_grows)

lemma window_structure_grows: "window_structure v w u = Some u' \<Longrightarrow> grows u u'"
  by (auto simp: window_structure_def add_gaps_grows)

lemma structure_gaps_grows:
  assumes "structure_gaps v Gs u = Some w"
  shows "grows u w"
proof -
  define u1 where "u1 = fold (\<lambda>(gp, scopes). add_gap scopes gp) (concat (map (\<lambda>i. get_or (v_run_gaps v) i []) (run_ids_of Gs (u_run_id u)))) u"
  define u2 where "u2 = (case map_of Gs (u_run_id u) of None \<Rightarrow> u1 | Some g \<Rightarrow> fold (add_graph_gap v) (rg_gaps g) u1)"
  have "grows u u1" unfolding u1_def by (rule fold_grows) (auto simp: add_gap_grows)
  also have "grows u1 u2" unfolding u2_def by (auto split: option.splits intro!: fold_grows simp: add_graph_gap_def add_gap_grows)
  also have "grows u2 w" using assms unfolding structure_gaps_def Let_def u1_def [symmetric] u2_def [symmetric]
    by (rule each_grows [rotated]) (rule window_structure_grows)
  finally show ?thesis .
qed

lemma record_bodies_grows: "grows u (record_bodies found u)"
  unfolding record_bodies_def by (rule fold_grows) (auto simp: record_gap_def add_gap_grows)

lemma authentication_grows: "grows u (authentication v bs found u)"
proof -
  define u1 where "u1 = fold (source_stamp v) (sorted_set (map w_key (u_windows u))) u"
  define u2 where "u2 = fold (\<lambda>(x, b). fold (side_stamp x) [(Request, Some (bo_request b)), (Response, bo_response b)]) bs u1"
  have "grows u u1" unfolding u1_def by (rule fold_grows) (simp add: source_stamp_def add_gap_grows)
  also have "grows u1 u2" unfolding u2_def
  proof (rule fold_grows)
    fix p u
    show "grows u ((case p of (x, b) \<Rightarrow> fold (side_stamp x) [(Request, Some (bo_request b)), (Response, bo_response b)]) u)"
      unfolding split_beta by (rule fold_grows) (auto simp: side_stamp_def add_gap_grows split: option.splits)
  qed
  also have "grows u2 (authentication v bs found u)"
    unfolding authentication_def Let_def u1_def [symmetric] u2_def [symmetric]
    by (rule fold_grows) (auto simp: record_gap_def add_gap_grows split: option.splits)
  finally show ?thesis .
qed

lemma build_run_shape:
  assumes "build_run K R Gs u v = Some (rp, v')"
  obtains w bs views st where "grows u w" "rp = conclude w bs views st" "length bs = length (u_members u)"
proof -
  obtain bs u1 where b: "all_bodies v R (u_members u) (malformed_gaps u) = (bs, u1)" by (metis surj_pair)
  obtain views u2 where w: "all_views K (zip (u_members u) bs) u1 = (views, u2)" by (metis surj_pair)
  obtain found v1 where f: "run_objects R v Gs (u_run_id u) = (found, v1)" by (metis surj_pair)
  define t where "t st = fold (\<lambda>gp w. add_gap (scopes_of w (gap_exchange_id gp)) gp w) (sr_gaps st) u2" for st :: stitch_result
  obtain st u3 where s: "stitch_run views = Some st" "structure_gaps v Gs (t st) = Some u3"
    "rp = conclude (let u4 = record_bodies found u3 in if v_production v then authentication v (zip (u_members u) bs) found u4 else u4) bs views st"
    using assms by (auto simp: build_run_def b w f t_def Let_def bind_eq_Some_conv)
  have "grows u u1" using all_bodies_grows [of "malformed_gaps u" v R "u_members u"] malformed_grows grows_trans by (auto simp: b)
  also have "grows u1 u2" using all_views_grows [of u1 K "zip (u_members u) bs"] by (simp add: w)
  also have "grows u2 (t st)" unfolding t_def by (rule fold_grows) (rule add_gap_grows)
  also have "grows (t st) u3" using s(2) by (rule structure_gaps_grows)
  also have "grows u3 (record_bodies found u3)" by (rule record_bodies_grows)
  finally have g: "grows u (record_bodies found u3)" .
  have "length (fst (all_bodies v R xs z)) = length xs" for xs z
    by (induction xs arbitrary: z) (simp_all add: split_beta)
  then have "length bs = length (u_members u)" using b by (metis fst_conv)
  then show ?thesis using that [OF _ s(3)] g grows_trans [OF g authentication_grows] by (simp add: Let_def split: if_splits)
qed

subsection \<open>What the scope windows report\<close>

lemma inside_gaps_partial: "g \<in> set (inside_gaps s low high Partial) \<Longrightarrow> gap_effect g = Partial"
  by (auto simp: inside_gaps_def Let_def segment_gaps_def conflicted_gaps_def conflict_gap_def split: if_splits option.splits prod.splits)

definition scope_clean :: "verifier \<Rightarrow> scope \<Rightarrow> gap set \<Rightarrow> bool" where
  "scope_clean v c G \<longleftrightarrow> (\<exists>a b s. sc_problem c = None \<and> sc_start c = Some a \<and> sc_end c = Some b \<and>
     map_of (v_sources v) (sc_key c) = Some s \<and> set (inside_gaps s (a + 1) (Some b) Partial) \<subseteq> G)"

definition scope_flagged :: "scope \<Rightarrow> gap set \<Rightarrow> bool" where
  "scope_flagged c G \<longleftrightarrow> (\<exists>g\<in>G. gap_effect g = Unverified \<and> gap_type g = Tail_unverified)"

lemma scope_clean_mono: "scope_clean v c G \<Longrightarrow> G \<subseteq> G' \<Longrightarrow> scope_clean v c G'"
  unfolding scope_clean_def by blast

lemma scope_flagged_mono: "scope_flagged c G \<Longrightarrow> G \<subseteq> G' \<Longrightarrow> scope_flagged c G'"
  unfolding scope_flagged_def by blast

definition told :: "verifier \<Rightarrow> scope \<Rightarrow> gap set \<Rightarrow> bool" where
  "told v c G \<longleftrightarrow> scope_clean v c G \<or> scope_flagged c G"

lemma told_mono: "told v c G \<Longrightarrow> G \<subseteq> G' \<Longrightarrow> told v c G'"
  unfolding told_def using scope_clean_mono scope_flagged_mono by metis

lemma told_grows: "told v c (scope_gaps_of u i) \<Longrightarrow> grows u w \<Longrightarrow> told v c (scope_gaps_of w i)"
  by (erule told_mono) (rule growsD(8))

lemma scope_window_reports:
  assumes w: "scope_window v c u = Some w" and i: "sc_scope_id c \<in> fst ` set (u_scope_gaps u)"
    and fin: "sc_problem c = None \<Longrightarrow> sc_start c \<noteq> None \<and> sc_end c \<noteq> None"
  shows "told v c (scope_gaps_of w (sc_scope_id c))"
proof (cases "sc_problem c")
  case None
  then obtain a b where ab: "sc_start c = Some a" "sc_end c = Some b" using fin by auto
  let ?u = "if a < b then add_window (mk_window (sc_key c) (a + 1) b (Some (sc_scope_id c)) (Some Run_markers)) u else u"
  have k: "sc_scope_id c \<in> fst ` set (u_scope_gaps ?u)" using i by (simp add: add_window_def)
  obtain s where s: "map_of (v_sources v) (sc_key c) = Some s" "w = add_gaps [sc_scope_id c] (inside_gaps s (a + 1) (Some b) Partial) ?u"
    using w by (auto simp: scope_window_def None ab add_inside_def split: if_splits)
  then show ?thesis using None ab scope_gaps_add_gaps [OF _ k, of "[sc_scope_id c]"] by (auto simp: told_def scope_clean_def)
next
  case (Some p)
  then have "open_scope v c (filter (\<lambda>x. x_scope_id x = Some (sc_scope_id c)) (u_observed u)) u = Some w"
    using w by (simp add: scope_window_def)
  then obtain low high u2 where o: "open_inside v c low high (add_window (mk_window (sc_key c) low high (Some (sc_scope_id c)) None) u) = Some u2"
      "\<exists>ps. each (elsewhere_window v [sc_scope_id c]) ps (add_tail [sc_scope_id c] (sc_key c) (sc_problem c) u2) = Some w"
    unfolding open_scope_def Let_def bind_eq_Some_conv by (auto simp: bind_eq_Some_conv)
  have "grows u u2" using add_window_grows open_inside_grows [OF o(1)] by (rule grows_trans)
  then have k: "sc_scope_id c \<in> fst ` set (u_scope_gaps u2)" using i growsD(6) by blast
  let ?t = "add_tail [sc_scope_id c] (sc_key c) (sc_problem c) u2"
  have "grows ?t w" using o(2) by (elim exE) (rule each_grows, rule elsewhere_grows)
  then have "scope_gaps_of ?t (sc_scope_id c) \<subseteq> scope_gaps_of w (sc_scope_id c)" by (rule growsD(8))
  moreover have "scope_flagged c (scope_gaps_of ?t (sc_scope_id c))"
    using scope_gaps_add_gaps [OF _ k, of "[sc_scope_id c]"] by (auto simp: add_tail_def Some tail_gaps_def scope_flagged_def)
  ultimately show ?thesis unfolding told_def using scope_flagged_mono by metis
qed

lemma each_reports:
  assumes "each (scope_window v) cs u = Some w" and "c \<in> set cs" and "\<forall>c\<in>set cs. sc_scope_id c \<in> fst ` set (u_scope_gaps u)"
    and "sc_problem c = None \<Longrightarrow> sc_start c \<noteq> None \<and> sc_end c \<noteq> None"
  shows "told v c (scope_gaps_of w (sc_scope_id c))"
  using assms
proof (induction cs arbitrary: u)
  case (Cons d cs)
  obtain x where x: "scope_window v d u = Some x" "each (scope_window v) cs x = Some w"
    using Cons.prems(1) by (auto simp: bind_eq_Some_conv)
  have gx: "fst ` set (u_scope_gaps x) = fst ` set (u_scope_gaps u)" using scope_window_grows [OF x(1)] by (rule growsD(6))
  have gw: "grows x w" using x(2) by (rule each_grows [rotated]) (rule scope_window_grows)
  show ?case
  proof (cases "c \<in> set cs")
    case True
    then show ?thesis using Cons.IH [OF x(2)] Cons.prems(3,4) gx by simp
  next
    case False
    then have "told v c (scope_gaps_of x (sc_scope_id c))"
      using scope_window_reports [of v c u x] x(1) Cons.prems(2-4) by auto
    then show ?thesis using gw by (rule told_grows)
  qed
qed simp

lemma run_reports:
  assumes r: "init_run H v Gs run observed scopes silent = Some w" and c: "c \<in> set scopes"
    and fin: "sc_problem c = None \<Longrightarrow> sc_start c \<noteq> None \<and> sc_end c \<noteq> None"
  shows "told v c (scope_gaps_of w (sc_scope_id c))"
proof -
  let ?u = "new_run run observed scopes"
  obtain u1 where u1: "(if scopes \<noteq> [] then scoped v ?u else unscoped v ?u) = Some u1" "grows u1 w"
    using init_run_grows [OF r] by metis
  have "scoped v ?u = Some u1" using u1(1) c by (auto split: if_splits)
  then obtain x where x: "each (scope_window v) (u_scopes ?u) ?u = Some x"
      "\<exists>ps. each (outside_source v) ps x = Some u1"
    unfolding scoped_def bind_eq_Some_conv by auto
  have "grows x u1" using x(2) by (elim exE) (rule each_grows, rule outside_grows)
  then have g: "grows x w" using u1(2) by (rule grows_trans)
  have us: "set (u_scopes ?u) = set scopes" "fst ` set (u_scope_gaps ?u) = sc_scope_id ` set scopes"
    by (simp_all add: new_run_def Let_def image_image)
  have "told v c (scope_gaps_of x (sc_scope_id c))"
    using each_reports [OF x(1), of c] c fin unfolding us by auto
  then show ?thesis using g by (rule told_grows)
qed

lemma complete_scope_clean:
  assumes "build_run K R Gs u v = Some (rp, v')" and "so \<in> set (rp_scopes rp)" and "so_verdict so = Complete_for_declared_scope"
    and rep: "\<And>c. c \<in> set (u_scopes u) \<Longrightarrow> told v c (scope_gaps_of u (sc_scope_id c))"
  shows "so_scope so \<in> set (u_scopes u) \<and> (\<exists>a b s. sc_problem (so_scope so) = None \<and> sc_start (so_scope so) = Some a \<and>
    sc_end (so_scope so) = Some b \<and> map_of (v_sources v) (sc_key (so_scope so)) = Some s \<and> inside_gaps s (a + 1) (Some b) Partial = [])"
proof -
  obtain w bs views st where w: "grows u w" "rp = conclude w bs views st" by (rule build_run_shape [OF assms(1)])
  obtain c where c: "c \<in> set (u_scopes u)" "so = scope_verdict w (zip (map x_exchange_id (u_members w)) (zip bs views)) c"
    using assms(2) growsD(4) [OF w(1)] by (auto simp: w(2) conclude_def Let_def)
  have cs: "so_scope so = c" by (simp add: c(2) scope_verdict_def Let_def)
  have none: "gap_effect g \<noteq> Partial \<and> gap_effect g \<noteq> Unverified" if "g \<in> scope_gaps_of w (sc_scope_id c)" for g
  proof -
    have "Partial \<notin> gap_effect ` scope_gaps_of w (sc_scope_id c) \<and> Unverified \<notin> gap_effect ` scope_gaps_of w (sc_scope_id c)"
      using assms(3) by (simp add: c(2) scope_verdict_def Let_def verdict_for_def scope_gaps_of_def split: if_splits)
    then show ?thesis using that by (metis imageI)
  qed
  have "told v c (scope_gaps_of w (sc_scope_id c))"
    using rep [OF c(1)] w(1) by (rule told_grows)
  then obtain a b s where ab: "sc_problem c = None" "sc_start c = Some a" "sc_end c = Some b" "map_of (v_sources v) (sc_key c) = Some s"
      "set (inside_gaps s (a + 1) (Some b) Partial) \<subseteq> scope_gaps_of w (sc_scope_id c)"
    using none by (auto simp: told_def scope_clean_def scope_flagged_def)
  then have "inside_gaps s (a + 1) (Some b) Partial = []" using none inside_gaps_partial by (metis last_in_set subsetD)
  then show ?thesis using ab c(1) cs by auto
qed

subsection \<open>From the verdict to the observations\<close>

lemma record_results_only: "objects_only v (snd (record_results F ps v))"
proof (induction ps arbitrary: v)
  case (Cons p ps)
  obtain r i where p: "p = (r, i)" by (cases p)
  obtain x u where u: "record_object F False r i v = (x, u)" by (metis surj_pair)
  have "objects_only v u" using record_object_only [of v F False r i] by (simp add: u)
  then show ?case using objects_only_trans [OF _ Cons.IH [of u]] by (simp add: p u split_beta)
qed simp

lemma build_run_only:
  assumes "build_run K R Gs u v = Some (rp, w)"
  shows "objects_only v w"
proof -
  have "w = snd (run_objects R v Gs (u_run_id u))"
    using assms by (auto simp: build_run_def bind_eq_Some_conv Let_def split_beta)
  then show ?thesis using record_results_only [of v] by (simp add: run_objects_def split: option.splits)
qed

lemma build_each_member:
  assumes "build_each H K R Gs wanted runs v = Some (rps, w)" and "rp \<in> set rps"
  shows "\<exists>run u v1 v2. run \<in> set runs \<and> objects_only v v1 \<and> run_of H v1 Gs run = Some u \<and> build_run K R Gs u v1 = Some (rp, v2)"
  using assms
proof (induction runs arbitrary: v rps)
  case (Cons run runs)
  let ?skip = "case wanted of None \<Rightarrow> False | Some ids \<Rightarrow> set ids \<inter> set (run_ids_of Gs run) = {}"
  show ?case
  proof (cases ?skip)
    case True
    then show ?thesis using Cons.IH [of v rps] Cons.prems by (auto simp del: split_paired_Ex)
  next
    case False
    then obtain u where u: "run_of H v Gs run = Some u"
      "(if u_windows u = [] then build_each H K R Gs wanted runs v
        else build_run K R Gs u v \<bind> (\<lambda>(rp, v1). build_each H K R Gs wanted runs v1 \<bind> (\<lambda>(rps, v2). Some (rp # rps, v2)))) = Some (rps, w)"
      using Cons.prems(1) by (auto simp: bind_eq_Some_conv)
    show ?thesis
    proof (cases "u_windows u = []")
      case True
      then show ?thesis using Cons.IH [of v rps] Cons.prems(2) u(2) by (auto simp del: split_paired_Ex)
    next
      case False
      then obtain r1 v1 rest where b: "build_run K R Gs u v = Some (r1, v1)" "build_each H K R Gs wanted runs v1 = Some (rest, w)" "rps = r1 # rest"
        using u(2) by (auto simp: bind_eq_Some_conv)
      show ?thesis
      proof (cases "rp = r1")
        case True
        then show ?thesis using u(1) b(1) objects_only_refl by (metis list.set_intros(1))
      next
        case False
        then have "rp \<in> set rest" using b(3) Cons.prems(2) by simp
        then obtain run' u' v1' v2' where x: "run' \<in> set runs" "objects_only v1 v1'" "run_of H v1' Gs run' = Some u'" "build_run K R Gs u' v1' = Some (rp, v2')"
          using Cons.IH [OF b(2)] by blast
        moreover have "objects_only v v1'" using build_run_only [OF b(1)] x(2) by (rule objects_only_trans)
        ultimately show ?thesis by (metis list.set_intros(2))
      qed
    qed
  qed
qed simp

definition accounted :: "observation list \<Rightarrow> source_key \<times> int \<Rightarrow> bool" where
  "accounted es p \<longleftrightarrow> at es p \<noteq> {} \<and> (\<forall>ob\<in>at es p. \<forall>ob'\<in>at es p. claimant ob = claimant ob') \<and>
     (\<forall>ob\<in>at es p. \<forall>x\<in>exchanges_of es (claimant ob). \<forall>y\<in>exchanges_of es (claimant ob). exchange_ident x = exchange_ident y)"

lemma short_list_same: "\<not> length xs > 1 \<Longrightarrow> x \<in> set xs \<Longrightarrow> y \<in> set xs \<Longrightarrow> x = y"
  by (cases xs rule: remdups_adj.cases) auto

lemma contested_at_iff:
  assumes "distinct (map fst (v_claims v))"
  shows "n \<in> contested_at v (v_claims v) k \<longleftrightarrow> contested v (get_or (v_claims v) (k, n) [])"
proof -
  have "contested v (get_or (v_claims v) (k, n) []) \<Longrightarrow> map_of (v_claims v) (k, n) \<noteq> None"
    by (auto simp: get_or_def contested_def split: option.splits)
  moreover have "((k, n), ids) \<in> set (v_claims v) \<longleftrightarrow> map_of (v_claims v) (k, n) = Some ids" for ids
    using map_of_SomeI [OF assms, of "(k, n)" ids] map_of_SomeD [of "v_claims v" "(k, n)" ids] by blast
  ultimately show ?thesis by (auto simp: contested_at_def get_or_def)
qed

lemma contested_known:
  assumes "exact es v" and "keys_ok v" and "n \<in> contested_at v (v_claims v) k"
  shows "k \<in> known v"
proof -
  have "contested v (get_or (v_claims v) (k, n) [])" using assms(2,3) by (simp add: contested_at_iff keys_ok_def)
  then have "get_or (v_claims v) (k, n) [] \<noteq> []" by (auto simp: contested_def)
  then have "at es (k, n) \<noteq> {}" using exactD(2) [OF assms(1), of "(k, n)"] by (metis image_is_empty set_empty)
  then have "n \<in> set (s_sequences (src v k))" using exactD(1) [OF assms(1)] by blast
  then have "map_of (v_sources v) k \<noteq> None" by (auto simp: get_or_def new_source_def split: option.splits)
  then show ?thesis unfolding known_iff by auto
qed

lemma uncontested_accounted:
  assumes e: "exact es v" and "keys_ok v" and "n \<in> set (s_sequences (src v k))" and "n \<notin> contested_at v (v_claims v) k"
  shows "accounted es (k, n)"
proof -
  let ?ids = "get_or (v_claims v) (k, n) []"
  have c: "\<not> length ?ids > 1" "\<forall>i\<in>set ?ids. i \<notin> set (v_conflicts v)"
    using assms(2,4) by (auto simp: contested_at_iff keys_ok_def contested_def list_ex_iff)
  have ids: "set ?ids = claimant ` at es (k, n)" by (rule exactD(2) [OF e])
  have "exchange_ident x = exchange_ident y" if "ob \<in> at es (k, n)" "x \<in> exchanges_of es (claimant ob)" "y \<in> exchanges_of es (claimant ob)" for ob x y
  proof -
    have "claimant ob \<notin> set (v_conflicts v)" using c(2) ids that(1) by blast
    then have "\<not> length (map exchange_ident (get_or (v_observations v) (claimant ob) [])) > 1" using exactD(5) [OF e] by simp
    moreover have "exchange_ident x \<in> set (map exchange_ident (get_or (v_observations v) (claimant ob) []))"
      "exchange_ident y \<in> set (map exchange_ident (get_or (v_observations v) (claimant ob) []))"
      using exactD(3) [OF e, of "claimant ob"] that(2,3) by auto
    ultimately show ?thesis by (rule short_list_same)
  qed
  moreover have "at es (k, n) \<noteq> {}" using exactD(1) [OF e] assms(3) by blast
  moreover have "claimant ob = claimant ob'" if "ob \<in> at es (k, n)" "ob' \<in> at es (k, n)" for ob ob'
    using short_list_same [OF c(1)] ids that by blast
  ultimately show ?thesis unfolding accounted_def by blast
qed

definition labelled :: "hash \<Rightarrow> observation list \<Rightarrow> observation list" where
  "labelled H obs = concat (map (the \<circ> effects H) obs)"

lemma collected_state:
  assumes "\<forall>ob\<in>set obs. bounded_obs ob"
  obtains v where "collect H obs new_verifier = Some v" "exact (labelled H obs) v" "state_ok v" "linked v"
proof -
  obtain es where es: "collect H obs new_verifier = Some (fold step es new_verifier)" "\<forall>e\<in>set es. valid_obs e \<and> marker_bound e"
      "es = labelled H obs"
    using collect_returns [OF assms, of H new_verifier] by (auto simp: labelled_def)
  have "exact es (fold step es new_verifier)" using exact_fold [OF exact_new, of es] by simp
  moreover have "state_ok (fold step es new_verifier)" using state_ok_fold [OF state_ok_new] es(2) by blast
  moreover have "linked (fold step es new_verifier)" using linked_fold [OF linked_new] es(2) by blast
  ultimately show ?thesis using that es(1,3) by simp
qed

lemma judge_stages:
  assumes "judge H SH K R t obs = Some (rps, vf)" and "collect H obs new_verifier = Some v" and "exact es v" and "state_ok v"
  obtains w Gs where "finalize_verifier SH (map_option rd_fetch_record R) v = Some w" "settled v w"
    "\<And>rp. rp \<in> set rps \<Longrightarrow> \<exists>run u v1 v2. v_sources v1 = v_sources w \<and> v_scopes v1 = v_scopes w \<and>
       run_of H v1 Gs run = Some u \<and> build_run K R Gs u v1 = Some (rp, v2)"
proof -
  have k: "\<And>k n. n \<in> contested_at v (v_claims v) k \<Longrightarrow> k \<in> known v" using contested_known [OF assms(3)] assms(4) by (simp add: state_ok_def)
  obtain w where w: "finalize_verifier SH (map_option rd_fetch_record R) v = Some w" "settled v w"
    using finalize_settles [OF assms(4)] k by blast
  define x where "x = w\<lparr>v_trusted_source := t_trusted_source t,
       v_production := (case t_profile t of Some p \<Rightarrow> p = Production | None \<Rightarrow> v_stamp_observed w)\<rparr>"
  obtain nodes gs where g: "segment_nodes x = Some nodes"
      "build_runs H K R (map (\<lambda>g. (rg_run_id g, g)) gs) (map_option (map (report_run_id H)) (t_run_ids t)) x = Some (rps, vf)"
    using assms(1,2) w(1) by (auto simp: judge_def bind_eq_Some_conv Let_def x_def)
  have "\<exists>run u v1 v2. v_sources v1 = v_sources w \<and> v_scopes v1 = v_scopes w \<and> run_of H v1 (map (\<lambda>g. (rg_run_id g, g)) gs) run = Some u \<and>
      build_run K R (map (\<lambda>g. (rg_run_id g, g)) gs) u v1 = Some (rp, v2)" if r: "rp \<in> set rps" for rp
  proof -
    obtain run u v1 v2 where m: "objects_only x v1" "run_of H v1 (map (\<lambda>g. (rg_run_id g, g)) gs) run = Some u"
        "build_run K R (map (\<lambda>g. (rg_run_id g, g)) gs) u v1 = Some (rp, v2)"
      using build_each_member [OF g(2) [unfolded build_runs_def] r] by blast
    have "v_sources v1 = v_sources w \<and> v_scopes v1 = v_scopes w" using m(1) by (auto simp: objects_only_def x_def)
    then show ?thesis using m(2,3) by blast
  qed
  then show ?thesis using that w by blast
qed

lemma judged_scope_clean:
  assumes "judge_scope bad c = Some d" and "sc_problem c = None" and "sc_problem d = None"
  shows "\<exists>key run low high. pairs d key run low high \<and> sc_key d = key \<and> sc_start d = Some low \<and> sc_end d = Some high \<and>
    (\<forall>x\<in>set (sc_exchanges d). x_run_id x = run \<and> x_source x = key \<and> low < x_source_sequence x \<and> x_source_sequence x \<le> high) \<and>
    (\<forall>r\<in>set (sc_records d). r_run_id r = Some run \<and> r_source r = key \<and> low < r_source_sequence r \<and> r_source_sequence r \<le> high)"
    "sc_starts d = sc_starts c" "sc_ends d = sc_ends c" "sc_scope_id d = sc_scope_id c" "sc_scope_id d \<notin> set bad"
proof -
  obtain e where e: "finalize_scope c = Some e" and d: "d = (if sc_scope_id e \<in> set bad then e\<lparr>sc_state := Scope_conflict, sc_problem := Some ''malformed_record''\<rparr> else e)"
    using assms(1) by (auto simp: judge_scope_def)
  have b: "sc_scope_id e \<notin> set bad" "d = e" using d assms(3) by (auto split: if_splits)
  note f = finalize_scope_frame [OF e]
  show "sc_starts d = sc_starts c" "sc_ends d = sc_ends c" "sc_scope_id d = sc_scope_id c" "sc_scope_id d \<notin> set bad"
    using f b by simp_all
  obtain key run low high where p: "pairs c key run low high"
      "\<forall>x\<in>set (sc_exchanges c). x_run_id x = run \<and> x_source x = key \<and> low < x_source_sequence x \<and> x_source_sequence x \<le> high"
      "\<forall>r\<in>set (sc_records c). r_run_id r = Some run \<and> r_source r = key \<and> low < r_source_sequence r \<and> r_source_sequence r \<le> high"
    using iffD1 [OF finalize_scope_clean_iff [OF e assms(2)]] assms(3) unfolding b(2) by metis
  have "d = close_scope c key run low high" using finalize_scope_pairs [OF p(1)] e b(2) by simp
  then have "sc_key d = key" "sc_start d = Some low" "sc_end d = Some high" by (simp_all add: close_scope_def)
  moreover have "pairs d key run low high" using p(1) f b(2) by (simp add: pairs_def)
  ultimately show "\<exists>key run low high. pairs d key run low high \<and> sc_key d = key \<and> sc_start d = Some low \<and> sc_end d = Some high \<and>
    (\<forall>x\<in>set (sc_exchanges d). x_run_id x = run \<and> x_source x = key \<and> low < x_source_sequence x \<and> x_source_sequence x \<le> high) \<and>
    (\<forall>r\<in>set (sc_records d). r_run_id r = Some run \<and> r_source r = key \<and> low < r_source_sequence r \<and> r_source_sequence r \<le> high)"
    using p(2,3) f b(2) by (intro exI [of _ key] exI [of _ run] exI [of _ low] exI [of _ high]) simp
qed

lemma window_accounted:
  assumes v: "exact es v" "state_ok v" "settled v w" and p: "map_of (v_sources w) key = Some f"
    and g: "inside_gaps f (a + 1) (Some b) Partial = []" and a: "-1 \<le> a" and b: "b \<le> beat v key" and n: "a < n" "n \<le> b"
  shows "accounted es (key, n)"
proof -
  have ok: "keys_ok v" using v(2) by (simp add: state_ok_def)
  have src: "map_of (v_sources v) key = Some (src v key)"
  proof (cases "map_of (v_sources v) key")
    case None
    then have "beat v key = -1" by (simp add: beat_def get_or_def new_source_def)
    then show ?thesis using a b n by simp
  qed (simp add: get_or_def)
  obtain f' where f: "map_of (v_sources w) key = Some f'" "ready (src v key) f'" "set (s_conflicted f') = contested_at v (v_claims v) key"
    using v(3) src unfolding settled_def by blast
  have ff: "f' = f" using f(1) p by simp
  have "\<not> missing_position (src v key) n \<and> n \<notin> set (s_conflicted f)"
    using inside_gaps_Nil_iff [OF f(2) [unfolded ff], of "a + 1" "Some b" Partial] g n by (simp add: window_high_def)
  moreover have "n \<le> source_top (src v key)"
  proof -
    have "s_heartbeat (src v key) \<le> source_top (src v key)" unfolding source_top_def by (rule Max_ge) auto
    then show ?thesis using b n(2) by (simp add: beat_def)
  qed
  ultimately have "n \<in> set (s_sequences (src v key))" "n \<notin> contested_at v (v_claims v) key"
    using a n(1) f(3) unfolding ff by (auto simp: missing_position_def)
  then show ?thesis by (rule uncontested_accounted [OF v(1) ok])
qed

lemma scope_of_run:
  assumes "run_of H v Gs run = Some u" and "c \<in> set (u_scopes u)"
  shows "\<exists>i. map_of (v_scopes v) i = Some c"
    and "(\<And>c. c \<in> set (u_scopes u) \<Longrightarrow> sc_problem c = None \<Longrightarrow> sc_start c \<noteq> None \<and> sc_end c \<noteq> None) \<Longrightarrow>
      told v c (scope_gaps_of u (sc_scope_id c))"
proof -
  obtain cs where cs: "those (map (map_of (v_scopes v)) (scope_ids_of v Gs run)) = Some cs"
    "init_run H v Gs run (observed_of v Gs run) cs (map_of (rev (silent_runs H v)) run) = Some u"
    using assms(1) by (auto simp: run_of_def bind_eq_Some_conv)
  obtain u1 where "grows (new_run run (observed_of v Gs run) cs) u1" "grows u1 u" by (rule init_run_grows [OF cs(2)])
  then have u: "set (u_scopes u) = set cs" using growsD(4) by (simp add: new_run_def Let_def)
  have "\<exists>i. map_of d i = Some c" if "those (map (map_of d) is) = Some cs" "c \<in> set cs" for d :: "(string \<times> scope) list" and "is" cs c
    using that by (induction "is" arbitrary: cs) (auto split: option.splits)
  then show "\<exists>i. map_of (v_scopes v) i = Some c" using cs(1) assms(2) u by blast
  show "told v c (scope_gaps_of u (sc_scope_id c))"
    if "\<And>c. c \<in> set (u_scopes u) \<Longrightarrow> sc_problem c = None \<Longrightarrow> sc_start c \<noteq> None \<and> sc_end c \<noteq> None"
    using run_reports [OF cs(2), of c] assms(2) that [of c] unfolding u by blast
qed

lemma complete_scope_observed:
  assumes obs: "\<forall>ob\<in>set obs. bounded_obs ob" and j: "judge H SH K R t obs = Some (rps, vf)"
    and "rp \<in> set rps" and so: "so \<in> set (rp_scopes rp)" "so_verdict so = Complete_for_declared_scope"
  shows "\<exists>key run a b. pairs (so_scope so) key run a b \<and> (\<forall>n. a < n \<and> n \<le> b \<longrightarrow> accounted (labelled H obs) (key, n)) \<and>
    (\<forall>x\<in>set (sc_exchanges (so_scope so)). x_run_id x = run \<and> x_source x = key \<and> a < x_source_sequence x \<and> x_source_sequence x \<le> b) \<and>
    (\<forall>r\<in>set (sc_records (so_scope so)). r_run_id r = Some run \<and> r_source r = key \<and> a < r_source_sequence r \<and> r_source_sequence r \<le> b)"
proof -
  obtain v where v: "collect H obs new_verifier = Some v" "exact (labelled H obs) v" "state_ok v" "linked v"
    using collected_state [OF obs] by blast
  obtain w Gs where w: "settled v w" "\<And>rp. rp \<in> set rps \<Longrightarrow> \<exists>run u v1 v2. v_sources v1 = v_sources w \<and> v_scopes v1 = v_scopes w \<and>
       run_of H v1 Gs run = Some u \<and> build_run K R Gs u v1 = Some (rp, v2)"
    using judge_stages [OF j v(1,2,3)] by metis
  obtain run u v1 v2 where r: "v_sources v1 = v_sources w" "v_scopes v1 = v_scopes w" "run_of H v1 Gs run = Some u" "build_run K R Gs u v1 = Some (rp, v2)"
    using w(2) [OF assms(3)] by blast
  have origin: "\<exists>c0 i. map_of (v_scopes v) i = Some c0 \<and> judge_scope (v_malformed_scopes v) c0 = Some c \<and> sc_problem c0 = None"
    if cu: "c \<in> set (u_scopes u)" for c
  proof -
    obtain i where "map_of (v_scopes w) i = Some c" using scope_of_run(1) [OF r(3) cu] r(2) by auto
    then obtain c0 where c0: "map_of (v_scopes v) i = Some c0" "c = the (judge_scope (v_malformed_scopes v) c0)"
      using w(1) by (auto simp: settled_def)
    have "scope_sources c0 \<noteq> []" "sc_problem c0 = None" using v(3) c0(1) by (auto simp: state_ok_def scopes_ok_def scope_weak_def)
    then show ?thesis using judge_scope_returns [of c0 "v_malformed_scopes v"] c0 by auto
  qed
  have fin: "sc_start c \<noteq> None \<and> sc_end c \<noteq> None" if "c \<in> set (u_scopes u)" "sc_problem c = None" for c
    using origin [OF that(1)] judged_scope_clean(1) that(2) by fastforce
  let ?c = "so_scope so"
  obtain a b s where c: "?c \<in> set (u_scopes u)" "sc_problem ?c = None" "sc_start ?c = Some a" "sc_end ?c = Some b"
      "map_of (v_sources v1) (sc_key ?c) = Some s" "inside_gaps s (a + 1) (Some b) Partial = []"
    using complete_scope_clean [OF r(4) so] scope_of_run(2) [OF r(3)] fin by blast
  obtain c0 i where c0: "map_of (v_scopes v) i = Some c0" "judge_scope (v_malformed_scopes v) c0 = Some ?c" "sc_problem c0 = None"
    using origin [OF c(1)] by blast
  note cl = judged_scope_clean [OF c0(2,3) c(2)]
  obtain key run where p: "pairs ?c key run a b" "sc_key ?c = key"
      "\<forall>x\<in>set (sc_exchanges ?c). x_run_id x = run \<and> x_source x = key \<and> a < x_source_sequence x \<and> x_source_sequence x \<le> b"
      "\<forall>r\<in>set (sc_records ?c). r_run_id r = Some run \<and> r_source r = key \<and> a < r_source_sequence r \<and> r_source_sequence r \<le> b"
    using cl(1) c(3,4) by auto
  have m: "marks_within (beat v) c0" using v(4) c0(1) vals_get by (fastforce simp: linked_def)
  obtain seg st where e: "(key, run, b, seg) \<in> set (sc_ends c0)" "st \<in> set (sc_starts c0)" "a = marker_last st"
    using p(1) cl(2,3) by (auto simp: pairs_def)
  note mb = bspec [OF m [unfolded marks_within_def]]
  have "-1 \<le> a" "b \<le> beat v key" using mb [of st] mb [of "(key, run, b, seg)"] e by (simp_all add: marker_last_def)
  then have "accounted (labelled H obs) (key, n)" if "a < n" "n \<le> b" for n
    using window_accounted [OF v(2,3) w(1), of key s a b n] c(5,6) r(1) p(2) that by simp
  then show ?thesis using p by blast
qed

subsection \<open>A complete run has complete scopes\<close>

lemma complete_effects:
  "verdict_for gs cs = Complete_for_declared_scope \<longleftrightarrow> {g \<in> set gs. gap_effect g \<noteq> Info} = {} \<and> Skipped \<notin> snd ` set cs"
proof -
  have "gap_effect g \<noteq> Info \<longleftrightarrow> gap_effect g = Partial \<or> gap_effect g = Unverified" for g :: gap by (cases "gap_effect g") simp_all
  moreover have "Partial \<in> gap_effect ` set gs \<longleftrightarrow> (\<exists>g\<in>set gs. gap_effect g = Partial)" "Unverified \<in> gap_effect ` set gs \<longleftrightarrow> (\<exists>g\<in>set gs. gap_effect g = Unverified)"
    by (metis imageE imageI)+
  ultimately show ?thesis by (auto simp: verdict_for_def Let_def)
qed

lemma skipped_checks:
  assumes "{g \<in> set gs. gap_effect g \<noteq> Info} = {}"
  shows "Skipped \<in> snd ` set (checks_of gs bs views m) \<longleftrightarrow> m \<and> (list_ex bo_skipped bs \<or> \<not> list_all sv_parsed views)"
  unfolding checks_of_def Let_def assms by (auto simp: outcome_def)

lemma found_subset:
  assumes "b \<in> set (somes (map (map_of (zip ids (zip bs views))) is))"
  shows "fst b \<in> set bs" "snd b \<in> set views"
proof -
  have "\<exists>i. map_of (zip ids (zip bs views)) i = Some b" using assms by (auto simp: somes_def map_filter_def)
  then have "b \<in> set (zip bs views)" by (auto dest!: map_of_SomeD set_zip_rightD)
  then have "(fst b, snd b) \<in> set (zip bs views)" by simp
  from set_zip_leftD [OF this] set_zip_rightD [OF this] show "fst b \<in> set bs" "snd b \<in> set views" by simp_all
qed

lemma scopes_complete:
  assumes c: "contained w" and "rp = conclude w bs views st" and "rp_verdict rp \<in> complete_verdicts" and "so \<in> set (rp_scopes rp)"
  shows "so_verdict so = Complete_for_declared_scope"
proof -
  let ?gs = "sort_gaps (u_gaps w) (member_index w)" and ?ids = "map x_exchange_id (u_members w)"
  have "verdict_for ?gs (checks_of ?gs bs views (u_members w \<noteq> [])) = Complete_for_declared_scope"
    using assms(3) by (auto simp: assms(2) conclude_def Let_def run_verdict_def complete_verdicts_def verdict_for_def split: if_splits)
  then have r: "{g \<in> set ?gs. gap_effect g \<noteq> Info} = {}" "u_members w = [] \<or> \<not> list_ex bo_skipped bs \<and> list_all sv_parsed views"
    unfolding complete_effects using skipped_checks by auto
  obtain d where d: "so = scope_verdict w (zip ?ids (zip bs views)) d" using assms(4) by (auto simp: assms(2) conclude_def Let_def)
  let ?sg = "sort_gaps (get_or (u_scope_gaps w) (sc_scope_id d) []) (member_index w)"
  let ?found = "somes (map (map_of (zip ?ids (zip bs views))) (scope_members w d))"
  have s: "{g \<in> set ?sg. gap_effect g \<noteq> Info} = {}" using r(1) c by (auto simp: contained_def scope_gaps_of_def)
  have "scope_members w d = [] \<or> \<not> list_ex bo_skipped (map fst ?found) \<and> list_all sv_parsed (map snd ?found)"
  proof (cases "u_members w = []")
    case True
    then show ?thesis by (simp add: scope_members_def)
  next
    case False
    then have "\<not> list_ex bo_skipped bs" "list_all sv_parsed views" using r(2) by auto
    then show ?thesis using found_subset [of _ ?ids bs views "scope_members w d"] by (auto simp: list_ex_iff list_all_iff)
  qed
  then show ?thesis unfolding d scope_verdict_def Let_def using s skipped_checks [OF s] by (simp add: complete_effects)
qed

lemma run_of_contained:
  assumes "run_of H v Gs run = Some u"
  shows "contained u"
proof -
  obtain cs where cs: "init_run H v Gs run (observed_of v Gs run) cs (map_of (rev (silent_runs H v)) run) = Some u"
    using assms by (auto simp: run_of_def bind_eq_Some_conv)
  obtain u1 where "grows (new_run run (observed_of v Gs run) cs) u1" "grows u1 u" by (rule init_run_grows [OF cs])
  then have "grows (new_run run (observed_of v Gs run) cs) u" by (rule grows_trans)
  moreover have "get_or (map (\<lambda>c. (sc_scope_id c, [])) ds) i [] = ([] :: gap list)" for ds :: "scope list" and i
    by (induction ds) (auto simp: get_or_def)
  then have "contained (new_run run (observed_of v Gs run) cs)"
    by (simp add: contained_def scope_gaps_of_def new_run_def Let_def)
  ultimately show ?thesis by (simp add: grows_def)
qed

lemma build_run_scopes_complete:
  assumes "run_of H v Gs run = Some u" and "build_run K R Gs u v1 = Some (rp, v')" and "rp_verdict rp \<in> complete_verdicts"
    and "so \<in> set (rp_scopes rp)"
  shows "so_verdict so = Complete_for_declared_scope"
proof -
  obtain w bs views st where w: "grows u w" "rp = conclude w bs views st" by (rule build_run_shape [OF assms(2)])
  have "contained w" using run_of_contained [OF assms(1)] w(1) by (simp add: grows_def)
  from scopes_complete [OF this w(2) assms(3,4)] show ?thesis .
qed

lemma observe_all_bounded: "observe_all SH spans = Inr obs \<Longrightarrow> \<forall>ob\<in>set obs. bounded_obs ob"
proof (induction spans arbitrary: obs)
  case (Cons sp spans)
  then show ?case by (auto split: sum.splits option.splits dest: observe_bounded)
qed simp

subsection \<open>Sample spans\<close>

definition sample_uuid :: "char \<Rightarrow> string" where
  "sample_uuid c = replicate 8 c @ ''-'' @ replicate 4 c @ ''-4000-8000-'' @ replicate 12 c"

definition sample_attrs :: attrs where
  "sample_attrs = [(A_SOURCE_ID, JStr ''s''), (A_SOURCE_EPOCH, JInt 1), (A_RUN_ID, JStr ''r''), (A_SCOPE_ID, JStr (sample_uuid CHR ''c''))]"

definition sample_span :: "attrs \<Rightarrow> span_record" where
  "sample_span a = \<lparr>sp_trace_id = [], sp_span_id = [], sp_parent_span_id = None, sp_name = ''n'', sp_start_ns = 1, sp_end_ns = 2,
     sp_attributes = sample_attrs @ a, sp_resource = [], sp_status = ''ok'', sp_kind = None\<rparr>"

definition sample_marker :: "string \<Rightarrow> int \<Rightarrow> span_record" where
  "sample_marker kind n = sample_span [(H_LAST, JInt n), (H_KIND, JStr kind)]"

definition sample_record_span :: "int \<Rightarrow> span_record" where
  "sample_record_span n = sample_span [(A_CAPTURE_INPUT, JStr ''records''), (A_SOURCE_SEQUENCE, JInt n),
     (A_EVENT_ID, JStr (sample_uuid CHR ''e'')), (A_ATTEMPT_UID, JStr (sample_uuid CHR ''a''))]"

definition sample_setting :: setting where
  "sample_setting = \<lparr>t_trusted_source = False, t_profile = None, t_evaluated_us = 0, t_clock_uncertainty_ns = 0,
     t_max_clock_uncertainty_ns = 0, t_run_ids = None\<rparr>"

definition sample_hash :: hash where
  "sample_hash s = replicate 64 CHR ''0''"

definition sample_parser :: parser where
  "sample_parser x a b = \<lparr>k_request_status = ''ok'', k_response_status = ''ok'', k_response_id = None, k_previous_response_id = None,
     k_input_digests = [], k_output_digests = [], k_consumed = [], k_tool_calls = []\<rparr>"

definition sample_spans :: "span_record list" where
  "sample_spans = [sample_marker ''run_start'' (-1), sample_record_span 0, sample_marker ''run_end'' 0]"

definition sample_reports :: "run_report list" where
  "sample_reports = (case reconstruct sample_hash sample_hash sample_parser None sample_setting sample_spans of Inr rps \<Rightarrow> rps | Inl e \<Rightarrow> [])"

lemma sample_reconstructs:
  "reconstruct sample_hash sample_hash sample_parser None sample_setting sample_spans = Inr sample_reports"
  by code_simp

lemma sample_verdicts:
  "map (\<lambda>rp. (rp_verdict rp, map so_verdict (rp_scopes rp))) sample_reports = [(Complete_for_observed_scopes, [Complete_for_declared_scope])]"
  by code_simp

lemma sample_complete:
  obtains rp so where "rp \<in> set sample_reports" "so \<in> set (rp_scopes rp)" "so_verdict so = Complete_for_declared_scope"
    "rp_verdict rp = Complete_for_observed_scopes"
proof -
  obtain rp so where "sample_reports = [rp]" "rp_scopes rp = [so]" "so_verdict so = Complete_for_declared_scope"
      "rp_verdict rp = Complete_for_observed_scopes"
    using sample_verdicts by (auto simp: map_eq_Cons_conv)
  then show thesis using that [of rp so] list.set_intros(1) [of rp "[]"] list.set_intros(1) [of so "[]"] by metis
qed

subsection \<open>Properties\<close>

text \<open>
  C1. A scope is reported complete only if its run markers pair (the same source, run and scope, the
  lowest start \<open>a\<close>, one end \<open>b\<close>, \<open>a \<le> b\<close>), every sequence of \<open>]a, b]\<close> on the source was observed and all
  observations of it agree on one exchange or record with no differing version, and every exchange and
  record of the scope lies in that window under the scope's run.
\<close>

theorem complete_scope_accounted:
  assumes "reconstruct H SH K R t spans = Inr rps" and "rp \<in> set rps" and "so \<in> set (rp_scopes rp)"
    and "so_verdict so = Complete_for_declared_scope"
  shows "\<exists>obs key run a b. observe_all SH spans = Inr obs \<and> pairs (so_scope so) key run a b \<and>
    (\<forall>n. a < n \<and> n \<le> b \<longrightarrow> accounted (labelled H obs) (key, n)) \<and>
    (\<forall>x\<in>set (sc_exchanges (so_scope so)). x_run_id x = run \<and> x_source x = key \<and> a < x_source_sequence x \<and> x_source_sequence x \<le> b) \<and>
    (\<forall>r\<in>set (sc_records (so_scope so)). r_run_id r = Some run \<and> r_source r = key \<and> a < r_source_sequence r \<and> r_source_sequence r \<le> b)"
proof -
  obtain obs vf where s: "observe_all SH spans = Inr obs" "judge H SH K R t obs = Some (rps, vf)"
    using assms(1) by (auto simp: reconstruct_def split: sum.splits option.splits)
  from complete_scope_observed [OF observe_all_bounded [OF s(1)] s(2) assms(2-4)] s(1) show ?thesis by blast
qed

theorem complete_scope_accounted_witness:
  "\<exists>rp\<in>set sample_reports. \<exists>so\<in>set (rp_scopes rp). \<exists>obs key run a b. observe_all sample_hash sample_spans = Inr obs \<and>
    pairs (so_scope so) key run a b \<and> (\<forall>n. a < n \<and> n \<le> b \<longrightarrow> accounted (labelled sample_hash obs) (key, n))"
proof -
  obtain rp so where "rp \<in> set sample_reports" "so \<in> set (rp_scopes rp)" "so_verdict so = Complete_for_declared_scope" by (rule sample_complete)
  with complete_scope_accounted [OF sample_reconstructs this(1,2,3)] show ?thesis by blast
qed

text \<open>
  C3. A run is reported complete only if every scope of it is: the run's gaps include the gaps of its
  scopes, and a check that is skipped for a scope is skipped for the run.
\<close>

theorem complete_run_complete_scopes:
  assumes "reconstruct H SH K R t spans = Inr rps" and "rp \<in> set rps" and "rp_verdict rp \<in> complete_verdicts"
    and "so \<in> set (rp_scopes rp)"
  shows "so_verdict so = Complete_for_declared_scope"
proof -
  obtain obs vf where o: "observe_all SH spans = Inr obs" "judge H SH K R t obs = Some (rps, vf)"
    using assms(1) by (auto simp: reconstruct_def split: sum.splits option.splits)
  obtain v where v: "collect H obs new_verifier = Some v" "exact (labelled H obs) v" "state_ok v" "linked v"
    using collected_state [OF observe_all_bounded [OF o(1)]] by blast
  from judge_stages [OF o(2) v(1,2,3)] assms(2) obtain Gs run u v1 v2 where
    "run_of H v1 Gs run = Some u" "build_run K R Gs u v1 = Some (rp, v2)" by metis
  from build_run_scopes_complete [OF this assms(3,4)] show ?thesis .
qed

theorem complete_run_complete_scopes_witness:
  "\<exists>rp\<in>set sample_reports. rp_verdict rp = Complete_for_observed_scopes \<and> rp_scopes rp \<noteq> [] \<and>
    (\<forall>so\<in>set (rp_scopes rp). so_verdict so = Complete_for_declared_scope)"
proof -
  obtain rp so where "rp \<in> set sample_reports" "so \<in> set (rp_scopes rp)" "rp_verdict rp = Complete_for_observed_scopes" by (rule sample_complete)
  with complete_run_complete_scopes [OF sample_reconstructs] show ?thesis by (force simp: complete_verdicts_def)
qed


end
