(* ===== verification/VerifyProperties.thy ===== *)
theory VerifyProperties
  imports RunSafety
begin

text \<open>
  Properties of collecting and finalizing: what a source knows after the spans were read, that sending
  spans again changes nothing, when a scope is clean, when a chain of manifests is intact.
\<close>

subsection \<open>Claims\<close>

lemma distinct_add_new_list: "distinct xs \<Longrightarrow> distinct (add_new x xs)"
  by (simp add: distinct_add_new)

lemma claims_distinct_step:
  assumes "vals (\<lambda>p. distinct) (v_claims v)"
  shows "vals (\<lambda>p. distinct) (v_claims (step ob v))"
proof -
  have add: "vals (\<lambda>p. distinct) (upd_at (v_claims v) p [] (add_new who))" for p who
    by (rule vals_upd [OF assms]) simp_all
  show ?thesis
  proof (cases ob)
    case (Exchange_obs x)
    then show ?thesis
      using add_exchange_fresh(2) [of x "stamp ob v"] add_exchange_retry [of x "stamp ob v"] assms add
      by (cases "exchange_ident x \<in> exchange_ident ` set (get_or (v_observations v) (x_exchange_id x) [])")
        (simp_all add: step_def)
  next
    case (Record_obs r)
    then show ?thesis
      using add_record_fresh(2) [of r "stamp ob v"] assms add
      by (cases "record_ident r \<in> record_ident ` set (v_records v)") (simp_all add: step_def add_record_def)
  qed (use assms in \<open>simp_all add: step_def\<close>)
qed

lemma claims_distinct_fold: "vals (\<lambda>p. distinct) (v_claims v) \<Longrightarrow> vals (\<lambda>p. distinct) (v_claims (fold step es v))"
  by (induction es arbitrary: v) (simp_all add: claims_distinct_step)

lemma contested_not_accounted:
  assumes e: "exact es v" and "keys_ok v" and d: "vals (\<lambda>p. distinct) (v_claims v)" and c: "n \<in> contested_at v (v_claims v) k"
  shows "at es (k, n) \<noteq> {} \<and> \<not> accounted es (k, n)"
proof -
  let ?ids = "get_or (v_claims v) (k, n) []"
  have c: "length ?ids > 1 \<or> (\<exists>i\<in>set ?ids. i \<in> set (v_conflicts v))"
    using assms(2) c by (auto simp: contested_at_iff keys_ok_def contested_def list_ex_iff)
  have ids: "set ?ids = claimant ` at es (k, n)" by (rule exactD(2) [OF e])
  have "distinct ?ids" using vals_get [OF d] by (cases "map_of (v_claims v) (k, n)") (auto simp: get_or_def)
  show ?thesis
  proof (cases "length ?ids > 1")
    case True
    then have "card (set ?ids) > 1" using distinct_card [OF \<open>distinct ?ids\<close>] by simp
    then obtain a b where "a \<in> set ?ids" "b \<in> set ?ids" "a \<noteq> b" by (metis card_le_Suc0_iff_eq List.finite_set not_less One_nat_def)
    then show ?thesis unfolding ids accounted_def by blast
  next
    case False
    with c obtain ob where ob: "ob \<in> at es (k, n)" "claimant ob \<in> set (v_conflicts v)" unfolding ids by blast
    let ?xs = "get_or (v_observations v) (claimant ob) []"
    have "length ?xs > 1" using ob(2) exactD(5) [OF e] by blast
    then have "card (exchange_ident ` set ?xs) > 1" using distinct_card [OF exactD(4) [OF e, of "claimant ob"]] by simp
    then obtain a b where "a \<in> exchange_ident ` exchanges_of es (claimant ob)" "b \<in> exchange_ident ` exchanges_of es (claimant ob)" "a \<noteq> b"
      unfolding exactD(3) [OF e, of "claimant ob"] 
      by (metis (no_types, lifting) card_le_Suc0_iff_eq card.infinite not_less One_nat_def less_zeroE)
    then show ?thesis using ob(1) unfolding accounted_def by blast
  qed
qed

subsection \<open>Chains of manifests\<close>

fun chained :: "manifest_obs option \<Rightarrow> manifest_obs list \<Rightarrow> bool" where
  "chained prev [] \<longleftrightarrow> True"
| "chained prev (m # ms) \<longleftrightarrow> (case prev of None \<Rightarrow> True | Some p \<Rightarrow> m_previous_sha256 m = Some (m_sha256 p)) \<and> chained (Some m) ms"

lemma chain_windows_Nil_iff:
  assumes "sorted_wrt (<) (map m_manifest_seq ms)" and "\<forall>m\<in>set ms. expected \<le> m_manifest_seq m \<and> m_manifest_seq m \<le> highest"
  shows "chain_windows highest prev expected ms = [] \<longleftrightarrow> map m_manifest_seq ms = [expected..highest] \<and> chained prev ms"
  using assms
proof (induction ms arbitrary: prev expected)
  case (Cons m ms)
  have "chain_windows highest (Some m) (m_manifest_seq m + 1) ms = [] \<longleftrightarrow>
      map m_manifest_seq ms = [m_manifest_seq m + 1..highest] \<and> chained (Some m) ms"
    using Cons.prems by (intro Cons.IH) auto
  moreover have "[expected..highest] = expected # [expected + 1..highest]" using Cons.prems(2) by (auto simp: upto.simps)
  ultimately show ?case using Cons.prems(2) by (auto simp: link_windows_def split: option.splits)
qed auto

lemma single_manifests_id: "distinct (map m_manifest_seq ms) \<Longrightarrow> single_manifests ms = ms"
proof -
  assume d: "distinct (map m_manifest_seq ms)"
  have "filter (\<lambda>k. m_manifest_seq k = m_manifest_seq m) ms = [m]" if "m \<in> set ms" for m
    using d that
  proof (induction ms)
    case (Cons a ms)
    then show ?case by (cases "m = a") (auto simp: filter_empty_conv image_iff)
  qed simp
  then show ?thesis by (simp add: single_manifests_def)
qed

lemma distinct_map_counts:
  assumes "\<forall>x\<in>set xs. length (filter (\<lambda>k. f k = f x) xs) \<le> 1"
  shows "distinct (map f xs)"
  using assms
proof (induction xs)
  case (Cons a xs)
  have "f a \<notin> f ` set xs" using Cons.prems by (auto simp: filter_empty_conv)
  moreover have "length (filter (\<lambda>k. f k = f x) xs) \<le> 1" if "x \<in> set xs" for x
  proof -
    have "length (filter (\<lambda>k. f k = f x) (a # xs)) \<le> 1" using Cons.prems that by (metis list.set_intros(2))
    then show ?thesis by (cases "f a = f x") simp_all
  qed
  ultimately show ?case using Cons.IH by simp
qed simp

lemma single_sorted:
  assumes "sorted (map m_manifest_seq ms)"
  shows "sorted_wrt (<) (map m_manifest_seq (single_manifests ms))"
proof -
  have le: "length (filter P (filter Q ms)) \<le> length (filter P ms)" for P Q
  proof -
    have "filter P (filter Q ms) = filter Q (filter P ms)" by (simp add: conj_commute)
    then show ?thesis by (metis length_filter_le)
  qed
  have "length (filter (\<lambda>k. m_manifest_seq k = m_manifest_seq m) (single_manifests ms)) \<le> 1" if "m \<in> set (single_manifests ms)" for m
    using that le [of "\<lambda>k. m_manifest_seq k = m_manifest_seq m"] unfolding single_manifests_def by (simp del: filter_filter)
  then have "distinct (map m_manifest_seq (single_manifests ms))" by (intro distinct_map_counts) blast
  moreover have "sorted (map m_manifest_seq (single_manifests ms))"
    unfolding single_manifests_def using assms by (rule sorted_filter)
  ultimately show ?thesis by (simp add: strict_sorted_iff)
qed

lemma check_chain_intact_iff:
  assumes "s_manifestless s = []" and "\<forall>m\<in>set found. 0 \<le> m_manifest_seq m"
  shows "s_manifestless (check_chain named found s) = [] \<longleftrightarrow>
    map m_manifest_seq (s_manifests (check_chain named found s)) = [0..chain_top named found] \<and>
    chained None (s_manifests (check_chain named found s))"
proof -
  let ?ms = "sort_key manifest_order found" and ?top = "chain_top named found"
  have top: "chain_top named ?ms = ?top" by (simp add: chain_top_def)
  have "m_manifest_seq m \<le> ?top" if "m \<in> set found" for m using that by (simp add: chain_top_def)
  moreover have "sorted (map m_manifest_seq ?ms)"
    using sorted_sort_key [of manifest_order found]
    by (auto simp: sorted_iff_nth_mono manifest_order_def less_eq_prod_def) force
  note sorted = this
  have "set (single_manifests ?ms) \<subseteq> set found" by (auto simp: single_manifests_def)
  ultimately have w: "chain_windows ?top None 0 (single_manifests ?ms) = [] \<longleftrightarrow>
      map m_manifest_seq (single_manifests ?ms) = [0..?top] \<and> chained None (single_manifests ?ms)"
    using assms(2) by (intro chain_windows_Nil_iff single_sorted sorted) auto
  have "single_manifests ?ms = ?ms" if m: "map m_manifest_seq (single_manifests ?ms) = [0..?top]"
  proof (rule ccontr)
    assume "single_manifests ?ms \<noteq> ?ms"
    then obtain m where n: "m \<in> set ?ms" "m \<notin> set (single_manifests ?ms)"
      unfolding single_manifests_def by (metis (no_types, lifting) filter_True filter_id_conv mem_Collect_eq set_filter)
    have "m_manifest_seq m \<in> set [0..?top]" using n(1) assms(2) \<open>\<And>m. m \<in> set found \<Longrightarrow> m_manifest_seq m \<le> ?top\<close> by simp
    then obtain k where k: "k \<in> set (single_manifests ?ms)" "m_manifest_seq k = m_manifest_seq m" using m by (metis imageE list.set_map)
    then have "m \<in> set (single_manifests ?ms)" using n(1) by (simp add: single_manifests_def)
    with n(2) show False ..
  qed
  moreover have "single_manifests ?ms = ?ms" if "map m_manifest_seq ?ms = [0..?top]"
    using that by (intro single_manifests_id) simp
  ultimately show ?thesis using w assms(1) by (auto simp: check_chain_def Let_def top)
qed

subsection \<open>Spans sent again\<close>

lemma observe_all_append:
  "observe_all SH (xs @ ys) =
     (case observe_all SH xs of Inl e \<Rightarrow> Inl e
      | Inr obs \<Rightarrow> (case observe_all SH ys of Inl e \<Rightarrow> Inl e | Inr obs' \<Rightarrow> Inr (obs @ obs')))"
  by (induction xs) (auto split: sum.splits option.splits)

lemma observe_all_Inr_iff:
  "observe_all SH xs = Inr obs \<longleftrightarrow> (\<forall>x\<in>set xs. \<exists>ob. observe SH x = Inr ob) \<and>
     obs = concat (map (\<lambda>x. case observe SH x of Inr (Some ob) \<Rightarrow> [ob] | _ \<Rightarrow> []) xs)"
  by (induction xs arbitrary: obs) (auto split: sum.splits option.splits, blast+)

lemma observe_all_again:
  assumes "observe_all SH xs = Inr obs" and "set ys \<subseteq> set xs"
  obtains obs' where "observe_all SH ys = Inr obs'" "set obs' \<subseteq> set obs"
proof -
  let ?obs = "concat (map (\<lambda>x. case observe SH x of Inr (Some ob) \<Rightarrow> [ob] | _ \<Rightarrow> []) ys)"
  have "observe_all SH ys = Inr ?obs" "set ?obs \<subseteq> set obs"
    using assms unfolding observe_all_Inr_iff by auto
  then show ?thesis by (rule that)
qed

lemma collect_append: "collect H (xs @ ys) v = Option.bind (collect H xs v) (collect H ys)"
  by (induction xs arbitrary: v) (auto split: Option.bind_split)

lemma collect_again:
  assumes "collect H obs v = Some w" and "set obs' \<subseteq> set obs"
  shows "collect H obs' w = Some w"
  using assms(2) by (induction obs') (auto simp: collect_retry [OF assms(1)])

lemma judge_again: "set obs' \<subseteq> set obs \<Longrightarrow> judge H SH K R t (obs @ obs') = judge H SH K R t obs"
  by (cases "collect H obs new_verifier") (simp_all add: judge_def collect_append collect_again)

lemma finalize_sequences: "s_sequences (finalize s) = s_sequences s"
  by (simp add: finalize_def Let_def sweep_frame)

subsection \<open>Sample values\<close>

definition sample_observed :: "span_record list \<Rightarrow> observation list" where
  "sample_observed spans = (case observe_all sample_hash spans of Inr obs \<Rightarrow> obs | Inl e \<Rightarrow> [])"

lemma sample_observes: "observe_all sample_hash sample_spans = Inr (sample_observed sample_spans)"
  by code_simp

definition sample_scope :: scope where
  "sample_scope = (new_scope ''c'')\<lparr>sc_starts := [((''s'', 1), ''r'', -1, None)], sc_ends := [((''s'', 1), ''r'', 4, None)]\<rparr>"

definition sample_manifest :: "int \<Rightarrow> manifest_obs" where
  "sample_manifest n = \<lparr>m_source_id = ''s'', m_source_epoch = 1, m_manifest_id = ''i'', m_manifest_seq = n, m_after_source_sequence = -1,
     m_previous_sha256 = (if n = 0 then None else Some (int_str (n - 1))), m_unsealed_prior_epochs = [], m_sha256 = int_str n,
     m_document = JNull, m_authenticated = False\<rparr>"

subsection \<open>Properties\<close>

text \<open>
  C6. Sending spans again changes nothing: the reports over the spans and any repetition of some of them,
  in any order and number, are the reports over the spans alone, failures included.
\<close>

theorem resent_spans_change_nothing:
  assumes "set again \<subseteq> set spans"
  shows "reconstruct H SH K R t (spans @ again) = reconstruct H SH K R t spans"
proof (cases "observe_all SH spans")
  case (Inr obs)
  obtain obs' where "observe_all SH again = Inr obs'" "set obs' \<subseteq> set obs" by (rule observe_all_again [OF Inr assms])
  then show ?thesis using Inr by (simp add: reconstruct_def observe_all_append judge_again)
qed (simp add: reconstruct_def observe_all_append)

theorem resent_spans_change_nothing_witness:
  "(\<forall>K R. reconstruct sample_hash sample_hash K R sample_setting (sample_spans @ [sample_record_span 0, sample_record_span 0]) =
     reconstruct sample_hash sample_hash K R sample_setting sample_spans) \<and> sample_record_span 0 \<in> set sample_spans"
  using resent_spans_change_nothing [of "[sample_record_span 0, sample_record_span 0]" sample_spans] by (simp add: sample_spans_def)





text \<open>
  C35. A finalized scope has no problem exactly when its markers pair and every exchange and record of it
  lies between them, on the same source and under the same run.
\<close>

theorem scope_clean_iff:
  assumes "finalize_scope s = Some t" and "sc_problem s = None"
  shows "sc_problem t = None \<longleftrightarrow>
    (\<exists>key run low high. pairs s key run low high \<and>
       (\<forall>x\<in>set (sc_exchanges s). x_run_id x = run \<and> x_source x = key \<and> low < x_source_sequence x \<and> x_source_sequence x \<le> high) \<and>
       (\<forall>r\<in>set (sc_records s). r_run_id r = Some run \<and> r_source r = key \<and> low < r_source_sequence r \<and> r_source_sequence r \<le> high))"
  by (rule finalize_scope_clean_iff [OF assms])

theorem scope_clean_iff_witness:
  "\<exists>t. finalize_scope sample_scope = Some t \<and> sc_problem t = None"
proof -
  obtain t where t: "finalize_scope sample_scope = Some t" using finalize_scope_returns [of sample_scope] by (auto simp: sample_scope_def scope_sources_def)
  have "pairs sample_scope (''s'', 1) ''r'' (-1) 4" by (simp add: pairs_def sample_scope_def new_scope_def marker_entry_def marker_last_def)
  then show ?thesis using scope_clean_iff [OF t] t by (auto simp: sample_scope_def new_scope_def)
qed

text \<open>
  C36. The manifests of a source leave no window unexplained exactly when they number from 0 to the
  highest one found or named, one each, and each names the digest of the one before it.
\<close>

theorem manifest_chain_intact_iff:
  assumes "s_manifestless s = []" and "\<forall>m\<in>set found. 0 \<le> m_manifest_seq m"
  shows "s_manifestless (check_chain named found s) = [] \<longleftrightarrow>
    map m_manifest_seq (s_manifests (check_chain named found s)) = [0..chain_top named found] \<and>
    chained None (s_manifests (check_chain named found s))"
  by (rule check_chain_intact_iff [OF assms])

theorem manifest_chain_intact_iff_witness:
  "s_manifestless (check_chain 1 [sample_manifest 1, sample_manifest 0] (new_source (''s'', 1))) = [] \<and>
   s_manifestless (check_chain 2 [sample_manifest 1, sample_manifest 0] (new_source (''s'', 1))) \<noteq> []"
proof
  show "s_manifestless (check_chain 1 [sample_manifest 1, sample_manifest 0] (new_source (''s'', 1))) = []"
    by (subst manifest_chain_intact_iff) code_simp+
  show "s_manifestless (check_chain 2 [sample_manifest 1, sample_manifest 0] (new_source (''s'', 1))) \<noteq> []"
    by (subst manifest_chain_intact_iff) code_simp+
qed

end
