(* ===== verification/SealDigest.thy ===== *)
theory SealDigest
  imports Canonical Ids
begin

text \<open>
  The canonical text of a seal determines its entries: strings and numbers are written so that where one
  ends is told from its own text, so two lists of (position, entry) pairs with the same text are equal.
\<close>

subsection \<open>Quoted strings are self-delimiting\<close>

definition hex_value :: "char \<Rightarrow> nat" where
  "hex_value c = (if CHR ''0'' \<le> c \<and> c \<le> CHR ''9'' then of_char c - 48 else of_char c - 87)"

fun unesc :: "string \<Rightarrow> char \<times> string" where
  "unesc [] = (CHR 0x00, [])"
| "unesc (c # cs) = (if c \<noteq> CHR 0x5C then (c, cs) else
     case cs of
       [] \<Rightarrow> (CHR 0x00, [])
     | d # ds \<Rightarrow>
         if d = CHR ''n'' then (CHR 0x0A, ds) else if d = CHR ''r'' then (CHR 0x0D, ds) else if d = CHR ''t'' then (CHR 0x09, ds)
         else if d = CHR ''f'' then (CHR 0x0C, ds) else if d = CHR ''b'' then (CHR 0x08, ds)
         else if d = CHR ''u'' then (char_of (16 * hex_value (ds ! 2) + hex_value (ds ! 3)), drop 4 ds)
         else (d, ds))"

lemma digit_hex_value: "n < 16 \<Longrightarrow> hex_value (digit_hex n) = n"
proof -
  assume "n < 16"
  then have "n \<in> set [0..<16]" by simp
  moreover have "\<forall>n\<in>set [0..<16]. hex_value (digit_hex n) = n" by code_simp
  ultimately show ?thesis by blast
qed

lemma unesc_esc: "unesc (esc c @ cs) = (c, cs)"
proof (cases "(of_char c :: nat) < 32")
  case True
  then have "hex_value (digit_hex (of_char c div 16)) = of_char c div 16" "hex_value (digit_hex (of_char c mod 16)) = of_char c mod 16"
    by (simp_all add: digit_hex_value)
  then show ?thesis by (simp add: esc_def)
qed (simp add: esc_def)

lemma esc_start: "\<exists>a as. esc c = a # as \<and> a \<noteq> CHR 0x22"
  by (auto simp: esc_def)

lemma quoted_prefix:
  "concat (map esc s) @ CHR 0x22 # r = concat (map esc s') @ CHR 0x22 # r' \<Longrightarrow> s = s' \<and> r = r'"
proof (induction s arbitrary: s')
  case Nil
  then show ?case using esc_start by (cases s') (auto, metis append_Cons list.inject)
next
  case (Cons c s)
  show ?case
  proof (cases s')
    case Nil
    then show ?thesis using Cons.prems esc_start [of c] by auto
  next
    case s': (Cons d t)
    have "esc c @ (concat (map esc s) @ CHR 0x22 # r) = esc d @ (concat (map esc t) @ CHR 0x22 # r')"
      using Cons.prems by (simp add: s')
    from arg_cong [OF this, of unesc] have "c = d" "concat (map esc s) @ CHR 0x22 # r = concat (map esc t) @ CHR 0x22 # r'"
      by (simp_all only: unesc_esc prod.inject)
    then show ?thesis using Cons.IH [of t] by (simp add: s')
  qed
qed

lemma quote_prefix: "quote s @ r = quote s' @ r' \<Longrightarrow> s = s' \<and> r = r'"
  using quoted_prefix [of s r s' r'] by (simp add: quote_def)

subsection \<open>The text of a list of pairs\<close>

lemma upto_first: "c \<notin> set a \<Longrightarrow> c \<notin> set b \<Longrightarrow> a @ c # r = b @ c # r' \<Longrightarrow> a = b \<and> r = r'"
  by (induction a arbitrary: b) (case_tac b; auto)+

lemma comma_int_str: "CHR '','' \<notin> set (int_str i)"
  using nat_str_digits [of "nat i"] nat_str_digits [of "nat (- i)"] by (auto simp: int_str_def list_all_iff decimal_digit_def)

definition pair_text :: "int \<times> string \<Rightarrow> string" where
  "pair_text p = ''['' @ int_str (fst p) @ CHR '','' # quote (snd p) @ '']''"

lemma pair_text_prefix:
  assumes "pair_text p @ r = pair_text q @ r'"
  shows "p = q \<and> r = r'"
proof -
  have "int_str (fst p) @ CHR '','' # quote (snd p) @ '']'' @ r = int_str (fst q) @ CHR '','' # quote (snd q) @ '']'' @ r'"
    using assms by (simp add: pair_text_def)
  from upto_first [OF comma_int_str comma_int_str this]
  have "int_str (fst p) = int_str (fst q)" "quote (snd p) @ '']'' @ r = quote (snd q) @ '']'' @ r'" by auto
  moreover have "fst p = fst q" using calculation(1) by (metis str_int_int_str)
  ultimately show ?thesis using quote_prefix [of "snd p" "'']'' @ r" "snd q" "'']'' @ r'"] by (simp add: prod_eq_iff)
qed

fun pairs_tail :: "(int \<times> string) list \<Rightarrow> string" where
  "pairs_tail [] = '']''"
| "pairs_tail (p # ps) = CHR '','' # pair_text p @ pairs_tail ps"

lemma pairs_tail_inject: "pairs_tail ps = pairs_tail qs \<Longrightarrow> ps = qs"
proof (induction ps arbitrary: qs)
  case Nil
  then show ?case by (cases qs) simp_all
next
  case (Cons p ps)
  then obtain q qt where q: "qs = q # qt" "pair_text p @ pairs_tail ps = pair_text q @ pairs_tail qt" by (cases qs) auto
  with pair_text_prefix [OF q(2)] Cons.IH [of qt] show ?case by simp
qed

lemma pairs_document_text:
  "json_str (pairs_document ps) = (case ps of [] \<Rightarrow> ''[]'' | p # rest \<Rightarrow> CHR ''['' # pair_text p @ pairs_tail rest)"
proof -
  have "join_with '','' (map pair_text (p # rest)) = pair_text p @ concat (map (\<lambda>x. CHR '','' # pair_text x) rest)" for p rest
    by (induction rest arbitrary: p) simp_all
  moreover have "json_str ((\<lambda>(n, e). JList [JInt n, JStr e]) p) = pair_text p" for p
    by (cases p) (simp add: pair_text_def)
  moreover have "concat (map (\<lambda>x. CHR '','' # pair_text x) rest) @ '']'' = pairs_tail rest" for rest
    by (induction rest) simp_all
  ultimately show ?thesis by (cases ps) (simp_all add: pairs_document_def comp_def)
qed

lemma pairs_document_inject:
  assumes "json_str (pairs_document ps) = json_str (pairs_document qs)"
  shows "ps = qs"
proof -
  have start: "pair_text p @ r \<noteq> '']''" for p r by (simp add: pair_text_def)
  show ?thesis
  proof (cases ps; cases qs)
    fix p rest q qt
    assume pq: "ps = p # rest" "qs = q # qt"
    then have "pair_text p @ pairs_tail rest = pair_text q @ pairs_tail qt" using assms by (simp add: pairs_document_text)
    from pair_text_prefix [OF this] show ?thesis using pairs_tail_inject pq by blast
  qed (use assms start start [symmetric] in \<open>simp_all add: pairs_document_text\<close>)
qed

subsection \<open>Seal digests tell contents apart\<close>

definition seal_text :: "(int \<times> string) list \<Rightarrow> string" where
  "seal_text es = json_str (pairs_document (sort_key fst es))"

lemma seal_digest_eq: "seal_digest SH es = (if distinct (map fst es) then Some (''sha256:'' @ SH (seal_text es)) else None)"
proof -
  have "distinct (map fst (sort_key fst es)) = distinct (map fst es)"
    by (simp add: distinct_map)
  then show ?thesis by (simp add: seal_digest_def seal_text_def canonical_bytes_def sha256_digest_def)
qed

lemma seal_digest_determines:
  assumes "seal_digest SH es = Some d" and "seal_digest SH fs = Some d" and "inj_on SH {seal_text es, seal_text fs}"
  shows "set es = set fs"
proof -
  have "SH (seal_text es) = SH (seal_text fs)" using assms(1,2) by (auto simp: seal_digest_eq split: if_splits)
  then have "seal_text es = seal_text fs" using inj_onD [OF assms(3)] by blast
  then have "sort_key fst es = sort_key fst fs" unfolding seal_text_def by (rule pairs_document_inject)
  then have "set (sort_key fst es) = set (sort_key fst fs)" by simp
  then show ?thesis by simp
qed

end
