(* ===== verification/Seals.thy ===== *)
theory Seals
  imports SealDigest
begin

text \<open>
  The capture side of a seal: \<^verbatim>\<open>SegmentSeals\<close> of \<^verbatim>\<open>_seal.py\<close>. An open segment keeps one entry per settled
  position and the count of positions allocated and not settled; once a seal is requested and nothing is
  outstanding it is handed to the seal worker, which builds the digest and gives the marker to the sink.

  Threads appear as what they do under the lock. Whether a thread can be created and started, what the sink
  answers and what the bound allocator reports are arguments; \<open>z_built\<close>, \<open>z_taken\<close> and \<open>z_freeing\<close> are the
  seals already built, the one the builder holds, and the size the reclaimer is freeing.
\<close>

subsection \<open>Entries\<close>

datatype compact = Bytes "nat list" | Reason string

definition hex_digit :: "char \<Rightarrow> nat option" where
  "hex_digit c = (if CHR ''0'' \<le> c \<and> c \<le> CHR ''9'' then Some (of_char c - 48)
     else if CHR ''a'' \<le> c \<and> c \<le> CHR ''f'' then Some (of_char c - 87)
     else if CHR ''A'' \<le> c \<and> c \<le> CHR ''F'' then Some (of_char c - 55) else None)"

definition hex_space :: "char \<Rightarrow> bool" where
  "hex_space c \<longleftrightarrow> c \<in> set [CHR '' '', CHR 0x09, CHR 0x0A, CHR 0x0B, CHR 0x0C, CHR 0x0D]"

text \<open>\<^verbatim>\<open>bytes.fromhex\<close> skips blanks between bytes and takes either case.\<close>

fun fromhex :: "string \<Rightarrow> nat list option" where
  "fromhex [] = Some []"
| "fromhex (c # cs) =
     (if hex_space c then fromhex cs
      else case cs of
        [] \<Rightarrow> None
      | d # ds \<Rightarrow>
          (case (hex_digit c, hex_digit d) of
             (Some a, Some b) \<Rightarrow> map_option ((#) (16 * a + b)) (fromhex ds)
           | _ \<Rightarrow> None))"

definition bytes_hex :: "nat list \<Rightarrow> string" where
  "bytes_hex bs = concat (map (\<lambda>b. [digit_hex (b div 16), digit_hex (b mod 16)]) bs)"

definition compact_entry :: "string \<Rightarrow> compact option" where
  "compact_entry e =
     (if take 7 e = ''sha256:'' \<and> length e = 71 then map_option Bytes (fromhex (drop 7 e))
      else if take 5 e = ''loss:'' \<and> length e > 5 then Some (Reason (drop 5 e))
      else None)"

primrec expand_entry :: "compact \<Rightarrow> string" where
  "expand_entry (Bytes bs) = ''sha256:'' @ bytes_hex bs"
| "expand_entry (Reason r) = ''loss:'' @ r"

subsection \<open>State\<close>

type_synonym origin = "string \<times> int"

record seal_request =
  rq_last_sequence :: int
  rq_manifest_digest :: "string option"
  rq_terminal :: bool
  rq_resumable :: bool
  rq_branch_ids :: "string list"
  rq_run_id :: "string option"
  rq_source :: "origin option"

record open_segment =
  os_entries :: "(int \<times> compact) list"
  os_outstanding :: int
  os_request :: "seal_request option"
  os_run_id :: "string option"
  os_source :: "origin option"
  os_forced :: bool

definition fresh_segment :: "origin option \<Rightarrow> open_segment" where
  "fresh_segment src = \<lparr>os_entries = [], os_outstanding = 0, os_request = None, os_run_id = None, os_source = src, os_forced = False\<rparr>"

type_synonym ready_seal = "string \<times> open_segment \<times> seal_request"

record seal_marker =
  sm_source :: origin
  sm_last_sequence :: int
  sm_run_id :: "string option"
  sm_segment_id :: string
  sm_terminal :: bool
  sm_resumable :: bool
  sm_branch_ids :: "string list"
  sm_manifest_digest :: "string option"
  sm_seal_digest :: string

record seal_stats =
  c_sealed :: nat
  c_unqueued :: nat
  c_forced :: nat
  c_late :: nat
  c_errors :: nat
  c_worker_failures :: nat
  c_dropped :: nat
  c_freed_inline :: nat

record seals =
  z_segments :: "(string \<times> open_segment) list"
  z_ready :: "ready_seal list"
  z_ready_positions :: int
  z_dropped_since_drain :: bool
  z_building :: nat
  z_worker :: bool
  z_reclaim :: "open_segment list"
  z_reclaim_positions :: int
  z_reclaim_segments :: int
  z_reclaimer :: bool
  z_stats :: seal_stats
  z_taken :: "ready_seal list"
  z_built :: "ready_seal list"
  z_queued :: "seal_marker list"
  z_freeing :: "nat list"

definition init_state :: seals where
  "init_state = \<lparr>z_segments = [], z_ready = [], z_ready_positions = 0, z_dropped_since_drain = False, z_building = 0,
     z_worker = False, z_reclaim = [], z_reclaim_positions = 0, z_reclaim_segments = 0, z_reclaimer = False,
     z_stats = \<lparr>c_sealed = 0, c_unqueued = 0, c_forced = 0, c_late = 0, c_errors = 0, c_worker_failures = 0, c_dropped = 0, c_freed_inline = 0\<rparr>,
     z_taken = [], z_built = [], z_queued = [], z_freeing = []\<rparr>"

definition count_stat :: "((nat \<Rightarrow> nat) \<Rightarrow> seal_stats \<Rightarrow> seal_stats) \<Rightarrow> seals \<Rightarrow> seals" where
  "count_stat upd z = z\<lparr>z_stats := upd Suc (z_stats z)\<rparr>"

text \<open>What the calling thread must release once it holds no lock (\<^verbatim>\<open>_Held\<close>).\<close>

record held =
  hd_depth :: int
  hd_deferred :: "open_segment list"

definition hold :: "held \<Rightarrow> held" where
  "hold h = h\<lparr>hd_depth := hd_depth h + 1\<rparr>"

definition unhold :: "held \<Rightarrow> held" where
  "unhold h = (let d = hd_depth h - 1 in if d \<le> 0 then \<lparr>hd_depth = 0, hd_deferred = []\<rparr> else h\<lparr>hd_depth := d\<rparr>)"

definition release_deferred :: "held \<Rightarrow> held" where
  "release_deferred h = (if hd_deferred h \<noteq> [] \<and> hd_depth h \<le> 0 then h\<lparr>hd_deferred := []\<rparr> else h)"

subsection \<open>Handing a segment off\<close>

definition MAX_PENDING_SEALS :: nat where "MAX_PENDING_SEALS = 4096"
definition MAX_PENDING_SEAL_POSITIONS :: int where "MAX_PENDING_SEAL_POSITIONS = 262144"
definition MAX_RECLAIM_POSITIONS :: int where "MAX_RECLAIM_POSITIONS = 4 * MAX_PENDING_SEAL_POSITIONS"
definition MAX_RECLAIM_SEGMENTS :: int where "MAX_RECLAIM_SEGMENTS = int MAX_PENDING_SEALS"

datatype thread = Seal_worker | Reclaimer

text \<open>\<open>can_make\<close>: whether \<^verbatim>\<open>_new_thread\<close> can construct a thread.\<close>

definition discard :: "bool \<Rightarrow> open_segment \<Rightarrow> int \<Rightarrow> held \<times> seals \<Rightarrow> thread option \<times> held \<times> seals" where
  "discard can_make s positions hz =
     (case hz of (h, z) \<Rightarrow>
        if z_reclaim_positions z + positions > MAX_RECLAIM_POSITIONS \<or> z_reclaim_segments z \<ge> MAX_RECLAIM_SEGMENTS
        then (None, h\<lparr>hd_deferred := hd_deferred h @ [s]\<rparr>, count_stat c_freed_inline_update z)
        else
          let z1 = z\<lparr>z_reclaim := z_reclaim z @ [s], z_reclaim_positions := z_reclaim_positions z + positions,
                     z_reclaim_segments := z_reclaim_segments z + 1\<rparr>
          in if z_reclaimer z1 then (None, h, z1)
             else if can_make then (Some Reclaimer, h, z1\<lparr>z_reclaimer := True\<rparr>)
             else (None, h, count_stat c_worker_failures_update z1))"

definition pending_full :: "seals \<Rightarrow> int \<Rightarrow> bool" where
  "pending_full z positions \<longleftrightarrow> z_ready z \<noteq> [] \<and> (length (z_ready z) \<ge> MAX_PENDING_SEALS \<or>
     z_ready_positions z + z_reclaim_positions z + positions > MAX_PENDING_SEAL_POSITIONS)"

definition hand_off :: "bool \<Rightarrow> string \<Rightarrow> open_segment \<Rightarrow> held \<times> seals \<Rightarrow> thread option \<times> held \<times> seals" where
  "hand_off can_make i s hz =
     (case (hz, os_request s) of
        ((h, z), None) \<Rightarrow> (None, h, z)
      | ((h, z), Some q) \<Rightarrow>
          if os_outstanding s > 0 then (None, h, z)
          else
            let z1 = z\<lparr>z_segments := AList.delete i (z_segments z)\<rparr>; positions = int (length (os_entries s)) in
            if pending_full z1 positions
            then discard can_make s positions (h, count_stat c_dropped_update (z1\<lparr>z_dropped_since_drain := True\<rparr>))
            else
              let z2 = z1\<lparr>z_ready := z_ready z1 @ [(i, s, q)], z_ready_positions := z_ready_positions z1 + positions\<rparr>
              in if z_worker z2 then (None, h, z2)
                 else if can_make then (Some Seal_worker, h, z2\<lparr>z_worker := True\<rparr>)
                 else (None, h, count_stat c_worker_failures_update z2))"

text \<open>\<^verbatim>\<open>_start\<close>: whether the thread started, and the state with a thread that could not start forgotten.\<close>

definition start :: "bool \<Rightarrow> thread option \<Rightarrow> seals \<Rightarrow> bool \<times> seals" where
  "start can_start th z =
     (case th of
        None \<Rightarrow> (False, z)
      | Some t \<Rightarrow>
          if can_start then (True, z)
          else (False, count_stat c_worker_failures_update
             (case t of Seal_worker \<Rightarrow> z\<lparr>z_worker := False\<rparr> | Reclaimer \<Rightarrow> z\<lparr>z_reclaimer := False\<rparr>)))"

subsection \<open>The protocol\<close>

text \<open>What reading the bound allocator gives: a raise, or the source it reports (none when unbound).\<close>

type_synonym bound = "unit + origin option"

definition note_job :: "string \<Rightarrow> string \<Rightarrow> int \<Rightarrow> string option \<Rightarrow> seals \<Rightarrow> seals" where
  "note_job i source_id epoch run_id z =
     (case map_of (z_segments z) i of
        None \<Rightarrow> z
      | Some s \<Rightarrow> z\<lparr>z_segments := AList.update i
          (s\<lparr>os_source := (case os_source s of None \<Rightarrow> Some (source_id, epoch) | Some k \<Rightarrow> Some k),
             os_run_id := (if os_run_id s = None \<or> os_run_id s = Some [] then run_id else os_run_id s)\<rparr>) (z_segments z)\<rparr>)"

text \<open>\<open>forced_at\<close> is the forced-seal length; the flag tells that \<^verbatim>\<open>on_forced\<close> is called after the lock is released.\<close>

definition count_allocated :: "nat \<Rightarrow> string \<Rightarrow> origin option \<Rightarrow> seals \<Rightarrow> bool \<times> seals" where
  "count_allocated forced_at i src z =
     (let s = (case map_of (z_segments z) i of None \<Rightarrow> fresh_segment src | Some s \<Rightarrow> s);
          s1 = s\<lparr>os_outstanding := os_outstanding s + 1\<rparr>;
          forced = (\<not> os_forced s1 \<and> int (length (os_entries s1)) + os_outstanding s1 \<ge> int forced_at);
          s2 = s1\<lparr>os_forced := os_forced s1 \<or> forced\<rparr>;
          z1 = z\<lparr>z_segments := AList.update i s2 (z_segments z)\<rparr>
      in (forced, if forced then count_stat c_forced_update z1 else z1))"

definition note_allocated :: "nat \<Rightarrow> bound \<Rightarrow> string \<Rightarrow> int \<Rightarrow> seals \<Rightarrow> bool \<times> seals" where
  "note_allocated forced_at b i n z =
     (case b of Inl u \<Rightarrow> (False, count_stat c_errors_update z) | Inr src \<Rightarrow> count_allocated forced_at i src z)"

text \<open>The part of \<^verbatim>\<open>settle\<close> under the lock; the flag tells an early return, which skips the release of deferred state.\<close>

definition settle_locked :: "bool \<Rightarrow> string \<Rightarrow> int \<Rightarrow> compact \<Rightarrow> held \<times> seals \<Rightarrow> bool \<times> thread option \<times> held \<times> seals" where
  "settle_locked can_make i n c hz =
     (case hz of (h, z) \<Rightarrow>
        (case map_of (z_segments z) i of
           None \<Rightarrow> (True, None, h, count_stat c_late_update z)
         | Some s \<Rightarrow>
             if n \<in> fst ` set (os_entries s) then (True, None, h, z)
             else
               let s' = s\<lparr>os_entries := os_entries s @ [(n, c)], os_outstanding := max 0 (os_outstanding s - 1)\<rparr>
               in (False, hand_off can_make i s' (h, z\<lparr>z_segments := AList.update i s' (z_segments z)\<rparr>))))"

definition settle :: "bool \<Rightarrow> bool \<Rightarrow> string \<Rightarrow> int \<Rightarrow> string \<Rightarrow> held \<times> seals \<Rightarrow> held \<times> seals" where
  "settle can_make can_start i n e hz =
     (case compact_entry e of
        None \<Rightarrow> (release_deferred (fst hz), count_stat c_errors_update (snd hz))
      | Some c \<Rightarrow>
          (case settle_locked can_make i n c hz of
             (True, th, h, z) \<Rightarrow> (h, z)
           | (False, th, h, z) \<Rightarrow> (release_deferred h, snd (start can_start th z))))"

definition make_request :: "int \<Rightarrow> string option \<Rightarrow> bool \<Rightarrow> bool \<Rightarrow> string list \<Rightarrow> string option \<Rightarrow> string option \<Rightarrow> int option \<Rightarrow> seal_request" where
  "make_request last_seq manifest_digest terminal resumable branch_ids run_id source_id epoch =
     \<lparr>rq_last_sequence = last_seq, rq_manifest_digest = manifest_digest, rq_terminal = terminal, rq_resumable = resumable,
      rq_branch_ids = branch_ids, rq_run_id = run_id,
      rq_source = (case (source_id, epoch) of (Some s, Some e) \<Rightarrow> Some (s, e) | _ \<Rightarrow> None)\<rparr>"

definition request_locked :: "bool \<Rightarrow> origin option \<Rightarrow> string \<Rightarrow> seal_request \<Rightarrow> held \<times> seals \<Rightarrow> thread option \<times> held \<times> seals" where
  "request_locked can_make src i q hz =
     (case hz of (h, z) \<Rightarrow>
        let s = (case map_of (z_segments z) i of None \<Rightarrow> fresh_segment src | Some s \<Rightarrow> s); s' = s\<lparr>os_request := Some q\<rparr>
        in hand_off can_make i s' (h, z\<lparr>z_segments := AList.update i s' (z_segments z)\<rparr>))"

text \<open>The bound allocator is read for an unknown segment only; its raise leaves no segment behind.\<close>

definition request_seal :: "bool \<Rightarrow> bool \<Rightarrow> bound \<Rightarrow> string \<Rightarrow> seal_request \<Rightarrow> held \<times> seals \<Rightarrow> held \<times> seals" where
  "request_seal can_make can_start b i q hz =
     (case (map_of (z_segments (snd hz)) i, b) of
        (None, Inl u) \<Rightarrow> (release_deferred (fst hz), count_stat c_errors_update (snd hz))
      | (_, src) \<Rightarrow>
          (case request_locked can_make (case src of Inl u \<Rightarrow> None | Inr k \<Rightarrow> k) i q hz of
             (th, h, z) \<Rightarrow> (release_deferred h, snd (start can_start th z))))"

definition outstanding :: "string \<Rightarrow> seals \<Rightarrow> int" where
  "outstanding i z = (case map_of (z_segments z) i of None \<Rightarrow> 0 | Some s \<Rightarrow> os_outstanding s)"

definition dropped :: "seals \<Rightarrow> nat" where
  "dropped z = c_dropped (z_stats z)"

definition expand_entries :: "(int \<times> compact) list \<Rightarrow> (int \<times> string) list" where
  "expand_entries es = map (\<lambda>(n, c). (n, expand_entry c)) es"

definition segment_entries :: "string \<Rightarrow> seals \<Rightarrow> (int \<times> string) list" where
  "segment_entries i z = (case map_of (z_segments z) i of None \<Rightarrow> [] | Some s \<Rightarrow> expand_entries (sort_key fst (os_entries s)))"

definition seals_pending :: "seals \<Rightarrow> nat" where
  "seals_pending z = length (z_ready z) + z_building z"

subsection \<open>Building seals\<close>

datatype sink_answer = No_sink | Queued | Refused | Raises

text \<open>\<^verbatim>\<open>Marker.__post_init__\<close> for a seal marker: the segment id and the branch ids are checked.\<close>

definition marker_valid :: "seal_marker \<Rightarrow> bool" where
  "marker_valid m \<longleftrightarrow> segment_id_re (sm_segment_id m) \<and> length (sm_branch_ids m) \<le> 64 \<and> list_all branch_id_re (sm_branch_ids m)"

definition first_some :: "'a option \<Rightarrow> 'a option \<Rightarrow> 'a option" where
  "first_some a b = (case a of None \<Rightarrow> b | Some x \<Rightarrow> Some x)"

definition marker_of :: "ready_seal \<Rightarrow> origin \<Rightarrow> string \<Rightarrow> seal_marker" where
  "marker_of r src digest =
     (case r of (i, s, q) \<Rightarrow>
        \<lparr>sm_source = src, sm_last_sequence = rq_last_sequence q,
         sm_run_id = (if rq_run_id q = None \<or> rq_run_id q = Some [] then os_run_id s else rq_run_id q), sm_segment_id = i,
         sm_terminal = rq_terminal q, sm_resumable = rq_resumable q, sm_branch_ids = rq_branch_ids q,
         sm_manifest_digest = rq_manifest_digest q, sm_seal_digest = digest\<rparr>)"

text \<open>\<^verbatim>\<open>_emit\<close>: \<open>None\<close> is a raise.\<close>

definition emit :: "(string \<Rightarrow> string) \<Rightarrow> sink_answer \<Rightarrow> ready_seal \<Rightarrow> seals \<Rightarrow> seals option" where
  "emit SH ans r z =
     (case r of (i, s, q) \<Rightarrow>
        (case seal_digest SH (expand_entries (os_entries s)) of
           None \<Rightarrow> None
         | Some digest \<Rightarrow>
             (case first_some (rq_source q) (os_source s) of
                None \<Rightarrow> Some (count_stat c_unqueued_update z)
              | Some src \<Rightarrow>
                  let m = marker_of r src digest in
                  if \<not> marker_valid m \<or> ans = Raises then None
                  else if ans = Queued then Some (count_stat c_sealed_update (z\<lparr>z_queued := z_queued z @ [m]\<rparr>))
                  else Some (count_stat c_unqueued_update (count_stat c_sealed_update z)))))"

definition take_next :: "seals \<Rightarrow> seals option" where
  "take_next z =
     (case z_ready z of
        [] \<Rightarrow> None
      | r # rest \<Rightarrow> Some (z\<lparr>z_ready := rest, z_ready_positions := z_ready_positions z - int (length (os_entries (fst (snd r)))),
          z_building := z_building z + 1, z_taken := [r]\<rparr>))"

definition finish_build :: "(string \<Rightarrow> string) \<Rightarrow> sink_answer \<Rightarrow> seals \<Rightarrow> seals" where
  "finish_build SH ans z =
     (case z_taken z of
        [] \<Rightarrow> z
      | r # rest \<Rightarrow>
          let z1 = (case emit SH ans r z of None \<Rightarrow> count_stat c_errors_update z | Some z' \<Rightarrow> z')
          in z1\<lparr>z_building := z_building z1 - 1, z_taken := [], z_built := z_built z1 @ [r]\<rparr>)"

definition build_next :: "(string \<Rightarrow> string) \<Rightarrow> sink_answer \<Rightarrow> seals \<Rightarrow> bool \<times> seals" where
  "build_next SH ans z = (case take_next z of None \<Rightarrow> (False, z) | Some z1 \<Rightarrow> (True, finish_build SH ans z1))"

text \<open>The seal worker and the reclaimer, one turn of their loops; \<open>None\<close>: the thread exits.\<close>

definition work_turn :: "(string \<Rightarrow> string) \<Rightarrow> sink_answer \<Rightarrow> seals \<Rightarrow> bool \<times> seals" where
  "work_turn SH ans z = (if z_ready z = [] then (False, z\<lparr>z_worker := False\<rparr>) else (True, snd (build_next SH ans z)))"

definition reclaim_take :: "seals \<Rightarrow> seals" where
  "reclaim_take z =
     (case z_reclaim z of
        [] \<Rightarrow> z\<lparr>z_reclaimer := False\<rparr>
      | s # rest \<Rightarrow> z\<lparr>z_reclaim := rest, z_freeing := z_freeing z @ [length (os_entries s)]\<rparr>)"

definition reclaim_done :: "seals \<Rightarrow> seals" where
  "reclaim_done z =
     (case z_freeing z of
        [] \<Rightarrow> z
      | n # rest \<Rightarrow> z\<lparr>z_freeing := rest, z_reclaim_positions := z_reclaim_positions z - int n, z_reclaim_segments := z_reclaim_segments z - 1\<rparr>)"

text \<open>One turn of \<^verbatim>\<open>_drain\<close>: \<open>expired\<close> tells that a bounded drain's deadline passed.\<close>

datatype drain_result = Drained bool | Waiting | Started | Built

definition drain_turn :: "(string \<Rightarrow> string) \<Rightarrow> sink_answer \<Rightarrow> bool \<Rightarrow> bool \<Rightarrow> bool \<Rightarrow> bool \<Rightarrow> seals \<Rightarrow> drain_result \<times> seals" where
  "drain_turn SH ans bounded expired can_make can_start z =
     (if z_ready z = [] \<and> z_building z = 0 then (Drained (\<not> z_dropped_since_drain z), z\<lparr>z_dropped_since_drain := False\<rparr>)
      else if \<not> z_worker z \<and> z_ready z \<noteq> [] then
        let (th, z1) = (if can_make then (Some Seal_worker, z\<lparr>z_worker := True\<rparr>) else (None, count_stat c_worker_failures_update z)) in
        if th = None \<and> bounded then (Drained False, z1)
        else (case start can_start th z1 of
                (True, z2) \<Rightarrow> (Started, z2)
              | (False, z2) \<Rightarrow> if bounded then (Drained False, z2) else (Built, snd (build_next SH ans z2)))
      else if bounded \<and> expired then (Drained False, z)
      else (Waiting, z))"

end
