(* ===== verification/SealRules.thy ===== *)
theory SealRules
  imports Seals
begin

text \<open>
  The accumulator as a state machine: its steps, the accounting and the bounds every reachable state keeps,
  the log of seals an abstract accumulator without queue or threads would write, and that the concrete one
  refines it.
\<close>

subsection \<open>Steps\<close>

datatype seal_event = Alloc string int | Settled string int compact | Requested string seal_request | Quiet

inductive seal_step :: "nat \<Rightarrow> (string \<Rightarrow> string) \<Rightarrow> seals \<Rightarrow> seal_event \<Rightarrow> seals \<Rightarrow> bool" for forced_at SH where
  allocate: "note_allocated forced_at (Inr src) i n z = (forced, z') \<Longrightarrow> seal_step forced_at SH z (Alloc i n) z'"
| settled: "settle_locked can_make i n c (h, z) = (early, th, h', z') \<Longrightarrow> seal_step forced_at SH z (Settled i n c) z'"
| request: "request_locked can_make src i q (h, z) = (th, h', z') \<Longrightarrow> seal_step forced_at SH z (Requested i q) z'"
| job: "seal_step forced_at SH z Quiet (note_job i source_id epoch run_id z)"
| failed: "seal_step forced_at SH z Quiet (count_stat c_errors_update z)"
| not_started: "seal_step forced_at SH z Quiet (snd (start False (Some t) z))"
| taken: "z_taken z = [] \<Longrightarrow> take_next z = Some z' \<Longrightarrow> seal_step forced_at SH z Quiet z'"
| built: "z_taken z \<noteq> [] \<Longrightarrow> seal_step forced_at SH z Quiet (finish_build SH ans z)"
| retired: "z_ready z = [] \<Longrightarrow> seal_step forced_at SH z Quiet (z\<lparr>z_worker := False\<rparr>)"
| freeing: "seal_step forced_at SH z Quiet (reclaim_take z)"
| freed: "seal_step forced_at SH z Quiet (reclaim_done z)"
| drained: "seal_step forced_at SH z Quiet (z\<lparr>z_dropped_since_drain := False\<rparr>)"
| restarted: "seal_step forced_at SH z Quiet (z\<lparr>z_worker := True\<rparr>)"

inductive seal_run :: "nat \<Rightarrow> (string \<Rightarrow> string) \<Rightarrow> seal_event list \<Rightarrow> seals \<Rightarrow> bool" for forced_at SH where
  initial: "seal_run forced_at SH [] init_state"
| extend: "seal_run forced_at SH evs z \<Longrightarrow> seal_step forced_at SH z ev z' \<Longrightarrow> seal_run forced_at SH (evs @ [ev]) z'"

subsection \<open>What a hand-off does\<close>

definition log_of :: "seals \<Rightarrow> ready_seal list" where
  "log_of z = z_built z @ z_taken z @ z_ready z"

definition sealable :: "open_segment \<Rightarrow> bool" where
  "sealable s \<longleftrightarrow> os_request s \<noteq> None \<and> os_outstanding s \<le> 0"

definition positions_of :: "open_segment list \<Rightarrow> int" where
  "positions_of ss = (\<Sum>s\<leftarrow>ss. int (length (os_entries s)))"

lemma positions_of_simps [simp]:
  "positions_of [] = 0" "positions_of (s # ss) = int (length (os_entries s)) + positions_of ss"
  "positions_of (ss @ ts) = positions_of ss + positions_of ts"
  by (simp_all add: positions_of_def)

lemma positions_of_nonneg [simp]: "0 \<le> positions_of ss"
  by (induction ss) simp_all

lemma sum_ints_nonneg [simp]: "0 \<le> sum_list (map int ns)"
  by (induction ns) simp_all

definition ready_segments :: "seals \<Rightarrow> open_segment list" where
  "ready_segments z = map (\<lambda>r. fst (snd r)) (z_ready z)"

text \<open>The counters, the bounds, and one builder at a time.\<close>

definition accounts_ok :: "seals \<Rightarrow> bool" where
  "accounts_ok z \<longleftrightarrow>
     z_ready_positions z = positions_of (ready_segments z) \<and>
     z_reclaim_positions z = positions_of (z_reclaim z) + (\<Sum>n\<leftarrow>z_freeing z. int n) \<and>
     z_reclaim_segments z = int (length (z_reclaim z)) + int (length (z_freeing z)) \<and>
     length (z_ready z) \<le> MAX_PENDING_SEALS \<and>
     (length (z_ready z) \<le> 1 \<or> z_ready_positions z \<le> MAX_PENDING_SEAL_POSITIONS) \<and>
     z_reclaim_positions z \<le> MAX_RECLAIM_POSITIONS \<and> z_reclaim_segments z \<le> MAX_RECLAIM_SEGMENTS \<and>
     z_building z = length (z_taken z) \<and> length (z_taken z) \<le> 1"

text \<open>Open segments have a count that is not negative and one entry per position, and none of them could seal.\<close>

definition segment_wf :: "open_segment \<Rightarrow> bool" where
  "segment_wf s \<longleftrightarrow> distinct (map fst (os_entries s)) \<and> 0 \<le> os_outstanding s"

definition segments_wf :: "seals \<Rightarrow> bool" where
  "segments_wf z \<longleftrightarrow> distinct (map fst (z_segments z)) \<and>
     (\<forall>i s. map_of (z_segments z) i = Some s \<longrightarrow> segment_wf s \<and> \<not> sealable s) \<and>
     (\<forall>(i, s, q)\<in>set (log_of z). segment_wf s \<and> os_request s = Some q \<and> os_outstanding s = 0)"

lemma pending_full_segments [simp]: "pending_full (z\<lparr>z_segments := x\<rparr>) n = pending_full z n"
  by (simp add: pending_full_def)

lemma hand_off_cases:
  assumes "hand_off can_make i s (h, z) = (th, h', z')"
  obtains (kept) "\<not> sealable s" "z' = z"
  | (queued) q where "sealable s" "os_request s = Some q" "z_segments z' = AList.delete i (z_segments z)" "z_ready z' = z_ready z @ [(i, s, q)]"
      "log_of z' = log_of z @ [(i, s, q)]" "z_stats z' = z_stats z \<or> z_stats z' = z_stats (count_stat c_worker_failures_update z)"
      "accounts_ok z \<Longrightarrow> accounts_ok z'"
  | (dropped) "sealable s" "z_segments z' = AList.delete i (z_segments z)" "z_ready z' = z_ready z" "log_of z' = log_of z" "z_ready z \<noteq> []"
      "c_dropped (z_stats z') = Suc (c_dropped (z_stats z))" "accounts_ok z \<Longrightarrow> accounts_ok z'"
proof (cases "sealable s")
  case False
  then have "z' = z" using assms by (auto simp: hand_off_def sealable_def split: option.splits if_splits)
  with False show ?thesis by (rule kept)
next
  case True
  then obtain q where q: "os_request s = Some q" "\<not> os_outstanding s > 0" by (auto simp: sealable_def)
  let ?z1 = "z\<lparr>z_segments := AList.delete i (z_segments z)\<rparr>" and ?n = "int (length (os_entries s))"
  show ?thesis
  proof (cases "pending_full z ?n")
    case full: True
    have d: "discard can_make s ?n (h, count_stat c_dropped_update (?z1\<lparr>z_dropped_since_drain := True\<rparr>)) = (th, h', z')"
      using assms q full by (simp add: hand_off_def Let_def)
    show ?thesis
      by (rule dropped [OF True])
        (use d full in \<open>auto simp: pending_full_def discard_def Let_def count_stat_def log_of_def accounts_ok_def ready_segments_def split: if_splits\<close>)
  next
    case False
    let ?z2 = "?z1\<lparr>z_ready := z_ready z @ [(i, s, q)], z_ready_positions := z_ready_positions z + ?n\<rparr>"
    have z': "z' = ?z2 \<or> z' = ?z2\<lparr>z_worker := True\<rparr> \<or> z' = count_stat c_worker_failures_update ?z2"
      using assms q False by (auto simp: hand_off_def Let_def split: if_splits)
    have ok: "accounts_ok ?z2" if "accounts_ok z"
      using that False positions_of_nonneg [of "z_reclaim z"] sum_ints_nonneg [of "z_freeing z"]
      by (auto simp: pending_full_def accounts_ok_def ready_segments_def MAX_PENDING_SEALS_def simp del: positions_of_nonneg sum_ints_nonneg)
    have same: "accounts_ok (?z2\<lparr>z_worker := True\<rparr>) = accounts_ok ?z2" "accounts_ok (count_stat c_worker_failures_update ?z2) = accounts_ok ?z2"
      by (simp_all add: accounts_ok_def ready_segments_def count_stat_def)
    show ?thesis
      by (rule queued [OF True q(1)]) (use z' ok same in \<open>auto simp: count_stat_def log_of_def\<close>)
  qed
qed

subsection \<open>The invariant\<close>

definition seals_inv :: "seals \<Rightarrow> bool" where
  "seals_inv z \<longleftrightarrow> accounts_ok z \<and> segments_wf z"

text \<open>Steps that change neither the open segments nor the log.\<close>

definition same_content :: "seals \<Rightarrow> seals \<Rightarrow> bool" where
  "same_content z z' \<longleftrightarrow> z_segments z' = z_segments z \<and> log_of z' = log_of z \<and> c_dropped (z_stats z') = c_dropped (z_stats z)"

lemma same_content_wf: "same_content z z' \<Longrightarrow> segments_wf z \<Longrightarrow> segments_wf z'"
  by (simp add: same_content_def segments_wf_def)

lemma emit_frame:
  assumes "emit SH ans r z = Some z'"
  shows "z' = z\<lparr>z_stats := z_stats z', z_queued := z_queued z'\<rparr>" "c_dropped (z_stats z') = c_dropped (z_stats z)"
  using assms by (auto simp: emit_def Let_def count_stat_def split: prod.splits option.splits if_splits)

lemma finish_build_frame:
  assumes "z_taken z = [r]"
  obtains st qd where "finish_build SH ans z = z\<lparr>z_stats := st, z_queued := qd, z_building := z_building z - 1, z_taken := [],
      z_built := z_built z @ [r]\<rparr>" "c_dropped st = c_dropped (z_stats z)"
proof (cases "emit SH ans r z")
  case None
  show ?thesis
    by (rule that [where st = "z_stats (count_stat c_errors_update z)" and qd = "z_queued z"]) (simp_all add: finish_build_def assms None count_stat_def)
next
  case (Some z')
  obtain st qd where z': "z' = z\<lparr>z_stats := st, z_queued := qd\<rparr>" "c_dropped st = c_dropped (z_stats z)"
    using emit_frame [OF Some] by metis
  show ?thesis
    by (rule that [where st = st and qd = qd]) (simp_all add: finish_build_def assms Some z')
qed

lemma accounts_frame [simp]:
  "accounts_ok (z\<lparr>z_worker := b\<rparr>) = accounts_ok z" "accounts_ok (z\<lparr>z_reclaimer := b\<rparr>) = accounts_ok z"
  "accounts_ok (z\<lparr>z_segments := ss\<rparr>) = accounts_ok z" "accounts_ok (z\<lparr>z_dropped_since_drain := b\<rparr>) = accounts_ok z"
  "accounts_ok (z\<lparr>z_stats := st\<rparr>) = accounts_ok z" "accounts_ok (z\<lparr>z_queued := qd\<rparr>) = accounts_ok z"
  "accounts_ok (count_stat upd z) = accounts_ok z"
  by (simp_all add: accounts_ok_def ready_segments_def count_stat_def)

lemma same_content_frame [simp]:
  "same_content z (z\<lparr>z_worker := b\<rparr>)" "same_content z (z\<lparr>z_dropped_since_drain := b\<rparr>)" "same_content z (count_stat c_errors_update z)"
  "same_content z (snd (start False (Some t) z))" "same_content z (reclaim_take z)" "same_content z (reclaim_done z)"
  by (simp_all add: same_content_def log_of_def count_stat_def start_def reclaim_take_def reclaim_done_def split: thread.splits list.splits)

lemma take_next_ok:
  assumes "take_next z = Some z'" and "z_taken z = []" and "accounts_ok z"
  shows "accounts_ok z'" "same_content z z'"
  using assms by (auto simp: take_next_def accounts_ok_def ready_segments_def same_content_def log_of_def split: list.splits)

lemma finish_build_ok:
  assumes "z_taken z \<noteq> []" and "accounts_ok z"
  shows "accounts_ok (finish_build SH ans z)" "same_content z (finish_build SH ans z)"
proof -
  obtain r where r: "z_taken z = [r]" using assms by (cases "z_taken z") (auto simp: accounts_ok_def)
  obtain st qd where f: "finish_build SH ans z = z\<lparr>z_stats := st, z_queued := qd, z_building := z_building z - 1, z_taken := [],
      z_built := z_built z @ [r]\<rparr>" "c_dropped st = c_dropped (z_stats z)" by (rule finish_build_frame [OF r])
  show "accounts_ok (finish_build SH ans z)" "same_content z (finish_build SH ans z)"
    unfolding f(1) using assms(2) f(2) r by (auto simp: accounts_ok_def ready_segments_def same_content_def log_of_def)
qed

lemma reclaim_ok:
  assumes "accounts_ok z"
  shows "accounts_ok (reclaim_take z)" "accounts_ok (reclaim_done z)"
  using assms by (auto simp: reclaim_take_def reclaim_done_def accounts_ok_def ready_segments_def split: list.splits)

lemma note_job_accounts [simp]: "accounts_ok (note_job i source_id epoch run_id z) = accounts_ok z"
  by (simp add: note_job_def split: option.splits)

lemma start_accounts [simp]: "accounts_ok (snd (start False (Some t) z)) = accounts_ok z"
  by (cases t) (simp_all add: start_def)

lemma quiet_content:
  assumes "seal_step forced_at SH z Quiet z'" and "accounts_ok z"
  shows "accounts_ok z' \<and> (same_content z z' \<or> (\<exists>i source_id epoch run_id. z' = note_job i source_id epoch run_id z))"
  using assms(1)
proof (cases rule: seal_step.cases)
  case job
  then show ?thesis using assms(2) by (metis note_job_accounts)
qed (use assms(2) take_next_ok finish_build_ok reclaim_ok in auto)

lemma accounts_run:
  assumes "hand_off can_make i s (h, z\<lparr>z_segments := ss\<rparr>) = (th, h', z')" and "accounts_ok z"
  shows "accounts_ok z'"
  using assms(2) by (cases rule: hand_off_cases [OF assms(1)]) simp_all

lemma accounts_step:
  assumes "seal_step forced_at SH z ev z'" and "accounts_ok z"
  shows "accounts_ok z'"
proof (cases ev)
  case (Alloc i n)
  with assms show ?thesis by (auto elim!: seal_step.cases simp: note_allocated_def count_allocated_def Let_def split: if_splits)
next
  case (Settled i n c)
  with assms show ?thesis
    by (auto elim!: seal_step.cases simp: settle_locked_def Let_def split: option.splits if_splits dest: accounts_run)
next
  case (Requested i q)
  with assms show ?thesis by (auto elim!: seal_step.cases simp: request_locked_def Let_def dest: accounts_run)
next
  case Quiet
  with assms quiet_content show ?thesis by blast
qed

lemma accounts_reachable: "seal_run forced_at SH evs z \<Longrightarrow> accounts_ok z"
proof (induction rule: seal_run.induct)
  case initial
  show ?case by (simp add: init_state_def accounts_ok_def ready_segments_def MAX_RECLAIM_POSITIONS_def MAX_PENDING_SEAL_POSITIONS_def
        MAX_RECLAIM_SEGMENTS_def)
qed (rule accounts_step)

end
