(* ===== verification/SealSpec.thy ===== *)
theory SealSpec
  imports SealRules
begin

text \<open>
  What the accumulator promises, without queue, threads, bounds or counters: per segment a map from
  positions to their first outcome and the number of positions still out, and a log of the seals in the
  order their segments became complete. A segment that could seal is logged or, past a bound, dropped.
\<close>

subsection \<open>The abstract accumulator\<close>

record spec_segment =
  p_outcomes :: "int \<rightharpoonup> compact"
  p_outstanding :: int
  p_request :: "seal_request option"

record seal_spec =
  a_open :: "string \<rightharpoonup> spec_segment"
  a_log :: "(string \<times> (int \<rightharpoonup> compact) \<times> seal_request) list"
  a_dropped :: nat

definition spec_fresh :: spec_segment where
  "spec_fresh = \<lparr>p_outcomes = Map.empty, p_outstanding = 0, p_request = None\<rparr>"

definition spec_init :: seal_spec where
  "spec_init = \<lparr>a_open = Map.empty, a_log = [], a_dropped = 0\<rparr>"

definition spec_get :: "seal_spec \<Rightarrow> string \<Rightarrow> spec_segment" where
  "spec_get a i = (case a_open a i of None \<Rightarrow> spec_fresh | Some p \<Rightarrow> p)"

inductive closes :: "string \<Rightarrow> spec_segment \<Rightarrow> seal_spec \<Rightarrow> seal_spec \<Rightarrow> bool" where
  stays: "p_request p = None \<or> p_outstanding p > 0 \<Longrightarrow> closes i p a (a\<lparr>a_open := (a_open a)(i \<mapsto> p)\<rparr>)"
| seals: "p_request p = Some q \<Longrightarrow> p_outstanding p \<le> 0 \<Longrightarrow>
    closes i p a (a\<lparr>a_open := (a_open a)(i := None), a_log := a_log a @ [(i, p_outcomes p, q)]\<rparr>)"
| drops: "p_request p = Some q \<Longrightarrow> p_outstanding p \<le> 0 \<Longrightarrow>
    closes i p a (a\<lparr>a_open := (a_open a)(i := None), a_dropped := Suc (a_dropped a)\<rparr>)"

inductive spec_step :: "seal_spec \<Rightarrow> seal_event \<Rightarrow> seal_spec \<Rightarrow> bool" where
  allocate: "p = spec_get a i \<Longrightarrow> spec_step a (Alloc i n) (a\<lparr>a_open := (a_open a)(i \<mapsto> p\<lparr>p_outstanding := p_outstanding p + 1\<rparr>)\<rparr>)"
| late: "a_open a i = None \<Longrightarrow> spec_step a (Settled i n c) a"
| again: "a_open a i = Some p \<Longrightarrow> n \<in> dom (p_outcomes p) \<Longrightarrow> spec_step a (Settled i n c) a"
| first: "a_open a i = Some p \<Longrightarrow> n \<notin> dom (p_outcomes p) \<Longrightarrow>
    closes i (p\<lparr>p_outcomes := (p_outcomes p)(n \<mapsto> c), p_outstanding := max 0 (p_outstanding p - 1)\<rparr>) a a' \<Longrightarrow>
    spec_step a (Settled i n c) a'"
| request: "closes i ((spec_get a i)\<lparr>p_request := Some q\<rparr>) a a' \<Longrightarrow> spec_step a (Requested i q) a'"
| quiet: "spec_step a Quiet a"

inductive spec_run :: "seal_event list \<Rightarrow> seal_spec \<Rightarrow> bool" where
  initial: "spec_run [] spec_init"
| extend: "spec_run evs a \<Longrightarrow> spec_step a ev a' \<Longrightarrow> spec_run (evs @ [ev]) a'"

inductive_cases spec_allocE: "spec_step a (Alloc i n) a'"
inductive_cases spec_settledE: "spec_step a (Settled i n c) a'"
inductive_cases spec_requestedE: "spec_step a (Requested i q) a'"
inductive_cases spec_quietE: "spec_step a Quiet a'"

subsection \<open>Refinement\<close>

definition abs_segment :: "open_segment \<Rightarrow> spec_segment" where
  "abs_segment s = \<lparr>p_outcomes = map_of (os_entries s), p_outstanding = os_outstanding s, p_request = os_request s\<rparr>"

definition abs_seals :: "seals \<Rightarrow> seal_spec" where
  "abs_seals z = \<lparr>a_open = (\<lambda>i. map_option abs_segment (map_of (z_segments z) i)),
     a_log = map (\<lambda>(i, s, q). (i, map_of (os_entries s), q)) (log_of z), a_dropped = c_dropped (z_stats z)\<rparr>"

lemma abs_segment_simps [simp]:
  "p_outcomes (abs_segment s) = map_of (os_entries s)" "p_outstanding (abs_segment s) = os_outstanding s"
  "p_request (abs_segment s) = os_request s" "abs_segment (fresh_segment src) = spec_fresh"
  by (simp_all add: abs_segment_def fresh_segment_def spec_fresh_def)

lemma abs_same: "same_content z z' \<Longrightarrow> abs_seals z' = abs_seals z"
  by (simp add: same_content_def abs_seals_def)

lemma abs_get:
  "abs_segment (case map_of (z_segments z) i of None \<Rightarrow> fresh_segment src | Some s \<Rightarrow> s) = spec_get (abs_seals z) i"
  by (simp add: spec_get_def abs_seals_def split: option.splits)

lemma abs_update:
  "abs_seals (z\<lparr>z_segments := AList.update i s (z_segments z)\<rparr>) = (abs_seals z)\<lparr>a_open := (a_open (abs_seals z))(i \<mapsto> abs_segment s)\<rparr>"
  by (auto simp: abs_seals_def log_of_def update_conv' fun_eq_iff)

lemma log_segments [simp]: "log_of (z\<lparr>z_segments := ss\<rparr>) = log_of z"
  by (simp add: log_of_def)

lemma map_of_snoc_new: "k \<notin> fst ` set xs \<Longrightarrow> map_of (xs @ [(k, v)]) = (map_of xs)(k \<mapsto> v)"
  by (induction xs) (auto simp: fun_eq_iff)

lemma hand_off_closes:
  assumes "hand_off can_make i s (h, z\<lparr>z_segments := AList.update i s (z_segments z)\<rparr>) = (th, h', z')"
  shows "closes i (abs_segment s) (abs_seals z) (abs_seals z')"
proof (cases rule: hand_off_cases [OF assms])
  case 1
  have "closes i (abs_segment s) (abs_seals z) ((abs_seals z)\<lparr>a_open := (a_open (abs_seals z))(i \<mapsto> abs_segment s)\<rparr>)"
    by (rule closes.stays) (use 1 in \<open>auto simp: sealable_def\<close>)
  then show ?thesis using 1 by (simp add: abs_update)
next
  case (2 q)
  have "abs_seals z' = (abs_seals z)\<lparr>a_open := (a_open (abs_seals z))(i := None),
      a_log := a_log (abs_seals z) @ [(i, p_outcomes (abs_segment s), q)]\<rparr>"
    using 2 by (auto simp: abs_seals_def delete_conv' update_conv' fun_eq_iff count_stat_def)
  moreover have "closes i (abs_segment s) (abs_seals z) \<dots>" by (rule closes.seals) (use 2 in \<open>auto simp: sealable_def\<close>)
  ultimately show ?thesis by simp
next
  case 3
  then obtain q where q: "os_request s = Some q" by (auto simp: sealable_def)
  have "abs_seals z' = (abs_seals z)\<lparr>a_open := (a_open (abs_seals z))(i := None), a_dropped := Suc (a_dropped (abs_seals z))\<rparr>"
    using 3 by (auto simp: abs_seals_def delete_conv' update_conv' fun_eq_iff)
  moreover have "closes i (abs_segment s) (abs_seals z) \<dots>" by (rule closes.drops) (use 3 q in \<open>auto simp: sealable_def\<close>)
  ultimately show ?thesis by simp
qed

lemma abs_note_job: "abs_seals (note_job i source_id epoch run_id z) = abs_seals z"
  by (auto simp: note_job_def abs_seals_def log_of_def update_conv' fun_eq_iff abs_segment_def split: option.splits)

lemma step_refines:
  assumes "seal_step forced_at SH z ev z'" and "accounts_ok z"
  shows "spec_step (abs_seals z) ev (abs_seals z')"
  using assms(1)
proof (cases rule: seal_step.cases)
  case (allocate src i n forced)
  let ?p = "spec_get (abs_seals z) i"
  define s where "s = (case map_of (z_segments z) i of None \<Rightarrow> fresh_segment src | Some s \<Rightarrow> s)"
  let ?s2 = "s\<lparr>os_outstanding := os_outstanding s + 1, os_forced := os_forced s \<or> forced\<rparr>"
  let ?z1 = "z\<lparr>z_segments := AList.update i ?s2 (z_segments z)\<rparr>"
  have "z' = (if forced then count_stat c_forced_update ?z1 else ?z1)"
    using allocate(2)
    by (simp only: note_allocated_def count_allocated_def Let_def sum.case prod.inject s_def [symmetric] open_segment.simps)
      (elim conjE, hypsubst, simp)
  moreover have "abs_seals (count_stat c_forced_update w) = abs_seals w" for w by (simp add: abs_seals_def log_of_def count_stat_def)
  ultimately have "abs_seals z' = (abs_seals z)\<lparr>a_open := (a_open (abs_seals z))(i \<mapsto> abs_segment ?s2)\<rparr>" by (simp add: abs_update)
  moreover have "abs_segment ?s2 = ?p\<lparr>p_outstanding := p_outstanding ?p + 1\<rparr>"
    unfolding abs_get [symmetric, where z = z and i = i and src = src] s_def [symmetric] by (simp add: abs_segment_def)
  ultimately show ?thesis using spec_step.allocate [OF refl, of "abs_seals z" i n] allocate(1) by simp
next
  case (settled can_make i n c h early th h')
  show ?thesis
  proof (cases "map_of (z_segments z) i")
    case None
    then have "z' = count_stat c_late_update z" "a_open (abs_seals z) i = None" using settled by (auto simp: settle_locked_def abs_seals_def)
    moreover from this have "abs_seals z' = abs_seals z" by (simp add: abs_seals_def log_of_def count_stat_def)
    ultimately show ?thesis using settled by (auto intro: spec_step.late)
  next
    case (Some s)
    then have o: "a_open (abs_seals z) i = Some (abs_segment s)" by (simp add: abs_seals_def)
    have d: "dom (p_outcomes (abs_segment s)) = fst ` set (os_entries s)" by (simp add: dom_map_of_conv_image_fst)
    show ?thesis
    proof (cases "n \<in> fst ` set (os_entries s)")
      case True
      then have "z' = z" using settled Some by (auto simp: settle_locked_def)
      then show ?thesis using settled spec_step.again [OF o] True d by auto
    next
      case False
      let ?s = "s\<lparr>os_entries := os_entries s @ [(n, c)], os_outstanding := max 0 (os_outstanding s - 1)\<rparr>"
      from map_of_snoc_new [OF False, of c]
      have abs: "abs_segment ?s = (abs_segment s)\<lparr>p_outcomes := (p_outcomes (abs_segment s))(n \<mapsto> c),
          p_outstanding := max 0 (p_outstanding (abs_segment s) - 1)\<rparr>"
        by (simp add: abs_segment_def)
      have "hand_off can_make i ?s (h, z\<lparr>z_segments := AList.update i ?s (z_segments z)\<rparr>) = (th, h', z')"
        using settled Some False by (simp add: settle_locked_def Let_def)
      from hand_off_closes [OF this] show ?thesis using settled spec_step.first [OF o] False d unfolding abs by auto
    qed
  qed
next
  case (request can_make src i q h th h')
  let ?s = "case map_of (z_segments z) i of None \<Rightarrow> fresh_segment src | Some s \<Rightarrow> s"
  have "hand_off can_make i (?s\<lparr>os_request := Some q\<rparr>) (h, z\<lparr>z_segments := AList.update i (?s\<lparr>os_request := Some q\<rparr>) (z_segments z)\<rparr>) = (th, h', z')"
    using request by (simp add: request_locked_def Let_def)
  from hand_off_closes [OF this] have "closes i (abs_segment (?s\<lparr>os_request := Some q\<rparr>)) (abs_seals z) (abs_seals z')" .
  moreover have "abs_segment (?s\<lparr>os_request := Some q\<rparr>) = (spec_get (abs_seals z) i)\<lparr>p_request := Some q\<rparr>"
    unfolding abs_get [symmetric, where z = z and i = i and src = src] by (simp add: abs_segment_def)
  ultimately show ?thesis using request by (auto intro: spec_step.request)
qed (use assms quiet_content abs_same abs_note_job in \<open>metis spec_step.quiet\<close>)+

lemma run_refines: "seal_run forced_at SH evs z \<Longrightarrow> spec_run evs (abs_seals z)"
proof (induction rule: seal_run.induct)
  case initial
  have "abs_seals init_state = spec_init" by (simp add: abs_seals_def init_state_def spec_init_def log_of_def)
  then show ?case using spec_run.initial by simp
next
  case (extend evs z ev z')
  then show ?case by (meson accounts_reachable spec_run.extend step_refines)
qed

subsection \<open>A seal covers its segment\<close>

fun outcome_in :: "seal_event list \<Rightarrow> string \<Rightarrow> int \<Rightarrow> compact option" where
  "outcome_in [] i n = None"
| "outcome_in (Settled j m c # evs) i n = (if j = i \<and> m = n then Some c else outcome_in evs i n)"
| "outcome_in (_ # evs) i n = outcome_in evs i n"

definition allocs :: "seal_event list \<Rightarrow> string \<Rightarrow> int set" where
  "allocs evs i = {n. Alloc i n \<in> set evs}"

definition requested :: "seal_event list \<Rightarrow> string \<Rightarrow> bool" where
  "requested evs i \<longleftrightarrow> (\<exists>q. Requested i q \<in> set evs)"

text \<open>
  How the allocator and the run table use the accumulator: a position is counted once and before the seal of
  its segment is requested, settled only after it was counted, and a segment's seal is requested once.
\<close>

definition proper :: "seal_event list \<Rightarrow> seal_event \<Rightarrow> bool" where
  "proper evs ev \<longleftrightarrow> (case ev of
       Alloc i n \<Rightarrow> n \<notin> allocs evs i \<and> \<not> requested evs i
     | Settled i n c \<Rightarrow> n \<in> allocs evs i
     | Requested i q \<Rightarrow> \<not> requested evs i
     | Quiet \<Rightarrow> True)"

fun well_used :: "seal_event list \<Rightarrow> seal_event list \<Rightarrow> bool" where
  "well_used evs [] \<longleftrightarrow> True"
| "well_used evs (ev # rest) \<longleftrightarrow> proper evs ev \<and> well_used (evs @ [ev]) rest"

lemma well_used_snoc: "well_used evs (rest @ [ev]) \<longleftrightarrow> well_used evs rest \<and> proper (evs @ rest) ev"
  by (induction rest arbitrary: evs) auto

lemma outcome_in_snoc: "outcome_in (evs @ [ev]) i n = (case outcome_in evs i n of None \<Rightarrow> outcome_in [ev] i n | Some c \<Rightarrow> Some c)"
  by (induction evs i n rule: outcome_in.induct) (auto split: option.splits)

lemma outcome_single [simp]:
  "outcome_in [Alloc j m] i = Map.empty" "outcome_in [Requested j q] i = Map.empty" "outcome_in [Quiet] i = Map.empty"
  "outcome_in [Settled j m c] i = (if i = j then [m \<mapsto> c] else Map.empty)"
  by (auto simp: fun_eq_iff)

lemma allocs_snoc [simp]:
  "allocs (evs @ [Alloc j n]) i = (if i = j then insert n (allocs evs i) else allocs evs i)"
  "allocs (evs @ [Settled j n c]) i = allocs evs i" "allocs (evs @ [Requested j q]) i = allocs evs i" "allocs (evs @ [Quiet]) i = allocs evs i"
  by (auto simp: allocs_def)

lemma requested_snoc [simp]:
  "requested (evs @ [Alloc j n]) i = requested evs i" "requested (evs @ [Settled j n c]) i = requested evs i"
  "requested (evs @ [Requested j q]) i = (i = j \<or> requested evs i)" "requested (evs @ [Quiet]) i = requested evs i"
  by (auto simp: requested_def)

lemma finite_allocs [simp]: "finite (allocs evs i)"
proof -
  have "allocs evs i \<subseteq> (\<lambda>ev. case ev of Alloc j n \<Rightarrow> n | _ \<Rightarrow> 0) ` set evs" by (force simp: allocs_def)
  then show ?thesis by (rule finite_subset) simp
qed

text \<open>An open segment knows the first outcomes so far and how many positions are still out; a closed one was complete.\<close>

definition open_ok :: "seal_event list \<Rightarrow> string \<Rightarrow> spec_segment \<Rightarrow> bool" where
  "open_ok evs i p \<longleftrightarrow> p_outcomes p = outcome_in evs i \<and> dom (outcome_in evs i) \<subseteq> allocs evs i \<and>
     p_outstanding p = int (card (allocs evs i)) - int (card (dom (outcome_in evs i))) \<and> (p_request p \<noteq> None \<longleftrightarrow> requested evs i)"

definition closed_ok :: "seal_event list \<Rightarrow> string \<Rightarrow> bool" where
  "closed_ok evs i \<longleftrightarrow> dom (outcome_in evs i) = allocs evs i \<and> (allocs evs i \<noteq> {} \<longrightarrow> requested evs i)"

definition covers :: "seal_event list \<Rightarrow> seal_spec \<Rightarrow> bool" where
  "covers evs a \<longleftrightarrow> (\<forall>i p. a_open a i = Some p \<longrightarrow> open_ok evs i p) \<and> (\<forall>i. a_open a i = None \<longrightarrow> closed_ok evs i) \<and>
     (\<forall>(i, m, q)\<in>set (a_log a). m = outcome_in evs i \<and> requested evs i \<and> a_open a i = None)"

lemma outcome_fun_snoc: "outcome_in (evs @ [ev]) i = outcome_in [ev] i ++ outcome_in evs i"
  by (auto simp: fun_eq_iff outcome_in_snoc map_add_def split: option.splits)

lemma outcome_quiet [simp]:
  "outcome_in (evs @ [Alloc j m]) i = outcome_in evs i" "outcome_in (evs @ [Requested j q]) i = outcome_in evs i"
  "outcome_in (evs @ [Quiet]) i = outcome_in evs i"
  by (simp_all add: outcome_fun_snoc)

lemma outcome_settled:
  "outcome_in (evs @ [Settled j m c]) i =
     (if i = j \<and> m \<notin> dom (outcome_in evs i) then (outcome_in evs i)(m \<mapsto> c) else outcome_in evs i)"
  by (auto simp: fun_eq_iff outcome_in_snoc split: option.splits)

lemma open_get:
  assumes "covers evs a" and "\<not> requested evs i"
  shows "open_ok evs i (spec_get a i)"
proof (cases "a_open a i")
  case None
  then have "closed_ok evs i" using assms(1) by (simp add: covers_def)
  then have "allocs evs i = {}" "dom (outcome_in evs i) = {}" using assms(2) by (auto simp: closed_ok_def)
  then show ?thesis using None assms(2) by (simp add: spec_get_def spec_fresh_def open_ok_def)
next
  case (Some p)
  then show ?thesis using assms(1) by (simp add: covers_def spec_get_def)
qed

text \<open>Closing keeps the invariant: nothing out means that every counted position has an outcome.\<close>

lemma closes_covers:
  assumes c: "closes i p a a'" and p: "open_ok evs i p" and "requested evs i \<or> p_request p = None"
    and others: "\<And>j p. j \<noteq> i \<Longrightarrow> a_open a j = Some p \<Longrightarrow> open_ok evs j p" "\<And>j. j \<noteq> i \<Longrightarrow> a_open a j = None \<Longrightarrow> closed_ok evs j"
    and l: "\<And>j m q. (j, m, q) \<in> set (a_log a) \<Longrightarrow> m = outcome_in evs j \<and> requested evs j \<and> j \<noteq> i \<and> a_open a j = None"
  shows "covers evs a'"
proof -
  have closed: "closed_ok evs i \<and> requested evs i" if "p_request p \<noteq> None" "p_outstanding p \<le> 0"
  proof -
    have d: "dom (outcome_in evs i) \<subseteq> allocs evs i" "card (allocs evs i) \<le> card (dom (outcome_in evs i))"
      using p that(2) by (simp_all add: open_ok_def)
    have "dom (outcome_in evs i) = allocs evs i" by (rule card_seteq) (use d in simp_all)
    then show ?thesis using p that(1) by (simp add: closed_ok_def open_ok_def)
  qed
  from c show ?thesis
  proof (cases rule: closes.cases)
    case stays
    then show ?thesis using p others l by (auto simp: covers_def)
  next
    case (seals q)
    then show ?thesis using p closed others l by (auto simp: covers_def open_ok_def)
  next
    case (drops q)
    then show ?thesis using p closed others l by (auto simp: covers_def)
  qed
qed

lemma settled_other:
  assumes "j \<noteq> i"
  shows "open_ok (evs @ [Settled i n c]) j p = open_ok evs j p" "closed_ok (evs @ [Settled i n c]) j = closed_ok evs j"
    "outcome_in (evs @ [Settled i n c]) j = outcome_in evs j"
  using assms by (simp_all add: open_ok_def closed_ok_def outcome_settled)

lemma requested_other:
  assumes "j \<noteq> i"
  shows "open_ok (evs @ [Requested i q]) j p = open_ok evs j p" "closed_ok (evs @ [Requested i q]) j = closed_ok evs j"
  using assms by (simp_all add: open_ok_def closed_ok_def)

lemma coversD:
  assumes "covers evs a"
  shows "a_open a i = Some p \<Longrightarrow> open_ok evs i p" "a_open a i = None \<Longrightarrow> closed_ok evs i"
    "(i, m, q) \<in> set (a_log a) \<Longrightarrow> m = outcome_in evs i \<and> requested evs i \<and> a_open a i = None"
  using assms unfolding covers_def by blast+

lemma covers_step:
  assumes v: "covers evs a" and "proper evs ev" and "spec_step a ev a'"
  shows "covers (evs @ [ev]) a'"
proof (cases ev)
  case (Alloc i n)
  then have n: "n \<notin> allocs evs i" "\<not> requested evs i" using assms(2) by (simp_all add: proper_def)
  have "open_ok (evs @ [Alloc i n]) i ((spec_get a i)\<lparr>p_outstanding := p_outstanding (spec_get a i) + 1\<rparr>)"
    using open_get [OF v n(2)] n by (auto simp: open_ok_def)
  moreover have "a' = a\<lparr>a_open := (a_open a)(i \<mapsto> (spec_get a i)\<lparr>p_outstanding := p_outstanding (spec_get a i) + 1\<rparr>)\<rparr>"
    using assms(3) Alloc by (auto elim: spec_allocE)
  ultimately show ?thesis using v n Alloc by (auto simp: covers_def open_ok_def closed_ok_def)
next
  case (Settled i n c)
  then have n: "n \<in> allocs evs i" using assms(2) by (simp add: proper_def)
  have keep: "covers (evs @ [ev]) a" if "n \<in> dom (outcome_in evs i)"
    using v that Settled by (fastforce simp: covers_def open_ok_def closed_ok_def outcome_settled)
  have "spec_step a (Settled i n c) a'" using assms(3) Settled by simp
  then show ?thesis
  proof (cases rule: spec_step.cases)
    case late
    then have "dom (outcome_in evs i) = allocs evs i" using v by (auto simp: covers_def closed_ok_def)
    then show ?thesis using keep n late by simp
  next
    case (again p)
    then have "open_ok evs i p" using v by (simp add: covers_def)
    then have "n \<in> dom (outcome_in evs i)" using again by (simp add: open_ok_def)
    then show ?thesis using keep again by simp
  next
    case (first p)
    let ?p = "p\<lparr>p_outcomes := (p_outcomes p)(n \<mapsto> c), p_outstanding := max 0 (p_outstanding p - 1)\<rparr>"
    have po: "open_ok evs i p" using v first(1) by (simp add: covers_def)
    then have new: "n \<notin> dom (outcome_in evs i)" "dom (outcome_in evs i) \<subseteq> allocs evs i" using first(2) by (auto simp: open_ok_def)
    then have fin: "finite (dom (outcome_in evs i))" using finite_subset by fastforce
    have "card (insert n (dom (outcome_in evs i))) \<le> card (allocs evs i)" by (rule card_mono) (use n new in auto)
    then have "open_ok (evs @ [Settled i n c]) i ?p"
      using po new n fin by (auto simp: open_ok_def outcome_settled)
    then have "covers (evs @ [Settled i n c]) a'"
    proof (rule closes_covers [OF first(3)])
      show "requested (evs @ [Settled i n c]) i \<or> p_request ?p = None" using po by (auto simp: open_ok_def)
      show "m = outcome_in (evs @ [Settled i n c]) j \<and> requested (evs @ [Settled i n c]) j \<and> j \<noteq> i \<and> a_open a j = None"
        if "(j, m, q) \<in> set (a_log a)" for j m q
        using coversD(3) [OF v that] first(1) settled_other(3) [of j i] by (cases "j = i") simp_all
    qed (simp_all add: settled_other coversD [OF v])
    then show ?thesis by (simp add: Settled)
  qed
next
  case (Requested i q)
  then have r: "\<not> requested evs i" using assms(2) by (simp add: proper_def)
  have "open_ok (evs @ [Requested i q]) i ((spec_get a i)\<lparr>p_request := Some q\<rparr>)"
    using open_get [OF v r] by (simp add: open_ok_def)
  moreover have c: "closes i ((spec_get a i)\<lparr>p_request := Some q\<rparr>) a a'" using assms(3) Requested by (auto elim: spec_requestedE)
  ultimately have "covers (evs @ [Requested i q]) a'"
  proof (intro closes_covers [OF c])
    show "m = outcome_in (evs @ [Requested i q]) j \<and> requested (evs @ [Requested i q]) j \<and> j \<noteq> i \<and> a_open a j = None"
      if "(j, m, r) \<in> set (a_log a)" for j m r using coversD(3) [OF v that] r by auto
  qed (simp_all add: requested_other coversD [OF v])
  then show ?thesis by (simp add: Requested)
next
  case Quiet
  then have "a' = a" using assms(3) by (auto elim: spec_quietE)
  then show ?thesis using v Quiet by (simp add: covers_def open_ok_def closed_ok_def)
qed

lemma covers_run: "spec_run evs a \<Longrightarrow> well_used [] evs \<Longrightarrow> covers evs a"
proof (induction rule: spec_run.induct)
  case initial
  have "dom (outcome_in [] i) = {}" for i by auto
  then show ?case by (simp add: covers_def spec_init_def closed_ok_def allocs_def)
next
  case (extend evs a ev a')
  then show ?case by (simp add: well_used_snoc covers_step)
qed

lemma logged_covers:
  assumes "spec_run evs a" and "well_used [] evs" and "(i, m, q) \<in> set (a_log a)"
  shows "dom m = allocs evs i" "m = outcome_in evs i"
proof -
  have "covers evs a" by (rule covers_run [OF assms(1,2)])
  then have "m = outcome_in evs i" "closed_ok evs i" using assms(3) unfolding covers_def by blast+
  then show "dom m = allocs evs i" "m = outcome_in evs i" by (simp_all add: closed_ok_def)
qed

end
