(* ===== verification/SealProperties.thy ===== *)
theory SealProperties
  imports SealSpec RunSafety
begin

text \<open>
  Properties of sealing: entries survive their compact form, the accumulator keeps within its bounds and
  refines its specification, a seal covers exactly the positions of its segment, every hand-off is built in
  order, and a seal the verifier finds intact has the contents the capture side sealed.
\<close>

subsection \<open>Entries\<close>

lemma hex_digit_lower: "hex_lower c \<Longrightarrow> \<exists>a < 16. hex_digit c = Some a \<and> digit_hex a = c"
proof -
  assume "hex_lower c"
  let ?k = "of_char c :: nat"
  from \<open>hex_lower c\<close> consider "48 \<le> ?k" "?k \<le> 57" | "97 \<le> ?k" "?k \<le> 102"
    by (auto simp: hex_lower_def decimal_digit_def less_eq_char_def)
  then show ?thesis
  proof cases
    case 1
    then have "hex_digit c = Some (?k - 48)" by (simp add: hex_digit_def less_eq_char_def)
    moreover have "?k - 48 < 10" "48 + (?k - 48) = ?k" using 1 by linarith+
    then have "digit_hex (?k - 48) = c" unfolding digit_hex_def by simp
    ultimately show ?thesis using 1 by (intro exI [of _ "?k - 48"]) simp
  next
    case 2
    then have "hex_digit c = Some (?k - 87)" by (simp add: hex_digit_def less_eq_char_def)
    moreover have "\<not> ?k - 87 < 10" "87 + (?k - 87) = ?k" using 2 by linarith+
    then have "digit_hex (?k - 87) = c" unfolding digit_hex_def by simp
    ultimately show ?thesis using 2 by (intro exI [of _ "?k - 87"]) simp
  qed
qed

lemma hex_not_space: "hex_lower c \<Longrightarrow> \<not> hex_space c"
  by (auto simp: hex_lower_def decimal_digit_def hex_space_def less_eq_char_def)

lemma fromhex_lower:
  assumes "list_all hex_lower s" and "even (length s)"
  shows "\<exists>bs. fromhex s = Some bs \<and> bytes_hex bs = s"
  using assms
proof (induction s rule: fromhex.induct)
  case (2 c cs)
  then obtain d ds where cs: "cs = d # ds" by (cases cs) auto
  obtain a b where ab: "a < 16" "hex_digit c = Some a" "digit_hex a = c" "b < 16" "hex_digit d = Some b" "digit_hex b = d"
    using 2(3) hex_digit_lower [of c] hex_digit_lower [of d] by (auto simp: cs)
  obtain bs where bs: "fromhex ds = Some bs" "bytes_hex bs = ds"
    using 2(2) [OF _ cs] 2(3,4) hex_not_space [of c] ab by (auto simp: cs)
  have "bytes_hex ((16 * a + b) # bs) = c # d # ds" using ab bs by (simp add: bytes_hex_def)
  then show ?case using ab bs 2(3) hex_not_space [of c] by (simp add: cs)
qed (simp add: bytes_hex_def)

lemma compact_digest:
  assumes "prefixed_digest_re e"
  shows "\<exists>c. compact_entry e = Some c \<and> expand_entry c = e"
proof -
  have e: "take 7 e = ''sha256:''" "length (drop 7 e) = 64" "list_all hex_lower (drop 7 e)"
    using assms by (simp_all add: prefixed_digest_re_def hex_n_def)
  then obtain bs where "fromhex (drop 7 e) = Some bs" "bytes_hex bs = drop 7 e" using fromhex_lower [of "drop 7 e"] by auto
  moreover have "''sha256:'' @ drop 7 e = e" using append_take_drop_id [of 7 e] e(1) by simp
  ultimately show ?thesis using e by (simp add: compact_entry_def)
qed

lemma compact_loss: "r \<noteq> [] \<Longrightarrow> compact_entry (loss_entry r) = Some (Reason r)"
  by (simp add: compact_entry_def loss_entry_def)

lemma expand_Reason: "expand_entry (Reason r) = loss_entry r"
  by (simp add: loss_entry_def)

subsection \<open>Building in order\<close>

definition markers_of :: "(string \<Rightarrow> string) \<Rightarrow> sink_answer \<Rightarrow> ready_seal \<Rightarrow> seal_marker list" where
  "markers_of SH ans r =
     (case (seal_digest SH (expand_entries (os_entries (fst (snd r)))), first_some (rq_source (snd (snd r))) (os_source (fst (snd r)))) of
        (Some digest, Some sr) \<Rightarrow> (let m = marker_of r sr digest in if marker_valid m \<and> ans = Queued then [m] else [])
      | _ \<Rightarrow> [])"

lemma emit_queued: "z_queued (case emit SH ans r z of None \<Rightarrow> count_stat c_errors_update z | Some z' \<Rightarrow> z') = z_queued z @ markers_of SH ans r"
  by (cases r) (auto simp: emit_def markers_of_def Let_def count_stat_def split: option.splits)

lemma finish_build_result:
  assumes "z_taken z = [r]"
  shows "z_queued (finish_build SH ans z) = z_queued z @ markers_of SH ans r" "z_built (finish_build SH ans z) = z_built z @ [r]"
    "z_ready (finish_build SH ans z) = z_ready z" "z_taken (finish_build SH ans z) = []"
proof -
  obtain st qd where f: "finish_build SH ans z = z\<lparr>z_stats := st, z_queued := qd, z_building := z_building z - 1, z_taken := [],
      z_built := z_built z @ [r]\<rparr>" by (rule finish_build_frame [OF assms])
  show "z_built (finish_build SH ans z) = z_built z @ [r]" "z_ready (finish_build SH ans z) = z_ready z"
      "z_taken (finish_build SH ans z) = []"
    unfolding f by simp_all
  show "z_queued (finish_build SH ans z) = z_queued z @ markers_of SH ans r"
    using emit_queued [where SH = SH and ans = ans and r = r and z = z] assms by (simp add: finish_build_def Let_def)
qed

lemma work_turn_builds:
  assumes "z_ready z = r # rest"
  shows "z_ready (snd (work_turn SH ans z)) = rest" "z_built (snd (work_turn SH ans z)) = z_built z @ [r]"
    "z_queued (snd (work_turn SH ans z)) = z_queued z @ markers_of SH ans r"
  using assms by (simp_all add: work_turn_def build_next_def take_next_def finish_build_result)

fun work_turns :: "(string \<Rightarrow> string) \<Rightarrow> sink_answer \<Rightarrow> nat \<Rightarrow> seals \<Rightarrow> seals" where
  "work_turns SH ans 0 z = z"
| "work_turns SH ans (Suc k) z = work_turns SH ans k (snd (work_turn SH ans z))"

lemma work_turns_build:
  "z_ready z = rs \<Longrightarrow> z_ready (work_turns SH ans (length rs) z) = [] \<and> z_built (work_turns SH ans (length rs) z) = z_built z @ rs \<and>
     z_queued (work_turns SH ans (length rs) z) = z_queued z @ concat (map (markers_of SH ans) rs)"
proof (induction rs arbitrary: z)
  case (Cons r rest)
  note b = work_turn_builds [OF Cons.prems, of SH ans]
  then show ?case using Cons.IH [OF b(1)] by simp
qed simp

subsection \<open>Where markers come from\<close>

lemma hand_off_queued: "hand_off can_make i s (h, z) = (th, h', z') \<Longrightarrow> z_queued z' = z_queued z"
  by (auto simp: hand_off_def discard_def Let_def count_stat_def split: option.splits if_splits)

lemma step_queued:
  assumes "seal_step forced_at SH z ev z'" and "accounts_ok z"
  shows "z_queued z' = z_queued z \<or> (\<exists>r ans. z_taken z = [r] \<and> z_queued z' = z_queued z @ markers_of SH ans r)"
  using assms(1)
proof (cases rule: seal_step.cases)
  case (settled can_make i n c h early th h')
  then show ?thesis by (auto simp: settle_locked_def Let_def count_stat_def split: option.splits if_splits dest: hand_off_queued)
next
  case (request can_make sr i q h th h')
  then show ?thesis by (auto simp: request_locked_def Let_def dest: hand_off_queued)
next
  case (built ans)
  then obtain r where "z_taken z = [r]" using assms(2) by (cases "z_taken z") (auto simp: accounts_ok_def)
  then show ?thesis using built finish_build_result(1) by blast
next
  case (not_started t)
  then show ?thesis by (cases t) (simp_all add: start_def count_stat_def)
qed (auto simp: note_allocated_def count_allocated_def note_job_def count_stat_def take_next_def reclaim_take_def reclaim_done_def Let_def
      split: option.splits list.splits if_splits)

definition origin_ok :: "(string \<Rightarrow> string) \<Rightarrow> ready_seal list \<Rightarrow> seal_marker \<Rightarrow> bool" where
  "origin_ok SH rs m \<longleftrightarrow> (\<exists>s q. (sm_segment_id m, s, q) \<in> set rs \<and> seal_digest SH (expand_entries (os_entries s)) = Some (sm_seal_digest m))"

lemma markers_of_origin: "m \<in> set (markers_of SH ans r) \<Longrightarrow> origin_ok SH [r] m"
  by (cases r) (auto simp: markers_of_def origin_ok_def marker_of_def Let_def split: option.splits if_splits)

lemma hand_off_log:
  assumes "hand_off can_make i s (h, z\<lparr>z_segments := ss\<rparr>) = (th, h', z')"
  shows "set (log_of z) \<subseteq> set (log_of z')"
  by (cases rule: hand_off_cases [OF assms]) auto

lemma log_grows:
  assumes "seal_step forced_at SH z ev z'" and "accounts_ok z"
  shows "set (log_of z) \<subseteq> set (log_of z')"
proof (cases ev)
  case (Alloc i n)
  with assms(1) show ?thesis
    by (auto elim!: seal_step.cases simp: note_allocated_def count_allocated_def count_stat_def Let_def log_of_def split: if_splits)
next
  case (Settled i n c)
  have late: "log_of (count_stat c_late_update z) = log_of z" by (simp add: log_of_def count_stat_def)
  from Settled assms(1) show ?thesis
    by (auto elim!: seal_step.cases simp: settle_locked_def Let_def late split: option.splits if_splits dest!: hand_off_log)
next
  case (Requested i q)
  with assms(1) show ?thesis by (auto elim!: seal_step.cases simp: request_locked_def Let_def dest!: hand_off_log)
next
  case Quiet
  have "log_of (note_job i a b c z) = log_of z" for i a b c by (simp add: note_job_def split: option.splits)
  moreover have "seal_step forced_at SH z Quiet z'" using assms(1) Quiet by simp
  ultimately show ?thesis using quiet_content [OF _ assms(2)] unfolding same_content_def by (metis order.refl)
qed

lemma origin_mono: "origin_ok SH rs m \<Longrightarrow> set rs \<subseteq> set rs' \<Longrightarrow> origin_ok SH rs' m"
  by (auto simp: origin_ok_def)

lemma markers_origin: "seal_run forced_at SH evs z \<Longrightarrow> \<forall>m\<in>set (z_queued z). origin_ok SH (log_of z) m"
proof (induction rule: seal_run.induct)
  case initial
  show ?case by (simp add: init_state_def)
next
  case (extend evs z ev z')
  have ok: "accounts_ok z" using extend.hyps(1) by (rule accounts_reachable)
  have old: "\<forall>m\<in>set (z_queued z). origin_ok SH (log_of z') m"
    using extend.IH origin_mono [OF _ log_grows [OF extend.hyps(2) ok]] by blast
  show ?case
  proof (cases "z_queued z' = z_queued z")
    case False
    then obtain r ans where r: "z_taken z = [r]" "z_queued z' = z_queued z @ markers_of SH ans r"
      using step_queued [OF extend.hyps(2) ok] by blast
    have "set [r] \<subseteq> set (log_of z')" using log_grows [OF extend.hyps(2) ok] r(1) by (auto simp: log_of_def)
    then have "origin_ok SH (log_of z') m" if "m \<in> set (markers_of SH ans r)" for m
      using markers_of_origin [OF that] origin_mono by blast
    then show ?thesis using old r(2) by auto
  qed (use old in simp)
qed

subsection \<open>What a verified seal compared\<close>

definition entries_full :: "seal_entries_map \<Rightarrow> bool" where
  "entries_full d \<longleftrightarrow> (\<forall>(n, es)\<in>set d. es \<noteq> [])"

lemma add_entry_full:
  assumes "entries_full d"
  shows "entries_full (add_entry n e d)"
proof -
  have "es \<noteq> []" if i: "(k, es) \<in> set (add_entry n e d)" for k es
  proof -
    have "(k, es) = (n, add_new e (get_or d n [])) \<or> (k, es) \<in> set d"
      using i set_update_subset [of n "add_new e (get_or d n [])" d] unfolding add_entry_def upd_at_def by fast
    then show ?thesis using assms by (auto simp: entries_full_def add_new_def split: if_splits)
  qed
  then show ?thesis by (auto simp: entries_full_def)
qed

lemma member_entries_full: "entries_full d \<Longrightarrow> member_entries SH F l ms d problem v = (d', p', v') \<Longrightarrow> entries_full d'"
  by (induction SH F l ms d problem v rule: member_entries.induct) (auto simp: add_entry_full split: if_splits prod.splits sum.splits)

lemma fold_add_entry_full: "entries_full d \<Longrightarrow> entries_full (fold (\<lambda>n. add_entry n e) ns d)"
  by (induction ns arbitrary: d) (simp_all add: add_entry_full)

lemma loss_entries_full: "entries_full d \<Longrightarrow> loss_entries key ls d problem = (d', p') \<Longrightarrow> entries_full d'"
  by (induction key ls d problem rule: loss_entries.induct) (auto simp: fold_add_entry_full split: if_splits)

lemma seal_entries_full: "seal_entries SH F g q v = (d, problem, v') \<Longrightarrow> entries_full d"
  unfolding seal_entries_def
  by (auto split: prod.splits dest!: member_entries_full [rotated] loss_entries_full [rotated] simp: entries_full_def)

lemma verified_seal:
  assumes "fst (check_seal SH F g q v) = Check_verified"
  obtains d v' where "seal_entries SH F g q v = (d, None, v')" "seal_digest SH (seal_pairs d) = Some (ss_seal_digest q)"
    "d = map (\<lambda>(n, es). (n, [hd es])) d"
proof -
  obtain d problem v' where d: "seal_entries SH F g q v = (d, problem, v')" by (cases "seal_entries SH F g q v") auto
  then have p: "problem = None" "\<not> list_ex (\<lambda>(n, es). length es > 1) d" "seal_digest SH (seal_pairs d) = Some (ss_seal_digest q)"
    using assms by (auto simp: check_seal_def Let_def split: option.splits if_splits)
  have "es = [hd es]" if "(n, es) \<in> set d" for n es
    using p(2) seal_entries_full [OF d] that by (cases es) (auto simp: list_ex_iff entries_full_def)
  then have "d = map (\<lambda>(n, es). (n, [hd es])) d" by (intro map_idI [symmetric]) auto
  then show ?thesis using that d p by blast
qed

lemma seal_pairs_set: "set (seal_pairs d) = (\<lambda>(n, es). (n, hd es)) ` set d"
  by (simp add: seal_pairs_def)

definition seal_texts :: "seals \<Rightarrow> string set" where
  "seal_texts z = (\<lambda>(i, s, q). seal_text (expand_entries (os_entries s))) ` set (log_of z)"

lemma log_covers:
  assumes "seal_run forced_at SH evs z" and "well_used [] evs" and "(i, s, q) \<in> set (log_of z)"
  shows "map_of (os_entries s) = outcome_in evs i" "fst ` set (os_entries s) = allocs evs i"
proof -
  have "(i, map_of (os_entries s), q) \<in> set (a_log (abs_seals z))" using assms(3) by (force simp: abs_seals_def)
  note c = logged_covers [OF run_refines [OF assms(1)] assms(2) this]
  show "map_of (os_entries s) = outcome_in evs i" by (rule c(2))
  show "fst ` set (os_entries s) = allocs evs i" unfolding c(1) [symmetric] by (rule dom_map_of_conv_image_fst [symmetric])
qed

lemma verified_matches:
  assumes "seal_run forced_at SH evs z" and "well_used [] evs" and "m \<in> set (z_queued z)" and "sm_seal_digest m = ss_seal_digest q"
    and "fst (check_seal SH F g q v) = Check_verified"
    and coll: "inj_on SH (insert (seal_text (seal_pairs (fst (seal_entries SH F g q v)))) (seal_texts z))"
  shows "set (fst (seal_entries SH F g q v)) = {(n, [expand_entry c]) | n c. outcome_in evs (sm_segment_id m) n = Some c}"
proof -
  obtain s r where s: "(sm_segment_id m, s, r) \<in> set (log_of z)" "seal_digest SH (expand_entries (os_entries s)) = Some (sm_seal_digest m)"
    using markers_origin [OF assms(1)] assms(3) by (auto simp: origin_ok_def)
  obtain d v' where d: "seal_entries SH F g q v = (d, None, v')" "seal_digest SH (seal_pairs d) = Some (ss_seal_digest q)"
      "d = map (\<lambda>(n, es). (n, [hd es])) d" by (rule verified_seal [OF assms(5)])
  have "seal_text (expand_entries (os_entries s)) \<in> seal_texts z" using s(1) by (force simp: seal_texts_def)
  then have "inj_on SH {seal_text (expand_entries (os_entries s)), seal_text (seal_pairs d)}"
    by (intro inj_on_subset [OF coll]) (auto simp: d(1))
  then have same: "set (expand_entries (os_entries s)) = set (seal_pairs d)"
    using seal_digest_determines [OF s(2), of "seal_pairs d"] d(2) assms(4) by simp
  have dist: "distinct (map fst (os_entries s))"
    using s(2) by (auto simp: seal_digest_eq expand_entries_def comp_def case_prod_unfold split: if_splits)
  have "set d = (\<lambda>(n, e). (n, [e])) ` set (seal_pairs d)"
    by (subst d(3)) (force simp: seal_pairs_set image_image case_prod_unfold)
  also have "\<dots> = {(n, [expand_entry c]) | n c. (n, c) \<in> set (os_entries s)}"
    unfolding same [symmetric] by (force simp: expand_entries_def)
  also have "\<dots> = {(n, [expand_entry c]) | n c. outcome_in evs (sm_segment_id m) n = Some c}"
    using log_covers(1) [OF assms(1,2) s(1)] dist by (metis (lifting) map_of_eq_Some_iff)
  finally show ?thesis by (simp add: d(1))
qed

subsection \<open>A sample run\<close>

definition sample_segment_id :: string where
  "sample_segment_id = ''seg-'' @ replicate 32 CHR ''0''"

definition sample_request :: seal_request where
  "sample_request = make_request 0 None True False [] (Some ''r'') (Some ''s'') (Some 1)"

definition sample_z1 :: seals where
  "sample_z1 = snd (note_allocated 5 (Inr (Some (''s'', 1))) sample_segment_id 0 init_state)"

definition sample_held :: held where
  "sample_held = \<lparr>hd_depth = 0, hd_deferred = []\<rparr>"

definition sample_z2 :: seals where
  "sample_z2 = snd (snd (snd (settle_locked True sample_segment_id 0 (Reason ''shutdown'') (sample_held, sample_z1))))"

definition sample_z3 :: seals where
  "sample_z3 = snd (snd (request_locked True None sample_segment_id sample_request (sample_held, sample_z2)))"

definition sample_z4 :: seals where
  "sample_z4 = the (take_next sample_z3)"

definition sample_z5 :: seals where
  "sample_z5 = finish_build id Queued sample_z4"

definition sample_events :: "seal_event list" where
  "sample_events = [Alloc sample_segment_id 0, Settled sample_segment_id 0 (Reason ''shutdown''), Requested sample_segment_id sample_request]"

lemma sample_seal_run: "seal_run 5 id sample_events sample_z3"
proof -
  have "seal_run 5 id ([] @ [Alloc sample_segment_id 0]) sample_z1"
    by (rule seal_run.extend [OF seal_run.initial seal_step.allocate]) (simp add: sample_z1_def prod_eq_iff)
  from seal_run.extend [OF this seal_step.settled, of True sample_segment_id 0 "Reason ''shutdown''" sample_held _ _ _ sample_z2]
  have "seal_run 5 id ([] @ [Alloc sample_segment_id 0] @ [Settled sample_segment_id 0 (Reason ''shutdown'')]) sample_z2"
    by (simp add: sample_z2_def prod_eq_iff)
  from seal_run.extend [OF this seal_step.request, of True None sample_segment_id sample_request sample_held _ _ sample_z3]
  show ?thesis by (simp add: sample_z3_def sample_events_def prod_eq_iff)
qed

lemma sample_built_run: "seal_run 5 id (sample_events @ [Quiet] @ [Quiet]) sample_z5"
proof -
  have "z_taken sample_z3 = []" "take_next sample_z3 = Some sample_z4" "z_taken sample_z4 \<noteq> []" by code_simp+
  from seal_run.extend [OF seal_run.extend [OF sample_seal_run seal_step.taken [OF this(1,2)]] seal_step.built [OF this(3)]]
  show ?thesis by (simp add: sample_z5_def)
qed

definition sample_seal :: segment_seal_obs where
  "sample_seal = \<lparr>ss_source_id = ''s'', ss_source_epoch = 1, ss_last_sequence = 0, ss_segment_id = sample_segment_id, ss_seal_last_sequence = 0,
     ss_seal_digest = sm_seal_digest (hd (z_queued sample_z5)), ss_manifest_digest = None, ss_terminal = Some True, ss_resumable = Some False,
     ss_branch_ids = [], ss_run_id = Some ''r'', ss_scope_id = None, ss_manifest_seq = None, ss_authenticated = False, ss_sealed_ns = None\<rparr>"

definition sample_vsegment :: vsegment where
  "sample_vsegment = (new_segment sample_segment_id)\<lparr>g_seals := [sample_seal],
     g_losses := [\<lparr>l_source_id = ''s'', l_source_epoch = 1, l_reason = ''shutdown'', l_count = 1, l_first_sequence = 0, l_last_sequence = 0,
       l_authenticated = False, l_segment_id = Some sample_segment_id\<rparr>]\<rparr>"

subsection \<open>Properties\<close>

text \<open>
  C2. A seal the verifier finds intact has the contents the capture side sealed: if the seal carries the digest
  of a marker the accumulator queued, the accumulator was used as its protocol says and SHA-256 has no collision
  among the texts involved, then the entries the verifier recomputed are, position by position, the first
  outcomes that were settled for the segment, and cover exactly the positions allocated in it.
\<close>

theorem verified_seal_faithful:
  assumes "seal_run forced_at SH evs z" and "well_used [] evs" and "m \<in> set (z_queued z)" and "sm_seal_digest m = ss_seal_digest q"
    and "fst (check_seal SH F g q v) = Check_verified"
    and "inj_on SH (insert (seal_text (seal_pairs (fst (seal_entries SH F g q v)))) (seal_texts z))"
  shows "set (fst (seal_entries SH F g q v)) = {(n, [expand_entry c]) | n c. outcome_in evs (sm_segment_id m) n = Some c} \<and>
    fst ` set (fst (seal_entries SH F g q v)) = allocs evs (sm_segment_id m)"
proof -
  note same = verified_matches [OF assms]
  obtain s r where s: "(sm_segment_id m, s, r) \<in> set (log_of z)" using markers_origin [OF assms(1)] assms(3) by (auto simp: origin_ok_def)
  have "fst ` {(n, [expand_entry c]) | n c. outcome_in evs (sm_segment_id m) n = Some c} = dom (outcome_in evs (sm_segment_id m))"
    by (force simp: dom_def)
  also have "\<dots> = allocs evs (sm_segment_id m)"
    using log_covers [OF assms(1,2) s] by (metis dom_map_of_conv_image_fst)
  finally show ?thesis using same by simp
qed

theorem verified_seal_faithful_witness:
  "set (fst (seal_entries id None sample_vsegment sample_seal new_verifier)) = {(0, [''loss:shutdown''])} \<and>
   fst ` set (fst (seal_entries id None sample_vsegment sample_seal new_verifier)) = allocs (sample_events @ [Quiet] @ [Quiet]) sample_segment_id"
proof
  have used: "well_used [] (sample_events @ [Quiet] @ [Quiet])"
    by (simp add: sample_events_def proper_def allocs_def requested_def)
  have m: "hd (z_queued sample_z5) \<in> set (z_queued sample_z5)" "sm_segment_id (hd (z_queued sample_z5)) = sample_segment_id" by code_simp+
  have check: "fst (check_seal id None sample_vsegment sample_seal new_verifier) = Check_verified" by code_simp
  have d: "sm_seal_digest (hd (z_queued sample_z5)) = ss_seal_digest sample_seal" by (simp add: sample_seal_def)
  show "fst ` set (fst (seal_entries id None sample_vsegment sample_seal new_verifier)) = allocs (sample_events @ [Quiet] @ [Quiet]) sample_segment_id"
    using verified_seal_faithful [OF sample_built_run used m(1) d check inj_on_id, THEN conjunct2] unfolding m(2) .
qed code_simp

text \<open>
  C4. The accumulator with its queue, bounds, worker and reclaimer refines the abstract one: whatever the
  interleaving of calls and threads, the open segments, the seals in hand-off order and the number dropped are
  those of a run of the specification on the same calls.
\<close>

theorem seals_refine_spec:
  assumes "seal_run forced_at SH evs z"
  shows "spec_run evs (abs_seals z)"
  by (rule run_refines [OF assms])

theorem seals_refine_spec_witness:
  "spec_run sample_events (abs_seals sample_z3) \<and> map fst (a_log (abs_seals sample_z3)) = [sample_segment_id]"
proof
  show "map fst (a_log (abs_seals sample_z3)) = [sample_segment_id]"
    by (simp add: abs_seals_def case_prod_unfold comp_def) code_simp
qed (rule seals_refine_spec [OF sample_seal_run])

text \<open>
  C5. A segment seals only when it is complete: used as the protocol says, every segment handed to the seal
  worker holds an outcome for exactly the positions allocated in it, and for each the first one settled.
\<close>

theorem sealed_segments_complete:
  assumes "seal_run forced_at SH evs z" and "well_used [] evs" and "(i, s, q) \<in> set (z_built z @ z_taken z @ z_ready z)"
  shows "fst ` set (os_entries s) = {n. Alloc i n \<in> set evs} \<and> map_of (os_entries s) = outcome_in evs i"
  using log_covers [OF assms(1,2)] assms(3) by (auto simp: log_of_def allocs_def)

theorem sealed_segments_complete_witness:
  "\<exists>s q. (sample_segment_id, s, q) \<in> set (z_built sample_z3 @ z_taken sample_z3 @ z_ready sample_z3) \<and>
     fst ` set (os_entries s) = {n. Alloc sample_segment_id n \<in> set sample_events}"
proof -
  have "well_used [] sample_events" by (simp add: sample_events_def proper_def allocs_def requested_def)
  moreover obtain s q where s: "(sample_segment_id, s, q) \<in> set (z_built sample_z3 @ z_taken sample_z3 @ z_ready sample_z3)"
  proof -
    have "map fst (z_ready sample_z3) = [sample_segment_id]" by code_simp
    then obtain s q where "z_ready sample_z3 = [(sample_segment_id, s, q)]" by (auto simp: map_eq_Cons_conv)
    then show ?thesis using that [of s q] by simp
  qed
  ultimately show ?thesis using sealed_segments_complete [OF sample_seal_run _ s] s by blast
qed

text \<open>
  C33. Memory is bounded in every reachable state: at most 4096 seals wait, more than one only within 262144
  positions; dropped state waiting to be freed holds at most 1048576 positions in 4096 segments; the counters
  that decide this are the true sizes.
\<close>

theorem pending_seals_bounded:
  assumes "seal_run forced_at SH evs z"
  shows "length (z_ready z) \<le> 4096 \<and> z_ready_positions z = (\<Sum>(i, s, q)\<leftarrow>z_ready z. int (length (os_entries s))) \<and>
    (length (z_ready z) > 1 \<longrightarrow> z_ready_positions z \<le> 262144) \<and>
    z_reclaim_positions z = (\<Sum>s\<leftarrow>z_reclaim z. int (length (os_entries s))) + (\<Sum>n\<leftarrow>z_freeing z. int n) \<and>
    z_reclaim_positions z \<le> 1048576 \<and> length (z_reclaim z) + length (z_freeing z) \<le> 4096 \<and> z_building z \<le> 1"
  using accounts_reachable [OF assms]
  by (auto simp: accounts_ok_def ready_segments_def positions_of_def MAX_PENDING_SEALS_def MAX_PENDING_SEAL_POSITIONS_def
      MAX_RECLAIM_POSITIONS_def MAX_RECLAIM_SEGMENTS_def case_prod_unfold comp_def)

theorem pending_seals_bounded_witness:
  "length (z_ready sample_z3) \<le> 4096 \<and> z_ready_positions sample_z3 = (\<Sum>(i, s, q)\<leftarrow>z_ready sample_z3. int (length (os_entries s)))"
  using pending_seals_bounded [OF sample_seal_run] by blast


text \<open>
  C38. The compact form of a seal entry loses nothing: a record digest and a loss entry with a reason expand back
  to what they were.
\<close>

theorem entry_round_trip:
  assumes "prefixed_digest_re e \<or> (\<exists>r. r \<noteq> [] \<and> e = loss_entry r)"
  shows "\<exists>c. compact_entry e = Some c \<and> expand_entry c = e"
  using assms compact_digest compact_loss expand_Reason by metis

theorem entry_round_trip_witness:
  "\<exists>c. compact_entry ''loss:shutdown'' = Some c \<and> expand_entry c = ''loss:shutdown''"
  by (rule entry_round_trip) (simp add: loss_entry_def)

end
