(* ===== verification/Allocator.thy ===== *)
theory Allocator
  imports SealSpec Labels
begin

text \<open>
  The sequence allocator of \<^verbatim>\<open>_sequence.py\<close>: one counter per epoch, attribution of a position to the
  innermost open run scope, the mirror of the next sequence in the registration file, and settlement through
  the seal accumulator. The run table and the accumulator are attached components with a common interface
  (\<^verbatim>\<open>RunTable\<close>, \<^verbatim>\<open>SealAccumulator\<close>), so their operations are arguments; the interface of the accumulator is
  the locale \<open>seal_accumulator\<close>, with \<^verbatim>\<open>SegmentSeals\<close> and \<^verbatim>\<open>NullSealAccumulator\<close> as instances.
\<close>

subsection \<open>State\<close>

datatype run_scope = Run_scope (scope_run: string) (scope_name: string) (scope_parent: "run_scope option")

record allocation =
  at_epoch :: int
  at_sequence :: int
  at_scope :: "run_scope option"
  at_segment_id :: "string option"

text \<open>A registration is told apart by its identity; \<open>al_mirror\<close> is the value last stored in the mirror, if one is mapped.\<close>

record registration =
  reg_id :: nat
  reg_epoch :: int

record ('t, 'z) allocator =
  al_source_id :: string
  al_epoch :: int
  al_next :: int
  al_registration :: "registration option"
  al_mirror :: "int option"
  al_fork_note :: bool
  al_segments :: 't
  al_seals :: 'z
  al_settled :: nat
  al_settle_failures :: nat
  al_closed :: "string list"

text \<open>Whether the stores into the shared maps succeed.\<close>

record stores =
  mirror_writes :: bool
  ledger_writes :: bool

definition new_allocator :: "string \<Rightarrow> int \<Rightarrow> 't \<Rightarrow> 'z \<Rightarrow> (('t, 'z) allocator) option" where
  "new_allocator source_id epoch t0 z0 =
     (if opaque_id_re source_id
      then Some \<lparr>al_source_id = source_id, al_epoch = epoch, al_next = 0, al_registration = None, al_mirror = None, al_fork_note = False,
        al_segments = t0, al_seals = z0, al_settled = 0, al_settle_failures = 0, al_closed = []\<rparr>
      else None)"

definition attach :: "'t \<Rightarrow> 'z \<Rightarrow> ('t, 'z) allocator \<Rightarrow> ('t, 'z) allocator" where
  "attach t z al = al\<lparr>al_segments := t, al_seals := z\<rparr>"

definition bind_registration :: "stores \<Rightarrow> registration \<Rightarrow> int option \<Rightarrow> int \<Rightarrow> ('t, 'z) allocator \<Rightarrow> bool \<times> ('t, 'z) allocator" where
  "bind_registration w reg mirror drawn_from al =
     (if al_epoch al \<noteq> drawn_from \<or> reg_epoch reg \<noteq> al_epoch al \<and> al_next al \<noteq> 0 then (False, al)
      else (True, al\<lparr>al_epoch := reg_epoch reg, al_registration := Some reg,
        al_mirror := (case mirror of None \<Rightarrow> None | Some v \<Rightarrow> if mirror_writes w then Some (al_next al) else Some v)\<rparr>))"

definition unbind_registration :: "registration option \<Rightarrow> ('t, 'z) allocator \<Rightarrow> ('t, 'z) allocator" where
  "unbind_registration reg al =
     (if reg = None \<or> map_option reg_id (al_registration al) = map_option reg_id reg
      then al\<lparr>al_registration := None, al_mirror := None\<rparr> else al)"

subsection \<open>Allocation\<close>

fun open_scope_of :: "string list \<Rightarrow> run_scope option \<Rightarrow> run_scope option" where
  "open_scope_of closed None = None"
| "open_scope_of closed (Some (Run_scope run i parent)) =
     (if i \<in> set closed then open_scope_of closed parent else Some (Run_scope run i parent))"

text \<open>
  \<open>on_allocate\<close> gives the run table's answer (\<open>None\<close>: it raised) and \<open>note_op\<close> the accumulator after counting the
  position (\<open>None\<close>: it raised, and its state is as it was).
\<close>

definition allocated ::
  "(allocation \<Rightarrow> 't \<Rightarrow> string option option \<times> 't) \<Rightarrow> (string \<Rightarrow> int \<Rightarrow> 'z \<Rightarrow> 'z option) \<Rightarrow> stores \<Rightarrow> run_scope option \<Rightarrow>
   ('t, 'z) allocator \<Rightarrow> allocation \<times> ('t, 'z) allocator" where
  "allocated on_allocate note_op w scope al =
     (let n = al_next al;
          a = \<lparr>at_epoch = al_epoch al, at_sequence = n, at_scope = scope, at_segment_id = None\<rparr>;
          (answer, t) = on_allocate a (al_segments al);
          segment = (case answer of None \<Rightarrow> None | Some s \<Rightarrow> s);
          al1 = al\<lparr>al_next := n + 1, al_segments := t,
            al_mirror := (case al_mirror al of None \<Rightarrow> None | Some v \<Rightarrow> if mirror_writes w then Some (n + 1) else None),
            al_fork_note := al_fork_note al \<and> ledger_writes w\<rparr>
      in case segment of
           None \<Rightarrow> (a, al1)
         | Some i \<Rightarrow> (a\<lparr>at_segment_id := Some i\<rparr>,
             al1\<lparr>al_seals := (case note_op i n (al_seals al1) of None \<Rightarrow> al_seals al1 | Some z \<Rightarrow> z)\<rparr>))"

definition allocate_for ::
  "(allocation \<Rightarrow> 't \<Rightarrow> string option option \<times> 't) \<Rightarrow> (string \<Rightarrow> int \<Rightarrow> 'z \<Rightarrow> 'z option) \<Rightarrow> stores \<Rightarrow> run_scope option \<Rightarrow>
   ('t, 'z) allocator \<Rightarrow> allocation \<times> ('t, 'z) allocator" where
  "allocate_for on_allocate note_op w scope al = allocated on_allocate note_op w (open_scope_of (al_closed al) scope) al"

definition settle_position :: "(string \<Rightarrow> int \<Rightarrow> string \<Rightarrow> 'z \<Rightarrow> 'z option) \<Rightarrow> string option \<Rightarrow> int \<Rightarrow> string \<Rightarrow> ('t, 'z) allocator \<Rightarrow> ('t, 'z) allocator" where
  "settle_position settle_op segment n e al =
     (case segment of
        None \<Rightarrow> al
      | Some i \<Rightarrow>
          (case settle_op i n e (al_seals al) of
             None \<Rightarrow> al\<lparr>al_settle_failures := Suc (al_settle_failures al)\<rparr>
           | Some z \<Rightarrow> al\<lparr>al_seals := z, al_settled := Suc (al_settled al)\<rparr>))"

definition last_sequence :: "('t, 'z) allocator \<Rightarrow> int \<times> int" where
  "last_sequence al = (al_epoch al, al_next al - 1)"

definition open_position :: "run_scope \<Rightarrow> ('t, 'z) allocator \<Rightarrow> int \<times> int" where
  "open_position scope al = last_sequence al"

definition close_position :: "run_scope \<Rightarrow> ('t, 'z) allocator \<Rightarrow> (int \<times> int) \<times> ('t, 'z) allocator" where
  "close_position scope al = (last_sequence al, al\<lparr>al_closed := add_new (scope_name scope) (al_closed al)\<rparr>)"

definition seal_epoch :: "int \<Rightarrow> ('t, 'z) allocator \<Rightarrow> (int \<times> int) \<times> ('t, 'z) allocator" where
  "seal_epoch fresh al = (last_sequence al, al\<lparr>al_epoch := fresh, al_next := 0, al_registration := None, al_mirror := None\<rparr>)"

definition after_fork :: "int \<Rightarrow> ('t, 'z) allocator \<Rightarrow> ('t, 'z) allocator" where
  "after_fork fresh al = al\<lparr>al_next := 0, al_epoch := fresh, al_registration := None, al_mirror := None\<rparr>"

definition hex32 :: "int \<Rightarrow> string" where
  "hex32 t = rev (map (\<lambda>k. digit_hex (nat (t div 16 ^ k) mod 16)) [0..<32])"

definition resolve_run_id :: "(string \<Rightarrow> string) \<Rightarrow> run_scope option \<Rightarrow> int option \<Rightarrow> ('t, 'z) allocator \<Rightarrow> string" where
  "resolve_run_id SH current trace_id al =
     (case open_scope_of (al_closed al) current of
        Some c \<Rightarrow> scope_run c
      | None \<Rightarrow>
          (case trace_id of
             Some t \<Rightarrow> if 0 < t \<and> t < 2 ^ 128 then ''trace:'' @ hex32 t
               else encode_opaque_id SH (''source:'' @ al_source_id al @ '':'' @ int_str (al_epoch al))
           | None \<Rightarrow> encode_opaque_id SH (''source:'' @ al_source_id al @ '':'' @ int_str (al_epoch al))))"

subsection \<open>The accumulator interface\<close>

locale seal_accumulator =
  fixes note_op :: "string \<Rightarrow> int \<Rightarrow> 'z \<Rightarrow> 'z" and settle_op :: "string \<Rightarrow> int \<Rightarrow> string \<Rightarrow> 'z \<Rightarrow> 'z"
    and out :: "string \<Rightarrow> 'z \<Rightarrow> int" and sound :: "'z \<Rightarrow> bool"
  assumes note_sound: "sound z \<Longrightarrow> sound (note_op i n z)"
    and settle_sound: "sound z \<Longrightarrow> sound (settle_op i n e z)"
    and out_nonneg: "sound z \<Longrightarrow> 0 \<le> out i z"
    and note_other: "i \<noteq> j \<Longrightarrow> out j (note_op i n z) = out j z"
    and settle_other: "i \<noteq> j \<Longrightarrow> out j (settle_op i n e z) = out j z"
    and settle_decreases: "sound z \<Longrightarrow> out i (settle_op i n e z) \<le> out i z"
begin

lemma notes_other: "i \<notin> fst ` set ps \<Longrightarrow> out i (fold (\<lambda>(j, n). note_op j n) ps z) = out i z"
  by (induction ps arbitrary: z) (auto simp: note_other)

lemma settles_decrease:
  "sound z \<Longrightarrow> out i (fold (\<lambda>(j, n, e). settle_op j n e) qs z) \<le> out i z \<and> sound (fold (\<lambda>(j, n, e). settle_op j n e) qs z)"
proof (induction qs arbitrary: z)
  case (Cons q qs)
  obtain j n e where q: "q = (j, n, e)" by (cases q)
  have "out i (settle_op j n e z) \<le> out i z" using settle_decreases [OF Cons.prems] settle_other [of j i] by (cases "i = j") auto
  with Cons.IH [OF settle_sound [OF Cons.prems], of j n e] show ?case by (simp add: q)
qed simp

end

locale counting_accumulator = seal_accumulator +
  assumes note_counts: "out i (note_op i n z) = out i z + 1"
begin

lemma notes_count: "out i (fold (\<lambda>(j, n). note_op j n) ps z) = out i z + int (length (filter (\<lambda>p. fst p = i) ps))"
  by (induction ps arbitrary: z) (auto simp: note_counts note_other)

end

text \<open>The accumulator of the pipeline, with the source it reads, the thread outcomes and the caller's held state fixed.\<close>

definition segment_note :: "nat \<Rightarrow> origin option \<Rightarrow> string \<Rightarrow> int \<Rightarrow> seals \<Rightarrow> seals" where
  "segment_note forced_at k i n z = snd (note_allocated forced_at (Inr k) i n z)"

definition segment_settle :: "bool \<Rightarrow> bool \<Rightarrow> held \<Rightarrow> string \<Rightarrow> int \<Rightarrow> string \<Rightarrow> seals \<Rightarrow> seals" where
  "segment_settle can_make can_start h i n e z = snd (settle can_make can_start i n e (h, z))"

definition counts_ok :: "seals \<Rightarrow> bool" where
  "counts_ok z \<longleftrightarrow> (\<forall>i s. map_of (z_segments z) i = Some s \<longrightarrow> 0 \<le> os_outstanding s)"

text \<open>\<^verbatim>\<open>NullSealAccumulator\<close> accounts nothing.\<close>

definition null_note :: "string \<Rightarrow> int \<Rightarrow> unit \<Rightarrow> unit" where
  "null_note i n z = z"

definition null_settle :: "string \<Rightarrow> int \<Rightarrow> string \<Rightarrow> unit \<Rightarrow> unit" where
  "null_settle i n e z = z"

definition null_outstanding :: "string \<Rightarrow> unit \<Rightarrow> int" where
  "null_outstanding i z = 0"

lemma note_segments:
  "map_of (z_segments (segment_note forced_at k i n z)) j =
     (if j = i then Some ((case map_of (z_segments z) i of None \<Rightarrow> fresh_segment k | Some s \<Rightarrow> s)
        \<lparr>os_outstanding := outstanding i z + 1,
          os_forced := (case map_of (z_segments z) i of None \<Rightarrow> False | Some s \<Rightarrow> os_forced s) \<or> fst (note_allocated forced_at (Inr k) i n z)\<rparr>)
      else map_of (z_segments z) j)"
  by (auto simp: segment_note_def note_allocated_def count_allocated_def Let_def count_stat_def update_conv' outstanding_def fresh_segment_def
      split: option.splits)

lemma start_segments [simp]: "z_segments (snd (start b th z)) = z_segments z"
  by (simp add: start_def count_stat_def split: option.splits thread.splits)

lemma hand_off_segments:
  assumes "hand_off can_make i s (h, z\<lparr>z_segments := AList.update i s (z_segments z)\<rparr>) = (th, h', z')"
  shows "map_of (z_segments z') j = (if j = i then (if sealable s then None else Some s) else map_of (z_segments z) j)"
  by (cases rule: hand_off_cases [OF assms]) (auto simp: update_conv' delete_conv')

lemma settle_segments:
  "map_of (z_segments (segment_settle can_make can_start h i n e z)) j = map_of (z_segments z) j \<or>
   j = i \<and> (\<exists>s. map_of (z_segments z) i = Some s \<and>
     (map_of (z_segments (segment_settle can_make can_start h i n e z)) i = None \<or>
      (\<exists>t. map_of (z_segments (segment_settle can_make can_start h i n e z)) i = Some t \<and> os_outstanding t = max 0 (os_outstanding s - 1))))"
proof (cases "compact_entry e")
  case None
  then show ?thesis by (simp add: segment_settle_def settle_def count_stat_def)
next
  case c: (Some c)
  show ?thesis
  proof (cases "map_of (z_segments z) i")
    case None
    then show ?thesis by (simp add: segment_settle_def settle_def settle_locked_def c count_stat_def)
  next
    case s: (Some s)
    show ?thesis
    proof (cases "n \<in> fst ` set (os_entries s)")
      case True
      then show ?thesis by (simp add: segment_settle_def settle_def settle_locked_def c s)
    next
      case False
      let ?s = "s\<lparr>os_entries := os_entries s @ [(n, c)], os_outstanding := max 0 (os_outstanding s - 1)\<rparr>"
      obtain th h' z' where h: "hand_off can_make i ?s (h, z\<lparr>z_segments := AList.update i ?s (z_segments z)\<rparr>) = (th, h', z')"
        by (metis prod_cases3)
      then have "segment_settle can_make can_start h i n e z = snd (start can_start th z')"
        using False by (simp add: segment_settle_def settle_def settle_locked_def c s Let_def)
      then show ?thesis using hand_off_segments [OF h, of j] s by auto
    qed
  qed
qed

lemma settle_counts:
  assumes "counts_ok z"
  shows "counts_ok (segment_settle can_make can_start h i n e z)"
proof -
  have "0 \<le> os_outstanding t" if "map_of (z_segments (segment_settle can_make can_start h i n e z)) j = Some t" for j t
    using settle_segments [of can_make can_start h i n e z j] that assms by (auto simp: counts_ok_def)
  then show ?thesis by (simp add: counts_ok_def)
qed

interpretation segment_seals: counting_accumulator "segment_note forced_at k" "segment_settle can_make can_start h" outstanding counts_ok
  for forced_at k can_make can_start h
proof
  show "counts_ok z \<Longrightarrow> counts_ok (segment_note forced_at k i n z)" for z i n
    by (auto simp: counts_ok_def note_segments outstanding_def split: option.splits)
  show "counts_ok z \<Longrightarrow> counts_ok (segment_settle can_make can_start h i n e z)" for z i n e by (rule settle_counts)
  show "counts_ok z \<Longrightarrow> 0 \<le> outstanding i z" for z i by (auto simp: counts_ok_def outstanding_def split: option.splits)
  show "i \<noteq> j \<Longrightarrow> outstanding j (segment_note forced_at k i n z) = outstanding j z" for i j n z
    by (simp add: outstanding_def note_segments)
  show "i \<noteq> j \<Longrightarrow> outstanding j (segment_settle can_make can_start h i n e z) = outstanding j z" for i j n e z
    using settle_segments [of can_make can_start h i n e z j] by (auto simp: outstanding_def)
  show "outstanding i (segment_settle can_make can_start h i n e z) \<le> outstanding i z" if "counts_ok z" for i n e z
    using settle_segments [of can_make can_start h i n e z i] that by (auto simp: outstanding_def counts_ok_def split: option.splits)
  show "outstanding i (segment_note forced_at k i n z) = outstanding i z + 1" for i n z
    by (subst outstanding_def) (simp add: note_segments)
qed

interpretation null_seals: seal_accumulator null_note null_settle null_outstanding "\<lambda>z. True"
  by unfold_locales (simp_all add: null_outstanding_def)

end
