(* ===== verification/AllocatorRules.thy ===== *)
theory AllocatorRules
  imports Allocator Scopes
begin

text \<open>
  The allocator as a state machine: what is allocated, under which scope, and where the run markers of a
  scope stand. A scope takes part once its start marker was placed; a newly drawn epoch is one not used before
  (63 random bits in the code).
\<close>

subsection \<open>Steps\<close>

record ('t, 'z) capture =
  w_al :: "('t, 'z) allocator"
  w_log :: "allocation list"
  w_starts :: "(string \<times> int \<times> int) list"
  w_ends :: "(string \<times> int \<times> int) list"
  w_epochs :: "int set"

fun scope_chain :: "run_scope option \<Rightarrow> string set" where
  "scope_chain None = {}"
| "scope_chain (Some (Run_scope run i parent)) = insert i (scope_chain parent)"

definition capture_start :: "('t, 'z) allocator \<Rightarrow> ('t, 'z) capture" where
  "capture_start al = \<lparr>w_al = al, w_log = [], w_starts = [], w_ends = [], w_epochs = {al_epoch al}\<rparr>"

inductive capture_step ::
  "(allocation \<Rightarrow> 't \<Rightarrow> string option option \<times> 't) \<Rightarrow> (string \<Rightarrow> int \<Rightarrow> 'z \<Rightarrow> 'z option) \<Rightarrow> (string \<Rightarrow> int \<Rightarrow> string \<Rightarrow> 'z \<Rightarrow> 'z option) \<Rightarrow>
   ('t, 'z) capture \<Rightarrow> ('t, 'z) capture \<Rightarrow> bool" for on_allocate note_op settle_op where
  allocate: "scope_chain sc \<subseteq> fst ` set (w_starts w) \<Longrightarrow> allocate_for on_allocate note_op st sc (w_al w) = (a, al) \<Longrightarrow>
    capture_step on_allocate note_op settle_op w (w\<lparr>w_al := al, w_log := w_log w @ [a]\<rparr>)"
| opened: "scope_name sc \<notin> fst ` set (w_starts w) \<Longrightarrow>
    capture_step on_allocate note_op settle_op w (w\<lparr>w_starts := w_starts w @ [(scope_name sc, open_position sc (w_al w))]\<rparr>)"
| closed: "close_position sc (w_al w) = (p, al) \<Longrightarrow>
    capture_step on_allocate note_op settle_op w (w\<lparr>w_al := al, w_ends := w_ends w @ [(scope_name sc, p)]\<rparr>)"
| settled: "capture_step on_allocate note_op settle_op w (w\<lparr>w_al := settle_position settle_op seg n e (w_al w)\<rparr>)"
| sealed: "e \<notin> w_epochs w \<Longrightarrow> seal_epoch e (w_al w) = (p, al) \<Longrightarrow>
    capture_step on_allocate note_op settle_op w (w\<lparr>w_al := al, w_epochs := insert e (w_epochs w)\<rparr>)"
| forked: "e \<notin> w_epochs w \<Longrightarrow>
    capture_step on_allocate note_op settle_op w (w\<lparr>w_al := after_fork e (w_al w), w_epochs := insert e (w_epochs w)\<rparr>)"
| bound: "reg_epoch reg = al_epoch (w_al w) \<or> reg_epoch reg \<notin> w_epochs w \<Longrightarrow> mirror_writes st \<Longrightarrow>
    bind_registration st reg mirror drawn_from (w_al w) = (ok, al) \<Longrightarrow>
    capture_step on_allocate note_op settle_op w (w\<lparr>w_al := al, w_epochs := insert (reg_epoch reg) (w_epochs w)\<rparr>)"
| unbound: "capture_step on_allocate note_op settle_op w (w\<lparr>w_al := unbind_registration reg (w_al w)\<rparr>)"
| attached: "capture_step on_allocate note_op settle_op w (w\<lparr>w_al := attach t z (w_al w)\<rparr>)"

inductive reachable for on_allocate note_op settle_op al0 where
  outset: "reachable on_allocate note_op settle_op al0 (capture_start al0)"
| go: "reachable on_allocate note_op settle_op al0 w \<Longrightarrow> capture_step on_allocate note_op settle_op w w' \<Longrightarrow>
    reachable on_allocate note_op settle_op al0 w'"

subsection \<open>The invariant\<close>

definition positions :: "int \<Rightarrow> allocation list \<Rightarrow> int set" where
  "positions e as = {at_sequence a | a. a \<in> set as \<and> at_epoch a = e}"

definition counted :: "('t, 'z) capture \<Rightarrow> bool" where
  "counted w \<longleftrightarrow> 0 \<le> al_next (w_al w) \<and> al_epoch (w_al w) \<in> w_epochs w \<and> at_epoch ` set (w_log w) \<subseteq> w_epochs w \<and>
     distinct (map (\<lambda>a. (at_epoch a, at_sequence a)) (w_log w)) \<and>
     positions (al_epoch (w_al w)) (w_log w) = {0..<al_next (w_al w)} \<and>
     (\<forall>e. \<exists>k. positions e (w_log w) = {0..<k}) \<and>
     (\<forall>v. al_mirror (w_al w) = Some v \<longrightarrow> v = al_next (w_al w))"

definition in_scope :: "string \<Rightarrow> allocation \<Rightarrow> bool" where
  "in_scope c a \<longleftrightarrow> (\<exists>run parent. at_scope a = Some (Run_scope run c parent))"

definition placed :: "('t, 'z) capture \<Rightarrow> bool" where
  "placed w \<longleftrightarrow>
     (\<forall>(c, e, l)\<in>set (w_starts w). e \<in> w_epochs w \<and> (e = al_epoch (w_al w) \<longrightarrow> l < al_next (w_al w))) \<and>
     (\<forall>(c, e, l)\<in>set (w_ends w). c \<in> set (al_closed (w_al w)) \<and> e \<in> w_epochs w) \<and>
     (\<forall>a\<in>set (w_log w). \<forall>c. in_scope c a \<longrightarrow> c \<in> fst ` set (w_starts w) \<and>
        (\<forall>e l. (c, e, l) \<in> set (w_starts w) \<longrightarrow> e = at_epoch a \<longrightarrow> l < at_sequence a) \<and>
        (\<forall>e l. (c, e, l) \<in> set (w_ends w) \<longrightarrow> e = at_epoch a \<longrightarrow> at_sequence a \<le> l))"

lemma allocated_fields:
  assumes "allocated on_allocate note_op st sc al = (a, al')"
  shows "at_epoch a = al_epoch al" "at_sequence a = al_next al" "at_scope a = sc" "al_next al' = al_next al + 1"
    "al_epoch al' = al_epoch al" "al_closed al' = al_closed al"
    "al_mirror al' = Some v \<Longrightarrow> v = al_next al + 1"
  using assms by (auto simp: allocated_def Let_def split: prod.splits option.splits if_splits)

lemma open_scope_of_spec:
  "open_scope_of cl sc = Some (Run_scope run c parent) \<Longrightarrow> c \<notin> set cl \<and> c \<in> scope_chain sc"
  by (induction cl sc rule: open_scope_of.induct) (auto split: if_splits)

lemma positions_snoc: "positions e (as @ [a]) = (if at_epoch a = e then insert (at_sequence a) (positions e as) else positions e as)"
  by (auto simp: positions_def)

lemma settle_position_fields [simp]:
  "al_next (settle_position f seg n e al) = al_next al" "al_epoch (settle_position f seg n e al) = al_epoch al"
  "al_closed (settle_position f seg n e al) = al_closed al" "al_mirror (settle_position f seg n e al) = al_mirror al"
  by (simp_all add: settle_position_def split: option.splits)

lemma unused_epoch: "at_epoch ` set as \<subseteq> E \<Longrightarrow> e \<notin> E \<Longrightarrow> positions e as = {}"
  by (auto simp: positions_def)

lemma counted_step:
  assumes "capture_step on_allocate note_op settle_op w w'" and "counted w"
  shows "counted w'"
  using assms(1)
proof (cases rule: capture_step.cases)
  case (allocate sc st a al)
  note f = allocated_fields [OF allocate(3) [unfolded allocate_for_def]]
  have new: "al_next (w_al w) \<notin> positions (al_epoch (w_al w)) (w_log w)" using assms(2) by (simp add: counted_def)
  have k: "\<exists>k. positions e (w_log w @ [a]) = {0..<k}" for e
  proof (cases "e = al_epoch (w_al w)")
    case True
    then have "positions e (w_log w @ [a]) = {0..<al_next (w_al w) + 1}" using f assms(2) by (auto simp: positions_snoc counted_def)
    then show ?thesis ..
  next
    case False
    then show ?thesis using f assms(2) by (simp add: positions_snoc counted_def)
  qed
  show ?thesis unfolding allocate(1)
    using f k new assms(2) by (auto simp: counted_def positions_snoc) (auto simp: positions_def)
qed (use assms(2) unused_epoch in \<open>auto simp: counted_def open_position_def close_position_def seal_epoch_def after_fork_def
      bind_registration_def unbind_registration_def attach_def last_sequence_def split: if_splits option.splits\<close>)

lemma counted_positions: "counted w \<Longrightarrow> a \<in> set (w_log w) \<Longrightarrow> at_epoch a = al_epoch (w_al w) \<Longrightarrow> at_sequence a < al_next (w_al w)"
proof -
  assume c: "counted w" and "a \<in> set (w_log w)" "at_epoch a = al_epoch (w_al w)"
  then have "at_sequence a \<in> positions (al_epoch (w_al w)) (w_log w)" by (auto simp: positions_def)
  then show ?thesis using c by (simp add: counted_def)
qed

lemma placedD:
  assumes "placed w"
  shows "(c, e, l) \<in> set (w_starts w) \<Longrightarrow> e \<in> w_epochs w \<and> (e = al_epoch (w_al w) \<longrightarrow> l < al_next (w_al w))"
    "(c, e, l) \<in> set (w_ends w) \<Longrightarrow> c \<in> set (al_closed (w_al w)) \<and> e \<in> w_epochs w"
    "a \<in> set (w_log w) \<Longrightarrow> in_scope c a \<Longrightarrow> c \<in> fst ` set (w_starts w)"
    "a \<in> set (w_log w) \<Longrightarrow> in_scope c a \<Longrightarrow> (c, at_epoch a, l) \<in> set (w_starts w) \<Longrightarrow> l < at_sequence a"
    "a \<in> set (w_log w) \<Longrightarrow> in_scope c a \<Longrightarrow> (c, at_epoch a, l) \<in> set (w_ends w) \<Longrightarrow> at_sequence a \<le> l"
  using assms unfolding placed_def by blast+

lemma placedI:
  assumes "\<And>c e l. (c, e, l) \<in> set (w_starts w) \<Longrightarrow> e \<in> w_epochs w \<and> (e = al_epoch (w_al w) \<longrightarrow> l < al_next (w_al w))"
    "\<And>c e l. (c, e, l) \<in> set (w_ends w) \<Longrightarrow> c \<in> set (al_closed (w_al w)) \<and> e \<in> w_epochs w"
    "\<And>a c. a \<in> set (w_log w) \<Longrightarrow> in_scope c a \<Longrightarrow> c \<in> fst ` set (w_starts w)"
    "\<And>a c l. a \<in> set (w_log w) \<Longrightarrow> in_scope c a \<Longrightarrow> (c, at_epoch a, l) \<in> set (w_starts w) \<Longrightarrow> l < at_sequence a"
    "\<And>a c l. a \<in> set (w_log w) \<Longrightarrow> in_scope c a \<Longrightarrow> (c, at_epoch a, l) \<in> set (w_ends w) \<Longrightarrow> at_sequence a \<le> l"
  shows "placed w"
  using assms unfolding placed_def by blast

text \<open>Steps that keep the log and the markers, and move the counter only to an epoch not used before.\<close>

lemma placed_other:
  assumes p: "placed w" and "w_log w' = w_log w" "w_starts w' = w_starts w" "w_ends w' = w_ends w" "w_epochs w \<subseteq> w_epochs w'"
    and cl: "set (al_closed (w_al w)) \<subseteq> set (al_closed (w_al w'))"
    and e: "al_epoch (w_al w') = al_epoch (w_al w) \<and> al_next (w_al w') = al_next (w_al w) \<or> al_epoch (w_al w') \<notin> w_epochs w"
  shows "placed w'"
proof (rule placedI, unfold assms(2-4))
  fix c e l assume "(c, e, l) \<in> set (w_starts w)"
  from placedD(1) [OF p this] show "e \<in> w_epochs w' \<and> (e = al_epoch (w_al w') \<longrightarrow> l < al_next (w_al w'))" using assms(5) e by auto
next
  fix c e l assume "(c, e, l) \<in> set (w_ends w)"
  from placedD(2) [OF p this] show "c \<in> set (al_closed (w_al w')) \<and> e \<in> w_epochs w'" using assms(5) cl by auto
qed (rule placedD [OF p]; assumption)+

lemma placed_allocate:
  assumes p: "placed w" and c: "counted w" and sc: "scope_chain sc \<subseteq> fst ` set (w_starts w)"
    and a: "allocate_for on_allocate note_op st sc (w_al w) = (a, al)"
  shows "placed (w\<lparr>w_al := al, w_log := w_log w @ [a]\<rparr>)"
proof (rule placedI)
  note f = allocated_fields [OF a [unfolded allocate_for_def]]
  have fresh: "d \<in> fst ` set (w_starts w) \<and> d \<notin> set (al_closed (w_al w))" if d: "in_scope d a" for d
    using d open_scope_of_spec [of "al_closed (w_al w)" sc] sc by (auto simp: in_scope_def f(3))
  fix b d l assume "b \<in> set (w_log (w\<lparr>w_al := al, w_log := w_log w @ [a]\<rparr>))" and d: "in_scope d b"
  then consider "b \<in> set (w_log w)" | "b = a" by auto
  note b = this
  from b show "d \<in> fst ` set (w_starts (w\<lparr>w_al := al, w_log := w_log w @ [a]\<rparr>))"
    by cases (use placedD(3) [OF p _ d] fresh d in auto)
  from b show "l < at_sequence b" if s: "(d, at_epoch b, l) \<in> set (w_starts (w\<lparr>w_al := al, w_log := w_log w @ [a]\<rparr>))"
    by cases (use s placedD(4) [OF p _ d] placedD(1) [OF p] f in auto)
  from b show "at_sequence b \<le> l" if s: "(d, at_epoch b, l) \<in> set (w_ends (w\<lparr>w_al := al, w_log := w_log w @ [a]\<rparr>))"
  proof cases
    case 1
    then show ?thesis using s placedD(5) [OF p _ d] by simp
  next
    case 2
    then show ?thesis using s placedD(2) [OF p] fresh d by fastforce
  qed
qed (use placedD(1,2) [OF p] allocated_fields [OF a [unfolded allocate_for_def]] in fastforce)+

lemma placed_step:
  assumes "capture_step on_allocate note_op settle_op w w'" and p: "placed w" and c: "counted w"
  shows "placed w'"
  using assms(1)
proof (cases rule: capture_step.cases)
  case (allocate sc st a al)
  then show ?thesis using placed_allocate [OF p c] by simp
next
  case (opened sc)
  have cur: "al_epoch (w_al w) \<in> w_epochs w" using c by (simp add: counted_def)
  show ?thesis unfolding opened(1)
  proof (rule placedI)
    fix a d l assume a: "a \<in> set (w_log (w\<lparr>w_starts := w_starts w @ [(scope_name sc, open_position sc (w_al w))]\<rparr>))" "in_scope d a"
    then have "d \<in> fst ` set (w_starts w)" using placedD(3) [OF p, of a d] by simp
    then have "d \<noteq> scope_name sc" using opened(2) by metis
    then show "l < at_sequence a" if "(d, at_epoch a, l) \<in> set (w_starts (w\<lparr>w_starts := w_starts w @ [(scope_name sc, open_position sc (w_al w))]\<rparr>))"
      using placedD(4) [OF p, of a d l] a that by simp
    show "d \<in> fst ` set (w_starts (w\<lparr>w_starts := w_starts w @ [(scope_name sc, open_position sc (w_al w))]\<rparr>))"
      using placedD(3) [OF p, of a d] a by auto
  qed (use placedD(1,2,5) [OF p] cur in \<open>auto simp: open_position_def last_sequence_def\<close>)
next
  case (closed sc q al)
  then have al: "al = (w_al w)\<lparr>al_closed := add_new (scope_name sc) (al_closed (w_al w))\<rparr>" "q = (al_epoch (w_al w), al_next (w_al w) - 1)"
    by (auto simp: close_position_def last_sequence_def)
  have cur: "al_epoch (w_al w) \<in> w_epochs w" using c by (simp add: counted_def)
  show ?thesis unfolding closed(1)
  proof (rule placedI)
    fix a d l assume a: "a \<in> set (w_log (w\<lparr>w_al := al, w_ends := w_ends w @ [(scope_name sc, q)]\<rparr>))" "in_scope d a"
      "(d, at_epoch a, l) \<in> set (w_ends (w\<lparr>w_al := al, w_ends := w_ends w @ [(scope_name sc, q)]\<rparr>))"
    then show "at_sequence a \<le> l" using placedD(5) [OF p, of a d l] counted_positions [OF c, of a] by (auto simp: al(2))
  qed (use placedD(1,2,3,4) [OF p] cur in \<open>auto simp: al\<close>)
next
  case settled
  then show ?thesis using placed_other [OF p, of w'] by simp
next
  case (sealed e q al)
  then show ?thesis by (intro placed_other [OF p]) (auto simp: seal_epoch_def)
next
  case (forked e)
  then show ?thesis by (intro placed_other [OF p]) (auto simp: after_fork_def)
next
  case (bound reg st mirror drawn_from ok al)
  then show ?thesis by (intro placed_other [OF p]) (auto simp: bind_registration_def split: if_splits)
next
  case (unbound reg)
  then show ?thesis by (intro placed_other [OF p]) (auto simp: unbind_registration_def)
next
  case (attached t z)
  then show ?thesis by (intro placed_other [OF p]) (auto simp: attach_def)
qed

lemma reachable_inv:
  assumes "reachable on_allocate note_op settle_op al0 w" and "new_allocator source_id epoch t0 z0 = Some al0"
  shows "counted w \<and> placed w"
  using assms(1)
proof (induction rule: reachable.induct)
  case outset
  have "positions e [] = {0..<0}" for e by (simp add: positions_def)
  then show ?case using assms(2) by (auto simp: capture_start_def counted_def placed_def new_allocator_def split: if_splits)
next
  case (go w w')
  then show ?case using counted_step placed_step by blast
qed

subsection \<open>A sample capture\<close>

text \<open>\<^verbatim>\<open>NullRunTable\<close>: every allocation is segment-less.\<close>

definition null_on_allocate :: "allocation \<Rightarrow> unit \<Rightarrow> string option option \<times> unit" where
  "null_on_allocate a t = (Some None, t)"

definition sample_allocator :: "(unit, unit) allocator" where
  "sample_allocator = the (new_allocator ''s'' 7 () ())"

definition sample_scope_ref :: run_scope where
  "sample_scope_ref = Run_scope ''r'' ''c'' None"

definition sample_stores :: stores where
  "sample_stores = \<lparr>mirror_writes = True, ledger_writes = True\<rparr>"

definition sample_capture :: "(unit, unit) capture" where
  "sample_capture =
     (let w1 = (capture_start sample_allocator)\<lparr>w_starts := [(''c'', open_position sample_scope_ref sample_allocator)]\<rparr>;
          (a, al2) = allocate_for null_on_allocate (\<lambda>i n z. Some z) sample_stores (Some sample_scope_ref) (w_al w1);
          w2 = w1\<lparr>w_al := al2, w_log := [a]\<rparr>;
          (p, al3) = close_position sample_scope_ref al2
      in w2\<lparr>w_al := al3, w_ends := [(''c'', p)]\<rparr>)"

definition sample_exchange :: exchange_obs where
  "sample_exchange = \<lparr>x_exchange_id = ''x'', x_source_id = ''s'', x_source_epoch = 7, x_source_sequence = 0, x_run_id = ''r'', x_api = ''chat'',
     x_response_state = ''complete'', x_store_status = ''stored'', x_truncated = False, x_request_sha256 = None, x_response_sha256 = None,
     x_request_ref = None, x_response_ref = None, x_start_ns = 0, x_end_ns = 1, x_trace_id = None, x_span_id = None, x_model = None,
     x_response_id = None, x_http_status = None, x_scope_id = None, x_malformed = False,
     x_authenticated = False, x_segment_id = None, x_fingerprint = None, x_span = None, x_endpoint_id = None\<rparr>"

lemma sample_new: "new_allocator ''s'' 7 () () = Some sample_allocator"
  by (simp add: sample_allocator_def new_allocator_def opaque_id_re_def alnum_def) code_simp

lemma sample_reachable: "reachable null_on_allocate (\<lambda>i n z. Some z) (\<lambda>i n e z. Some z) sample_allocator sample_capture"
proof -
  let ?w1 = "(capture_start sample_allocator)\<lparr>w_starts := [(''c'', open_position sample_scope_ref sample_allocator)]\<rparr>"
  have "reachable null_on_allocate (\<lambda>i n z. Some z) (\<lambda>i n e z. Some z) sample_allocator ?w1"
    using reachable.go [OF reachable.outset capture_step.opened, of sample_scope_ref sample_allocator null_on_allocate "\<lambda>i n z. Some z" "\<lambda>i n e z. Some z"]
    by (simp add: capture_start_def sample_scope_ref_def)
  note r1 = this
  obtain a al2 where a: "allocate_for null_on_allocate (\<lambda>i n z. Some z) sample_stores (Some sample_scope_ref) (w_al ?w1) = (a, al2)"
    by (metis surj_pair)
  have r2: "reachable null_on_allocate (\<lambda>i n z. Some z) (\<lambda>i n e z. Some z) sample_allocator (?w1\<lparr>w_al := al2, w_log := [a]\<rparr>)"
    using reachable.go [OF r1 capture_step.allocate [OF _ a]] by (simp add: capture_start_def sample_scope_ref_def)
  obtain p al3 where p: "close_position sample_scope_ref al2 = (p, al3)" by (metis surj_pair)
  show ?thesis
    using reachable.go [OF r2 capture_step.closed, of sample_scope_ref p al3] p a
    by (simp add: sample_capture_def Let_def capture_start_def sample_scope_ref_def)
qed

subsection \<open>Properties\<close>






end
