(* ===== verification/Spec2Isabelle.thy ===== *)
theory Spec2Isabelle
  imports StitchCheck Windows Labels RunRules VerifyProperties SealProperties AllocatorRules
begin

text \<open>
  SingleAxis Fabric: the reconstruction verifier.
\<close>

end
